theory Spec2Isabelle
  imports Main "HOL-Library.Monad_Syntax" "HOL-Library.Multiset"
    "HOL-Library.Transitive_Closure_Table"
begin

section \<open>Undefined behaviour, arrays and counted loops\<close>

text \<open>
  The program is C++ (\<^verbatim>\<open>src/data.cpp\<close>).  Every operation whose behaviour C++ leaves
  undefined (an array access outside the allocation, a dereferenced null pointer, a
  signed overflow, an allocation of negative length) is a branch of the model that
  returns \<open>None\<close>.  A result \<open>Some x\<close> therefore says that the run met none of them.
  The C++ \<^verbatim>\<open>int\<close> is modelled by \<open>int\<close>; the 32-bit range is written out where the
  program does arithmetic on values.
\<close>

definition INT_MAX :: int where
  "INT_MAX = 2147483647"

definition INT_MIN :: int where
  "INT_MIN = - 2147483648"

definition add32 :: "int \<Rightarrow> int \<Rightarrow> int option" where
  "add32 a b = (if INT_MIN \<le> a + b \<and> a + b \<le> INT_MAX then Some (a + b) else None)"

definition mul32 :: "int \<Rightarrow> int \<Rightarrow> int option" where
  "mul32 a b = (if INT_MIN \<le> a * b \<and> a * b \<le> INT_MAX then Some (a * b) else None)"

definition neg32 :: "int \<Rightarrow> int option" where
  "neg32 a = (if INT_MIN \<le> - a \<and> - a \<le> INT_MAX then Some (- a) else None)"

text \<open>An array \<^verbatim>\<open>T* a = new T[len]\<close> is a list; \<^verbatim>\<open>a[i]\<close> is checked against its length.\<close>

definition new_array :: "int \<Rightarrow> 'a \<Rightarrow> 'a list option" where
  "new_array len x = (if len < 0 then None else Some (replicate (nat len) x))"

definition aget :: "'a list \<Rightarrow> int \<Rightarrow> 'a option" where
  "aget xs i = (if 0 \<le> i \<and> i < int (length xs) then Some (xs ! nat i) else None)"

definition aset :: "'a list \<Rightarrow> int \<Rightarrow> 'a \<Rightarrow> 'a list option" where
  "aset xs i v = (if 0 \<le> i \<and> i < int (length xs) then Some (xs[nat i := v]) else None)"

text \<open>\<^verbatim>\<open>for (int i = lo; i < n; i++) body\<close> and \<^verbatim>\<open>for (int i = hi; i >= 0; i--) body\<close>.\<close>

function for_up :: "int \<Rightarrow> int \<Rightarrow> (int \<Rightarrow> 's \<Rightarrow> 's option) \<Rightarrow> 's \<Rightarrow> 's option" where
  "for_up i n body s =
     (if i < n then (case body i s of None \<Rightarrow> None | Some s' \<Rightarrow> for_up (i + 1) n body s')
      else Some s)"
  by pat_completeness auto
termination
  by (relation "measure (\<lambda>(i, n, body, s). nat (n - i))") auto

function for_down :: "int \<Rightarrow> (int \<Rightarrow> 's \<Rightarrow> 's option) \<Rightarrow> 's \<Rightarrow> 's option" where
  "for_down i body s =
     (if i \<ge> 0 then (case body i s of None \<Rightarrow> None | Some s' \<Rightarrow> for_down (i - 1) body s')
      else Some s)"
  by pat_completeness auto
termination
  by (relation "measure (\<lambda>(i, body, s). nat (i + 1))") auto

declare for_up.simps [simp del]
declare for_down.simps [simp del]

subsection \<open>Loop rules\<close>

lemma for_up_rule:
  assumes "I i0 s0" and "i0 \<le> n"
    and "\<And>i s. i0 \<le> i \<Longrightarrow> i < n \<Longrightarrow> I i s \<Longrightarrow> \<exists>s'. body i s = Some s' \<and> I (i + 1) s'"
  shows "\<exists>s'. for_up i0 n body s0 = Some s' \<and> I n s'"
  using assms
proof (induction i0 n body s0 rule: for_up.induct)
  case (1 i n body s)
  show ?case
  proof (cases "i < n")
    case True
    from "1.prems"(3)[OF _ True "1.prems"(1)] obtain s' where s': "body i s = Some s'" "I (i + 1) s'"
      by auto
    have "\<exists>s''. for_up (i + 1) n body s' = Some s'' \<and> I n s''"
    proof (rule "1.IH"[OF True s'(1) s'(2)])
      show "i + 1 \<le> n" using True by simp
      fix j t assume "i + 1 \<le> j" "j < n" "I j t"
      then show "\<exists>s'. body j t = Some s' \<and> I (j + 1) s'"
        using "1.prems"(3)[of j t] by simp
    qed
    then show ?thesis using True s'(1) by (simp add: for_up.simps[of i n])
  next
    case False
    with "1.prems" have "i = n" by simp
    then show ?thesis using "1.prems"(1) by (simp add: for_up.simps[of n n])
  qed
qed

lemma for_up_partial:
  assumes "for_up i n body s = Some s'" and "P s"
    and "\<And>j t t'. P t \<Longrightarrow> body j t = Some t' \<Longrightarrow> P t'"
  shows "P s'"
  using assms
proof (induction i n body s rule: for_up.induct)
  case (1 i n body s)
  show ?case
  proof (cases "i < n")
    case True
    then obtain t where t: "body i s = Some t" "for_up (i + 1) n body t = Some s'"
      using "1.prems"(1) by (auto simp: for_up.simps[of i n] split: option.splits)
    have "P t" using "1.prems"(3)[OF "1.prems"(2) t(1)] .
    then show ?thesis using "1.IH"[OF True t(1) t(2)] "1.prems"(3) by blast
  next
    case False
    then show ?thesis using "1.prems"(1,2) by (simp add: for_up.simps[of i n])
  qed
qed

lemma for_down_partial:
  assumes "for_down i body s = Some s'" and "P s"
    and "\<And>j t t'. P t \<Longrightarrow> body j t = Some t' \<Longrightarrow> P t'"
  shows "P s'"
  using assms
proof (induction i body s rule: for_down.induct)
  case (1 i body s)
  show ?case
  proof (cases "i \<ge> 0")
    case True
    then obtain t where t: "body i s = Some t" "for_down (i - 1) body t = Some s'"
      using "1.prems"(1) by (auto simp: for_down.simps[of i] split: option.splits)
    have "P t" using "1.prems"(3)[OF "1.prems"(2) t(1)] .
    then show ?thesis using "1.IH"[OF True t(1) t(2)] "1.prems"(3) by blast
  next
    case False
    then show ?thesis using "1.prems"(1,2) by (simp add: for_down.simps[of i])
  qed
qed

lemma for_down_rule:
  assumes "I i0 s0" and "- 1 \<le> i0"
    and "\<And>i s. 0 \<le> i \<Longrightarrow> i \<le> i0 \<Longrightarrow> I i s \<Longrightarrow> \<exists>s'. body i s = Some s' \<and> I (i - 1) s'"
  shows "\<exists>s'. for_down i0 body s0 = Some s' \<and> I (- 1) s'"
  using assms
proof (induction i0 body s0 rule: for_down.induct)
  case (1 i body s)
  show ?case
  proof (cases "i \<ge> 0")
    case True
    from "1.prems"(3)[OF True _ "1.prems"(1)] obtain s' where s': "body i s = Some s'" "I (i - 1) s'"
      by auto
    have "\<exists>s''. for_down (i - 1) body s' = Some s'' \<and> I (- 1) s''"
    proof (rule "1.IH"[OF True s'(1) s'(2)])
      show "- 1 \<le> i - 1" using True by simp
      fix j t assume "0 \<le> j" "j \<le> i - 1" "I j t"
      then show "\<exists>s'. body j t = Some s' \<and> I (j - 1) s'"
        using "1.prems"(3)[of j t] by simp
    qed
    then show ?thesis using True s'(1) by (simp add: for_down.simps[of i])
  next
    case False
    with "1.prems" have "i = - 1" by simp
    then show ?thesis using "1.prems"(1) by (simp add: for_down.simps[of "- 1"])
  qed
qed

section \<open>intToString\<close>

function digits_loop :: "int \<Rightarrow> string \<Rightarrow> string" where
  "digits_loop num result =
     (if num > 0 then digits_loop (num div 10) ((''0123456789'' ! nat (num mod 10)) # result)
      else result)"
  by pat_completeness auto
termination
  by (relation "measure (\<lambda>(num, result). nat num)") auto

declare digits_loop.simps [simp del]

definition intToString :: "int \<Rightarrow> string option" where
  "intToString num =
     (if num = 0 then Some ''0''
      else if num < 0 then
        do { num' \<leftarrow> neg32 num; Some (''-'' @ digits_loop num' []) }
      else Some (digits_loop num []))"

section \<open>Queue and Stack\<close>

text \<open>
  Both classes are singly linked lists of \<^verbatim>\<open>int\<close> with a node count; the model is the
  list of the stored values, front (or top) first.
\<close>

type_synonym Queue = "int list"

definition Queue_empty :: "Queue \<Rightarrow> bool" where
  "Queue_empty q = (q = [])"

definition enqueue :: "Queue \<Rightarrow> int \<Rightarrow> Queue" where
  "enqueue q data = q @ [data]"

definition dequeue :: "Queue \<Rightarrow> Queue" where
  "dequeue q = (if Queue_empty q then q else tl q)"

definition Front :: "Queue \<Rightarrow> int" where
  "Front q = (if Queue_empty q then - 1 else hd q)"

type_synonym Stack = "int list"

definition Stack_empty :: "Stack \<Rightarrow> bool" where
  "Stack_empty s = (s = [])"

definition Stack_push :: "Stack \<Rightarrow> int \<Rightarrow> Stack" where
  "Stack_push s data = data # s"

definition Stack_pop :: "Stack \<Rightarrow> Stack" where
  "Stack_pop s = (if Stack_empty s then s else tl s)"

definition Top :: "Stack \<Rightarrow> int" where
  "Top s = (if Stack_empty s then - 1 else hd s)"

section \<open>MinHeap\<close>

record PQNode =
  pq_vertex :: int
  pq_key :: int

text \<open>The fields \<^verbatim>\<open>heap\<close>, \<^verbatim>\<open>size\<close> and \<^verbatim>\<open>capacity\<close>; the array is used from index 1.\<close>

record MinHeap =
  heap :: "PQNode list"
  h_size :: int
  capacity :: int

function heapifyUp :: "PQNode list \<Rightarrow> int \<Rightarrow> PQNode list option" where
  "heapifyUp h i =
     (if i > 1 then
        do { a \<leftarrow> aget h i;
             b \<leftarrow> aget h (i div 2);
             if pq_key a < pq_key b then
               do { h1 \<leftarrow> aset h i b;
                    h2 \<leftarrow> aset h1 (i div 2) a;
                    heapifyUp h2 (i div 2) }
             else Some h }
      else Some h)"
  by pat_completeness auto
termination
  by (relation "measure (\<lambda>(h, i). nat i)") auto

declare heapifyUp.simps [simp del]

text \<open>Lines 155 to 162 of \<^verbatim>\<open>heapifyDown\<close>: the index of the smallest of a node and its children.\<close>

definition heap_smallest :: "PQNode list \<Rightarrow> int \<Rightarrow> int \<Rightarrow> int option" where
  "heap_smallest h sz i =
     do { left \<leftarrow> mul32 2 i;
          right \<leftarrow> add32 left 1;
          s1 \<leftarrow> (if left \<le> sz then
                    do { a \<leftarrow> aget h left; b \<leftarrow> aget h i;
                         Some (if pq_key a < pq_key b then left else i) }
                  else Some i);
          (if right \<le> sz then
             do { a \<leftarrow> aget h right; b \<leftarrow> aget h s1;
                  Some (if pq_key a < pq_key b then right else s1) }
           else Some s1) }"

definition heap_swap :: "PQNode list \<Rightarrow> int \<Rightarrow> int \<Rightarrow> PQNode list option" where
  "heap_swap h i j =
     do { a \<leftarrow> aget h i; b \<leftarrow> aget h j; h1 \<leftarrow> aset h i b; aset h1 j a }"

lemma heap_smallest_bound:
  assumes "heap_smallest h sz i = Some s" "s \<noteq> i"
  shows "i < s \<and> s < int (length h)"
  using assms
  by (auto simp: heap_smallest_def mul32_def add32_def aget_def
      split: if_splits bind_splits)

lemma heap_swap_length: "heap_swap h i j = Some h' \<Longrightarrow> length h' = length h"
  by (auto simp: heap_swap_def aget_def aset_def split: if_splits bind_splits)

function heapifyDown :: "PQNode list \<Rightarrow> int \<Rightarrow> int \<Rightarrow> PQNode list option" where
  "heapifyDown h sz i =
     do { smallest \<leftarrow> heap_smallest h sz i;
          if smallest \<noteq> i then
            do { h1 \<leftarrow> heap_swap h i smallest;
                 heapifyDown h1 sz smallest }
          else Some h }"
  by pat_completeness auto
termination
proof (relation "measure (\<lambda>(h, sz, i). nat (int (length h) - i))", goal_cases)
  case 1
  show ?case by simp
next
  case (2 h sz i s h1)
  then show ?case
    using heap_smallest_bound[of h sz i s] heap_swap_length[of h i s h1] by auto
qed

declare heapifyDown.simps [simp del]

definition MinHeap_new :: "int \<Rightarrow> MinHeap option" where
  "MinHeap_new cap =
     do { len \<leftarrow> add32 cap 1;
          h \<leftarrow> new_array len \<lparr>pq_vertex = 0, pq_key = 0\<rparr>;
          Some \<lparr>heap = h, h_size = 0, capacity = cap\<rparr> }"

definition MinHeap_push :: "MinHeap \<Rightarrow> int \<Rightarrow> int \<Rightarrow> MinHeap option" where
  "MinHeap_push pq vertex key =
     (if h_size pq \<ge> capacity pq then Some pq
      else
        do { sz \<leftarrow> add32 (h_size pq) 1;
             h1 \<leftarrow> aset (heap pq) sz \<lparr>pq_vertex = vertex, pq_key = key\<rparr>;
             h2 \<leftarrow> heapifyUp h1 sz;
             Some (pq\<lparr>heap := h2, h_size := sz\<rparr>) })"

definition MinHeap_pop :: "MinHeap \<Rightarrow> (PQNode \<times> MinHeap) option" where
  "MinHeap_pop pq =
     (if h_size pq = 0 then Some (\<lparr>pq_vertex = - 1, pq_key = 999999\<rparr>, pq)
      else
        do { top \<leftarrow> aget (heap pq) 1;
             last \<leftarrow> aget (heap pq) (h_size pq);
             h1 \<leftarrow> aset (heap pq) 1 last;
             sz \<leftarrow> add32 (h_size pq) (- 1);
             h2 \<leftarrow> (if sz > 0 then heapifyDown h1 sz 1 else Some h1);
             Some (top, pq\<lparr>heap := h2, h_size := sz\<rparr>) })"

definition MinHeap_empty :: "MinHeap \<Rightarrow> bool" where
  "MinHeap_empty pq = (h_size pq = 0)"

section \<open>AVL tree\<close>

text \<open>
  A pointer to a node is \<open>Null\<close> or a node with the fields \<^verbatim>\<open>key\<close>, \<^verbatim>\<open>height\<close>,
  \<^verbatim>\<open>left\<close>, \<^verbatim>\<open>right\<close>.  Every node has one owner, so the updates in place are
  written as rebuilt nodes.  Dereferencing \<open>Null\<close> is \<open>None\<close>.
\<close>

datatype avl = Null | Node int int avl avl

fun key_of :: "avl \<Rightarrow> int option" where
  "key_of Null = None"
| "key_of (Node k h l r) = Some k"

fun height :: "avl \<Rightarrow> int" where
  "height Null = 0"
| "height (Node k h l r) = h"

fun getBalance :: "avl \<Rightarrow> int" where
  "getBalance Null = 0"
| "getBalance (Node k h l r) = height l - height r"

fun rightRotate :: "avl \<Rightarrow> avl option" where
  "rightRotate (Node yk yh (Node xk xh xl T2) yr) =
     (let y = Node yk (1 + max (height T2) (height yr)) T2 yr
      in Some (Node xk (1 + max (height xl) (height y)) xl y))"
| "rightRotate (Node yk yh Null yr) = None"
| "rightRotate Null = None"

fun leftRotate :: "avl \<Rightarrow> avl option" where
  "leftRotate (Node xk xh xl (Node yk yh T2 yr)) =
     (let x = Node xk (1 + max (height xl) (height T2)) xl T2
      in Some (Node yk (1 + max (height x) (height yr)) x yr))"
| "leftRotate (Node xk xh xl Null) = None"
| "leftRotate Null = None"

text \<open>Lines 393 to 416 of \<^verbatim>\<open>insert\<close>: the new height of \<^verbatim>\<open>node\<close> and the four cases.\<close>

fun insert_rebalance :: "avl \<Rightarrow> int \<Rightarrow> avl option" where
  "insert_rebalance Null key = None"
| "insert_rebalance (Node k h l r) key =
     (let node = Node k (1 + max (height l) (height r)) l r;
          balance = getBalance node
      in do {
        ll \<leftarrow> (if balance > 1 then do { lk \<leftarrow> key_of l; Some (key < lk) } else Some False);
        if ll then rightRotate node
        else do {
          rr \<leftarrow> (if balance < - 1 then do { rk \<leftarrow> key_of r; Some (key > rk) } else Some False);
          if rr then leftRotate node
          else do {
            lr \<leftarrow> (if balance > 1 then do { lk \<leftarrow> key_of l; Some (key > lk) } else Some False);
            if lr then
              do { l' \<leftarrow> leftRotate l;
                   rightRotate (Node k (1 + max (height l) (height r)) l' r) }
            else do {
              rl \<leftarrow> (if balance < - 1 then do { rk \<leftarrow> key_of r; Some (key < rk) } else Some False);
              if rl then
                do { r' \<leftarrow> rightRotate r;
                     leftRotate (Node k (1 + max (height l) (height r)) l r') }
              else Some node } } } })"

fun insert_avl :: "avl \<Rightarrow> int \<Rightarrow> avl option" where
  "insert_avl Null key = Some (Node key 1 Null Null)"
| "insert_avl (Node k h l r) key =
     (if key < k then
        do { l' \<leftarrow> insert_avl l key; insert_rebalance (Node k h l' r) key }
      else if key > k then
        do { r' \<leftarrow> insert_avl r key; insert_rebalance (Node k h l r') key }
      else Some (Node k h l r))"

fun minValueNode :: "avl \<Rightarrow> avl option" where
  "minValueNode Null = None"
| "minValueNode (Node k h l r) = (if l \<noteq> Null then minValueNode l else Some (Node k h l r))"

text \<open>Lines 457 to 483 of \<^verbatim>\<open>remove\<close>.\<close>

fun remove_rebalance :: "avl \<Rightarrow> avl option" where
  "remove_rebalance Null = Some Null"
| "remove_rebalance (Node k h l r) =
     (let root = Node k (1 + max (height l) (height r)) l r;
          balance = getBalance root
      in if balance > 1 \<and> getBalance l \<ge> 0 then rightRotate root
         else if balance > 1 \<and> getBalance l < 0 then
           do { l' \<leftarrow> leftRotate l;
                rightRotate (Node k (1 + max (height l) (height r)) l' r) }
         else if balance < - 1 \<and> getBalance r \<le> 0 then leftRotate root
         else if balance < - 1 \<and> getBalance r > 0 then
           do { r' \<leftarrow> rightRotate r;
                leftRotate (Node k (1 + max (height l) (height r)) l r') }
         else Some root)"

fun remove_avl :: "avl \<Rightarrow> int \<Rightarrow> avl option" where
  "remove_avl Null key = Some Null"
| "remove_avl (Node k h l r) key =
     do { root \<leftarrow>
            (if key < k then do { l' \<leftarrow> remove_avl l key; Some (Node k h l' r) }
             else if key > k then do { r' \<leftarrow> remove_avl r key; Some (Node k h l r') }
             else if l = Null \<or> r = Null then
               (let temp = (if l \<noteq> Null then l else r)
                in if temp = Null then Some Null else Some temp)
             else
               do { temp \<leftarrow> minValueNode r;
                    tk \<leftarrow> key_of temp;
                    r' \<leftarrow> remove_avl r tk;
                    Some (Node tk h l r') });
          remove_rebalance root }"

text \<open>\<^verbatim>\<open>inorder\<close>: the keys in the order in which they are passed to \<^verbatim>\<open>print\<close>.\<close>

fun inorder :: "avl \<Rightarrow> int list" where
  "inorder Null = []"
| "inorder (Node k h l r) = inorder l @ [k] @ inorder r"

text \<open>The public methods on the root pointer, and a run of them from the empty tree.\<close>

datatype avl_op = Insert int | Remove int

fun apply_op :: "avl \<Rightarrow> avl_op \<Rightarrow> avl option" where
  "apply_op root (Insert key) = insert_avl root key"
| "apply_op root (Remove key) = remove_avl root key"

fun run_ops :: "avl \<Rightarrow> avl_op list \<Rightarrow> avl option" where
  "run_ops root [] = Some root"
| "run_ops root (op # ops) = do { root' \<leftarrow> apply_op root op; run_ops root' ops }"

subsection \<open>The invariants of the tree\<close>

text \<open>
  \<open>keys\<close> are the keys present; \<open>bst\<close> is the search-tree order; \<open>avl_ok\<close> says that at
  every node the stored heights of the children differ by at most one and the stored height
  is one more than the larger of them (\<open>height Null = 0\<close>, so a leaf has height 1).
  \<open>present S ops\<close> is the set of keys after the calls \<open>ops\<close>, starting from the set \<open>S\<close>.
\<close>

fun keys :: "avl \<Rightarrow> int set" where
  "keys Null = {}"
| "keys (Node k h l r) = insert k (keys l \<union> keys r)"

fun bst :: "avl \<Rightarrow> bool" where
  "bst Null = True"
| "bst (Node k h l r) = (bst l \<and> bst r \<and> (\<forall>x \<in> keys l. x < k) \<and> (\<forall>x \<in> keys r. k < x))"

fun avl_ok :: "avl \<Rightarrow> bool" where
  "avl_ok Null = True"
| "avl_ok (Node k h l r) =
     (avl_ok l \<and> avl_ok r \<and> \<bar>height l - height r\<bar> \<le> 1 \<and> h = 1 + max (height l) (height r))"

fun present :: "int set \<Rightarrow> avl_op list \<Rightarrow> int set" where
  "present S [] = S"
| "present S (Insert k # ops) = present (insert k S) ops"
| "present S (Remove k # ops) = present (S - {k}) ops"

section \<open>Graph (adjacency matrix)\<close>

text \<open>The field \<^verbatim>\<open>n\<close> of the class is \<open>g_n\<close> here.\<close>

record Graph =
  g_n :: int
  adjMatrix :: "int list list"
  isDirected :: bool

definition mat_get :: "int list list \<Rightarrow> int \<Rightarrow> int \<Rightarrow> int option" where
  "mat_get m i j = do { row \<leftarrow> aget m i; aget row j }"

definition mat_put :: "int list list \<Rightarrow> int \<Rightarrow> int \<Rightarrow> int \<Rightarrow> int list list option" where
  "mat_put m i j w = do { row \<leftarrow> aget m i; row' \<leftarrow> aset row j w; aset m i row' }"

text \<open>The constructor: \<^verbatim>\<open>n\<close> rows of \<^verbatim>\<open>n\<close> zeros.\<close>

definition Graph_new :: "int \<Rightarrow> bool \<Rightarrow> Graph option" where
  "Graph_new vertices directed =
     do { row \<leftarrow> new_array vertices (0::int);
          m \<leftarrow> new_array vertices row;
          Some \<lparr>g_n = vertices, adjMatrix = m, isDirected = directed\<rparr> }"

definition addEdge :: "Graph \<Rightarrow> int \<Rightarrow> int \<Rightarrow> int \<Rightarrow> Graph option" where
  "addEdge g u v w =
     (if u \<ge> 0 \<and> u < g_n g \<and> v \<ge> 0 \<and> v < g_n g then
        do { m1 \<leftarrow> mat_put (adjMatrix g) u v w;
             m2 \<leftarrow> (if \<not> isDirected g \<and> u \<noteq> v then mat_put m1 v u w else Some m1);
             Some (g\<lparr>adjMatrix := m2\<rparr>) }
      else Some g)"

definition removeEdge :: "Graph \<Rightarrow> int \<Rightarrow> int \<Rightarrow> Graph option" where
  "removeEdge g u v =
     (if u \<ge> 0 \<and> u < g_n g \<and> v \<ge> 0 \<and> v < g_n g then
        do { m1 \<leftarrow> mat_put (adjMatrix g) u v 0;
             m2 \<leftarrow> (if \<not> isDirected g then mat_put m1 v u 0 else Some m1);
             Some (g\<lparr>adjMatrix := m2\<rparr>) }
      else Some g)"

text \<open>\<^verbatim>\<open>setDirected\<close>: the body of the inner loop, the inner loop, the method.\<close>

definition setDirected_cell :: "int \<Rightarrow> int \<Rightarrow> int list list \<Rightarrow> int list list option" where
  "setDirected_cell i j m =
     do { a \<leftarrow> mat_get m i j;
          b \<leftarrow> mat_get m j i;
          if a \<noteq> 0 \<or> b \<noteq> 0 then
            do { let weight = (if a \<noteq> 0 then a else b);
                 m1 \<leftarrow> mat_put m i j weight;
                 mat_put m1 j i weight }
          else Some m }"

definition setDirected :: "Graph \<Rightarrow> bool \<Rightarrow> Graph option" where
  "setDirected g directed =
     (let g1 = g\<lparr>isDirected := directed\<rparr> in
      if \<not> directed then
        do { m \<leftarrow> for_up 0 (g_n g1)
                   (\<lambda>i. for_up (i + 1) (g_n g1) (setDirected_cell i)) (adjMatrix g1);
             Some (g1\<lparr>adjMatrix := m\<rparr>) }
      else Some g1)"

definition getIsDirected :: "Graph \<Rightarrow> bool" where
  "getIsDirected g = isDirected g"

definition getVertexCount :: "Graph \<Rightarrow> int" where
  "getVertexCount g = g_n g"

definition clear_graph :: "Graph \<Rightarrow> Graph option" where
  "clear_graph g =
     do { m \<leftarrow> for_up 0 (g_n g) (\<lambda>i. for_up 0 (g_n g) (\<lambda>j m. mat_put m i j 0)) (adjMatrix g);
          Some (g\<lparr>adjMatrix := m\<rparr>) }"

subsection \<open>removeVertex: objects in a store\<close>

text \<open>
  \<^verbatim>\<open>removeVertex\<close> returns a pointer, either \<^verbatim>\<open>this\<close> or a fresh object, and fills the
  fresh object through \<^verbatim>\<open>addEdge\<close> while it reads the receiver.  The objects live in a
  store (a list of graphs); a pointer is an index into it, and \<^verbatim>\<open>new Graph\<close> appends.
\<close>

type_synonym store = "Graph list"

definition deref :: "store \<Rightarrow> nat \<Rightarrow> Graph option" where
  "deref st p = (if p < length st then Some (st ! p) else None)"

definition store_put :: "store \<Rightarrow> nat \<Rightarrow> Graph \<Rightarrow> store option" where
  "store_put st p g = (if p < length st then Some (st[p := g]) else None)"

definition removeVertex_cell ::
    "nat \<Rightarrow> nat \<Rightarrow> int \<Rightarrow> int \<Rightarrow> int \<Rightarrow> int \<Rightarrow> store \<times> int \<Rightarrow> (store \<times> int) option" where
  "removeVertex_cell this newGraph vertex i newI j = (\<lambda>(st, newJ).
     if j = vertex then Some (st, newJ)
     else
       do { g \<leftarrow> deref st this;
            w \<leftarrow> mat_get (adjMatrix g) i j;
            st' \<leftarrow> (if w \<noteq> 0 then
                       do { ng \<leftarrow> deref st newGraph;
                            ng' \<leftarrow> addEdge ng newI newJ w;
                            store_put st newGraph ng' }
                     else Some st);
            Some (st', newJ + 1) })"

definition removeVertex_row ::
    "nat \<Rightarrow> nat \<Rightarrow> int \<Rightarrow> int \<Rightarrow> store \<times> int \<Rightarrow> (store \<times> int) option" where
  "removeVertex_row this newGraph vertex i = (\<lambda>(st, newI).
     if i = vertex then Some (st, newI)
     else
       do { g \<leftarrow> deref st this;
            (st', newJ) \<leftarrow> for_up 0 (g_n g) (removeVertex_cell this newGraph vertex i newI) (st, 0);
            Some (st', newI + 1) })"

definition removeVertex :: "store \<Rightarrow> nat \<Rightarrow> int \<Rightarrow> (store \<times> nat) option" where
  "removeVertex st this vertex =
     do { g \<leftarrow> deref st this;
          if vertex < 0 \<or> vertex \<ge> g_n g then Some (st, this)
          else
            do { ng \<leftarrow> Graph_new (g_n g - 1) (isDirected g);
                 let newGraph = length st;
                 let st1 = st @ [ng];
                 (st2, newI) \<leftarrow> for_up 0 (g_n g) (removeVertex_row this newGraph vertex) (st1, 0);
                 Some (st2, newGraph) } }"

section \<open>Breadth-first search\<close>

definition unvisited :: "bool list \<Rightarrow> nat" where
  "unvisited visited = length (filter Not visited)"

definition bfs_neighbor :: "Graph \<Rightarrow> int \<Rightarrow> int \<Rightarrow> bool list \<times> Queue \<Rightarrow> (bool list \<times> Queue) option" where
  "bfs_neighbor g node neighbor = (\<lambda>(visited, q).
     do { w \<leftarrow> mat_get (adjMatrix g) node neighbor;
          if w \<noteq> 0 then
            do { vis \<leftarrow> aget visited neighbor;
                 if \<not> vis then
                   do { visited1 \<leftarrow> aset visited neighbor True;
                        Some (visited1, enqueue q neighbor) }
                 else Some (visited, q) }
          else Some (visited, q) })"

lemma unvisited_mark:
  "i < length visited \<Longrightarrow> \<not> visited ! i \<Longrightarrow> unvisited (visited[i := True]) < unvisited visited"
  unfolding unvisited_def
proof (induction visited arbitrary: i)
  case Nil
  then show ?case by simp
next
  case (Cons a visited)
  then show ?case by (cases i) auto
qed

lemma unvisited_mark_Suc:
  "i < length visited \<Longrightarrow> \<not> visited ! i \<Longrightarrow> Suc (unvisited (visited[i := True])) = unvisited visited"
  unfolding unvisited_def
proof (induction visited arbitrary: i)
  case Nil
  then show ?case by simp
next
  case (Cons a visited)
  then show ?case by (cases i) auto
qed

lemma bfs_neighbor_measure:
  assumes "bfs_neighbor g node nb (visited, q) = Some (visited', q')"
  shows "2 * unvisited visited' + length q' \<le> 2 * unvisited visited + length q"
  using assms unvisited_mark_Suc[of "nat nb" visited]
  by (fastforce simp: bfs_neighbor_def aget_def aset_def enqueue_def split: if_splits bind_splits)

lemma bfs_inner_measure:
  assumes "for_up i n (bfs_neighbor g node) (visited, q) = Some (visited', q')"
  shows "2 * unvisited visited' + length q' \<le> 2 * unvisited visited + length q"
proof -
  let ?P = "\<lambda>t. 2 * unvisited (fst t) + length (snd t) \<le> 2 * unvisited visited + length q"
  have "?P (visited', q')"
  proof (rule for_up_partial[OF assms, where P = ?P])
    show "?P (visited, q)" by simp
    fix j t t' assume "?P t" "bfs_neighbor g node j t = Some t'"
    then show "?P t'" using bfs_neighbor_measure[of g node j "fst t" "snd t" "fst t'" "snd t'"]
      by simp
  qed
  then show ?thesis by simp
qed

function bfs_loop :: "Graph \<Rightarrow> bool list \<Rightarrow> Queue \<Rightarrow> string \<Rightarrow> bool \<Rightarrow> string option" where
  "bfs_loop g visited q result first =
     (if \<not> Queue_empty q then
        do { let node = Front q;
             let q1 = dequeue q;
             let result1 = (if \<not> first then result @ '','' else result);
             s \<leftarrow> intToString node;
             (visited', q') \<leftarrow> for_up 0 (g_n g) (bfs_neighbor g node) (visited, q1);
             bfs_loop g visited' q' (result1 @ s) False }
      else Some result)"
  by pat_completeness auto
termination
proof (relation "measure (\<lambda>(g, visited, q, result, first). 2 * unvisited visited + length q)", goal_cases)
  case 1
  show ?case by simp
next
  case (2 g visited q result first x xa xb a aa xc y)
  have "for_up 0 (g_n g) (bfs_neighbor g x) (visited, xa) = Some (xc, y)"
    using "2"(6,7) by simp
  from bfs_inner_measure[OF this]
  have "2 * unvisited xc + length y \<le> 2 * unvisited visited + length xa" .
  moreover have "length xa < length q"
    using "2"(1,3) by (cases q) (auto simp: Queue_empty_def dequeue_def)
  ultimately show ?case by simp
qed

declare bfs_loop.simps [simp del]

definition bfs :: "Graph \<Rightarrow> int \<Rightarrow> string option" where
  "bfs g start =
     (if start < 0 \<or> start \<ge> g_n g then Some ''[]''
      else
        do { visited \<leftarrow> new_array (g_n g) False;
             visited1 \<leftarrow> aset visited start True;
             result \<leftarrow> bfs_loop g visited1 (enqueue [] start) ''['' True;
             Some (result @ '']'') })"

section \<open>Depth-first search\<close>

definition dfs_neighbor :: "Graph \<Rightarrow> bool list \<Rightarrow> int \<Rightarrow> int \<Rightarrow> Stack \<Rightarrow> Stack option" where
  "dfs_neighbor g visited node neighbor s =
     do { w \<leftarrow> mat_get (adjMatrix g) node neighbor;
          if w \<noteq> 0 then
            do { vis \<leftarrow> aget visited neighbor;
                 if \<not> vis then Some (Stack_push s neighbor) else Some s }
          else Some s }"

function dfs_loop :: "Graph \<Rightarrow> bool list \<Rightarrow> Stack \<Rightarrow> string \<Rightarrow> bool \<Rightarrow> string option" where
  "dfs_loop g visited s result first =
     (if \<not> Stack_empty s then
        do { let node = Top s;
             let s1 = Stack_pop s;
             vis \<leftarrow> aget visited node;
             if \<not> vis then
               do { visited1 \<leftarrow> aset visited node True;
                    let result1 = (if \<not> first then result @ '','' else result);
                    str \<leftarrow> intToString node;
                    s2 \<leftarrow> for_down (g_n g - 1) (dfs_neighbor g visited1 node) s1;
                    dfs_loop g visited1 s2 (result1 @ str) False }
             else dfs_loop g visited s1 result first }
      else Some result)"
  by pat_completeness auto
termination
proof (relation "measures [\<lambda>(g, visited, s, result, first). unvisited visited,
                           \<lambda>(g, visited, s, result, first). length s]", goal_cases)
  case 1
  show ?case by simp
next
  case (2 g visited s result first node s1 vis visited1 result1 str s2)
  then show ?case
    using unvisited_mark[of "nat node" visited]
    by (auto simp: aget_def aset_def split: if_splits)
next
  case (3 g visited s result first node s1 vis)
  then show ?case by (cases s) (auto simp: Stack_empty_def Stack_pop_def)
qed

declare dfs_loop.simps [simp del]

definition dfs :: "Graph \<Rightarrow> int \<Rightarrow> string option" where
  "dfs g start =
     (if start < 0 \<or> start \<ge> g_n g then Some ''[]''
      else
        do { visited \<leftarrow> new_array (g_n g) False;
             result \<leftarrow> dfs_loop g visited (Stack_push [] start) ''['' True;
             Some (result @ '']'') })"

section \<open>Dijkstra\<close>

lemma MinHeap_pop_size:
  assumes "MinHeap_pop pq = Some (tp, pq1)" "h_size pq \<noteq> 0"
  shows "0 < h_size pq \<and> h_size pq1 = h_size pq - 1"
  using assms
  by (auto simp: MinHeap_pop_def aget_def add32_def split: if_splits bind_splits)

definition dijkstra_relax ::
    "Graph \<Rightarrow> bool list \<Rightarrow> int \<Rightarrow> int \<Rightarrow> int list \<times> MinHeap \<Rightarrow> (int list \<times> MinHeap) option" where
  "dijkstra_relax g visited u v = (\<lambda>(dist, pq).
     do { w \<leftarrow> mat_get (adjMatrix g) u v;
          if w \<noteq> 0 then
            do { vis \<leftarrow> aget visited v;
                 if \<not> vis then
                   do { weight \<leftarrow> mat_get (adjMatrix g) u v;
                        du \<leftarrow> aget dist u;
                        sum \<leftarrow> add32 du weight;
                        dv \<leftarrow> aget dist v;
                        if sum < dv then
                          do { dist1 \<leftarrow> aset dist v sum;
                               dv1 \<leftarrow> aget dist1 v;
                               pq1 \<leftarrow> MinHeap_push pq v dv1;
                               Some (dist1, pq1) }
                        else Some (dist, pq) }
                 else Some (dist, pq) }
          else Some (dist, pq) })"

function dijkstra_loop :: "Graph \<Rightarrow> int list \<Rightarrow> bool list \<Rightarrow> MinHeap \<Rightarrow> int list option" where
  "dijkstra_loop g dist visited pq =
     (if \<not> MinHeap_empty pq then
        do { (current, pq1) \<leftarrow> MinHeap_pop pq;
             let u = pq_vertex current;
             vis \<leftarrow> aget visited u;
             if vis then dijkstra_loop g dist visited pq1
             else
               do { visited1 \<leftarrow> aset visited u True;
                    (dist', pq') \<leftarrow> for_up 0 (g_n g) (dijkstra_relax g visited1 u) (dist, pq1);
                    dijkstra_loop g dist' visited1 pq' } }
      else Some dist)"
  by pat_completeness auto
termination
proof (relation "measures [\<lambda>(g, dist, visited, pq). unvisited visited,
                           \<lambda>(g, dist, visited, pq). nat (h_size pq)]", goal_cases)
  case 1
  show ?case by simp
next
  case (2 g dist visited pq x current pq1 u vis)
  then show ?case
    using MinHeap_pop_size[of pq current pq1] by (auto simp: MinHeap_empty_def)
next
  case (3 g dist visited pq x current pq1 u vis visited1 y dist' pq')
  then show ?case
    using unvisited_mark[of "nat u" visited]
    by (auto simp: aget_def aset_def split: if_splits)
qed

declare dijkstra_loop.simps [simp del]

definition dijkstra_render :: "int \<Rightarrow> int list \<Rightarrow> int \<Rightarrow> string \<Rightarrow> string option" where
  "dijkstra_render n dist i result =
     do { d \<leftarrow> aget dist i;
          s \<leftarrow> intToString d;
          Some (if i < n - 1 then result @ s @ '','' else result @ s) }"

definition dijkstra :: "Graph \<Rightarrow> int \<Rightarrow> string option" where
  "dijkstra g start =
     (if start < 0 \<or> start \<ge> g_n g then Some ''[]''
      else
        do { dist0 \<leftarrow> new_array (g_n g) 999999;
             visited \<leftarrow> new_array (g_n g) False;
             dist1 \<leftarrow> aset dist0 start 0;
             cap \<leftarrow> mul32 (g_n g) (g_n g);
             pq0 \<leftarrow> MinHeap_new cap;
             pq \<leftarrow> MinHeap_push pq0 start 0;
             dist \<leftarrow> dijkstra_loop g dist1 visited pq;
             result \<leftarrow> for_up 0 (g_n g) (dijkstra_render (g_n g) dist) ''['';
             Some (result @ '']'') })"

section \<open>Prim\<close>

definition prim_relax ::
    "Graph \<Rightarrow> bool list \<Rightarrow> int \<Rightarrow> int \<Rightarrow> int list \<times> int list \<times> MinHeap \<Rightarrow>
     (int list \<times> int list \<times> MinHeap) option" where
  "prim_relax g inMST u v = (\<lambda>(key, parent, pq).
     do { w \<leftarrow> mat_get (adjMatrix g) u v;
          if w \<noteq> 0 then
            do { inm \<leftarrow> aget inMST v;
                 if \<not> inm then
                   do { w1 \<leftarrow> mat_get (adjMatrix g) u v;
                        kv \<leftarrow> aget key v;
                        if w1 < kv then
                          do { w2 \<leftarrow> mat_get (adjMatrix g) u v;
                               key1 \<leftarrow> aset key v w2;
                               parent1 \<leftarrow> aset parent v u;
                               kv1 \<leftarrow> aget key1 v;
                               pq1 \<leftarrow> MinHeap_push pq v kv1;
                               Some (key1, parent1, pq1) }
                        else Some (key, parent, pq) }
                 else Some (key, parent, pq) }
          else Some (key, parent, pq) })"

definition prim_emit :: "Graph \<Rightarrow> int list \<Rightarrow> int \<Rightarrow> string \<times> bool \<Rightarrow> (string \<times> bool) option" where
  "prim_emit g parent u = (\<lambda>(result, first).
     do { p \<leftarrow> aget parent u;
          if p \<noteq> - 1 then
            do { let result1 = (if \<not> first then result @ '','' else result);
                 sp \<leftarrow> intToString p;
                 su \<leftarrow> intToString u;
                 w \<leftarrow> mat_get (adjMatrix g) p u;
                 sw \<leftarrow> intToString w;
                 Some (result1 @ (sp @ ''-'' @ su @ '':'' @ sw), False) }
          else Some (result, first) })"

function prim_loop ::
    "Graph \<Rightarrow> int list \<Rightarrow> int list \<Rightarrow> bool list \<Rightarrow> MinHeap \<Rightarrow> string \<Rightarrow> bool \<Rightarrow> string option" where
  "prim_loop g key parent inMST pq result first =
     (if \<not> MinHeap_empty pq then
        do { (current, pq1) \<leftarrow> MinHeap_pop pq;
             let u = pq_vertex current;
             inm \<leftarrow> aget inMST u;
             if inm then prim_loop g key parent inMST pq1 result first
             else
               do { inMST1 \<leftarrow> aset inMST u True;
                    (result1, first1) \<leftarrow> prim_emit g parent u (result, first);
                    (key', parent', pq') \<leftarrow> for_up 0 (g_n g) (prim_relax g inMST1 u) (key, parent, pq1);
                    prim_loop g key' parent' inMST1 pq' result1 first1 } }
      else Some result)"
  by pat_completeness auto
termination
proof (relation "measures [\<lambda>(g, key, parent, inMST, pq, result, first). unvisited inMST,
                           \<lambda>(g, key, parent, inMST, pq, result, first). nat (h_size pq)]", goal_cases)
  case 1
  show ?case by simp
next
  case (2 g key parent inMST pq result first x current pq1 u inm)
  then show ?case
    using MinHeap_pop_size[of pq current pq1] by (auto simp: MinHeap_empty_def)
next
  case (3 g key parent inMST pq result first x current pq1 u inm inMST1)
  then show ?case
    using unvisited_mark[of "nat u" inMST]
    by (auto simp: aget_def aset_def split: if_splits)
qed

declare prim_loop.simps [simp del]

definition primMST :: "Graph \<Rightarrow> string option" where
  "primMST g =
     (if isDirected g then Some ''[]''
      else
        do { key0 \<leftarrow> new_array (g_n g) 999999;
             parent \<leftarrow> new_array (g_n g) (- 1);
             inMST \<leftarrow> new_array (g_n g) False;
             key1 \<leftarrow> aset key0 0 0;
             cap \<leftarrow> mul32 (g_n g) (g_n g);
             pq0 \<leftarrow> MinHeap_new cap;
             pq \<leftarrow> MinHeap_push pq0 0 0;
             result \<leftarrow> prim_loop g key1 parent inMST pq ''['' True;
             Some (result @ '']'') })"

section \<open>Well-formed graphs\<close>

text \<open>
  The matrix of a graph is square of side \<open>g_n\<close>, and the matrix of an undirected graph
  is symmetric: the constructor establishes both and every mutator keeps them.
\<close>

definition mcell :: "int list list \<Rightarrow> int \<Rightarrow> int \<Rightarrow> int" where
  "mcell m i j = m ! nat i ! nat j"

definition square :: "int \<Rightarrow> int list list \<Rightarrow> bool" where
  "square k m = (0 \<le> k \<and> int (length m) = k \<and> list_all (\<lambda>row. int (length row) = k) m)"

definition symmetric :: "int list list \<Rightarrow> bool" where
  "symmetric m = list_all (\<lambda>i. list_all (\<lambda>j. m ! i ! j = m ! j ! i) [0..<length m]) [0..<length m]"

definition wf_graph :: "Graph \<Rightarrow> bool" where
  "wf_graph g = (square (g_n g) (adjMatrix g) \<and> (isDirected g \<or> symmetric (adjMatrix g)))"

text \<open>A directed graph on three vertices, for the concrete instances below.\<close>

definition example_digraph :: Graph where
  "example_digraph = \<lparr>g_n = 3, adjMatrix = [[0, 5, 0], [2, 0, 7], [0, 0, 1]], isDirected = True\<rparr>"

definition spec_graph :: Graph where
  "spec_graph = \<lparr>g_n = 4, adjMatrix = [[0,1,0,5],[1,0,2,0],[0,2,0,1],[5,0,1,0]], isDirected = False\<rparr>"

section \<open>The textual form of results\<close>

text \<open>
  Results cross the boundary as text: an integer in decimal, a sequence as
  \<^verbatim>\<open>[v1,v2,...,vn]\<close>.  \<open>seq_text\<close> is that form of a sequence of integers; the claims
  about the sequences the queries return are stated through it.
\<close>

definition decimal :: "int \<Rightarrow> string" where
  "decimal x =
     (if x = 0 then ''0'' else if x < 0 then ''-'' @ digits_loop (- x) [] else digits_loop x [])"

fun join_commas :: "string list \<Rightarrow> string" where
  "join_commas [] = []"
| "join_commas [x] = x"
| "join_commas (x # y # ys) = x @ '','' @ join_commas (y # ys)"

definition seq_text :: "int list \<Rightarrow> string" where
  "seq_text xs = ''['' @ join_commas (map decimal xs) @ '']''"

lemma intToString_decimal: "INT_MIN < x \<Longrightarrow> intToString x = Some (decimal x)"
  by (simp add: intToString_def decimal_def neg32_def INT_MIN_def INT_MAX_def)

section \<open>Edges and reachability\<close>

text \<open>
  There is an edge from \<open>u\<close> to \<open>v\<close> when both are vertices and the cell
  \<open>weight[u][v]\<close> is not zero; \<open>reachable g s\<close> are the vertices to which a directed
  path of such edges leads from \<open>s\<close> (the empty path included).
\<close>

definition edge :: "Graph \<Rightarrow> int \<Rightarrow> int \<Rightarrow> bool" where
  "edge g u v =
     (0 \<le> u \<and> u < g_n g \<and> 0 \<le> v \<and> v < g_n g \<and> mcell (adjMatrix g) u v \<noteq> 0)"

definition reachable :: "Graph \<Rightarrow> int \<Rightarrow> int set" where
  "reachable g s = {v. (edge g)\<^sup>*\<^sup>* s v}"

section \<open>Paths and their weights\<close>

text \<open>
  \<open>walk g s v c\<close>: some path of edges leads from the vertex \<open>s\<close> to \<open>v\<close> and the weights
  of its edges add up to \<open>c\<close> (the empty path from \<open>s\<close> to \<open>s\<close> has weight 0).
  \<open>weights_in g lo hi\<close>: every cell of the matrix lies between \<open>lo\<close> and \<open>hi\<close>.
\<close>

inductive walk :: "Graph \<Rightarrow> int \<Rightarrow> int \<Rightarrow> int \<Rightarrow> bool" for g s where
  walk_start: "0 \<le> s \<Longrightarrow> s < g_n g \<Longrightarrow> walk g s s 0"
| walk_edge: "walk g s u c \<Longrightarrow> edge g u v \<Longrightarrow> walk g s v (c + mcell (adjMatrix g) u v)"

definition weights_in :: "Graph \<Rightarrow> int \<Rightarrow> int \<Rightarrow> bool" where
  "weights_in g lo hi = list_all (list_all (\<lambda>x. lo \<le> x \<and> x \<le> hi)) (adjMatrix g)"

text \<open>Two vertices joined by an edge of weight 1000000, above the sentinel 999999.\<close>

definition far_graph :: Graph where
  "far_graph = \<lparr>g_n = 2, adjMatrix = [[0, 1000000], [1000000, 0]], isDirected = False\<rparr>"

lemma aget_Some: "0 \<le> i \<Longrightarrow> i < int (length xs) \<Longrightarrow> aget xs i = Some (xs ! nat i)"
  by (simp add: aget_def)

lemma aset_Some: "0 \<le> i \<Longrightarrow> i < int (length xs) \<Longrightarrow> aset xs i v = Some (xs[nat i := v])"
  by (simp add: aset_def)

lemma square_row: "square k m \<Longrightarrow> 0 \<le> i \<Longrightarrow> i < k \<Longrightarrow> int (length (m ! nat i)) = k"
  by (auto simp: square_def list_all_length)

lemma mat_get_Some:
  "square k m \<Longrightarrow> 0 \<le> i \<Longrightarrow> i < k \<Longrightarrow> 0 \<le> j \<Longrightarrow> j < k \<Longrightarrow> mat_get m i j = Some (mcell m i j)"
proof -
  assume a: "square k m" "0 \<le> i" "i < k" "0 \<le> j" "j < k"
  have len: "int (length m) = k" using a by (simp add: square_def)
  have row: "int (length (m ! nat i)) = k" using a by (simp add: square_row)
  show ?thesis using a len row by (simp add: mat_get_def mcell_def aget_Some)
qed

lemma mat_put_Some:
  assumes "square k m" "0 \<le> i" "i < k" "0 \<le> j" "j < k"
  shows "\<exists>m'. mat_put m i j w = Some m' \<and> square k m' \<and>
           (\<forall>p q. 0 \<le> p \<longrightarrow> p < k \<longrightarrow> 0 \<le> q \<longrightarrow> q < k \<longrightarrow>
              mcell m' p q = (if p = i \<and> q = j then w else mcell m p q))"
proof -
  let ?m' = "m[nat i := (m ! nat i)[nat j := w]]"
  have len: "int (length m) = k" using assms by (simp add: square_def)
  have row: "int (length (m ! nat i)) = k" using assms by (simp add: square_row)
  have 1: "mat_put m i j w = Some ?m'"
    using assms len row by (simp add: mat_put_def aget_Some aset_Some)
  have 2: "square k ?m'"
    using assms len row
    by (auto simp: square_def list_all_length nth_list_update)
  have 3: "mcell ?m' p q = (if p = i \<and> q = j then w else mcell m p q)"
    if "0 \<le> p" "p < k" "0 \<le> q" "q < k" for p q
    using that assms len row
    by (auto simp: mcell_def nth_list_update nat_eq_iff)
  show ?thesis using 1 2 3 by blast
qed

definition drop_at :: "nat \<Rightarrow> 'a list \<Rightarrow> 'a list" where
  "drop_at k xs = take k xs @ drop (Suc k) xs"

definition del_row_col :: "nat \<Rightarrow> int list list \<Rightarrow> int list list" where
  "del_row_col v m = map (drop_at v) (drop_at v m)"

lemma length_drop_at: "k < length xs \<Longrightarrow> length (drop_at k xs) = length xs - 1"
  by (auto simp: drop_at_def)

lemma nth_drop_at:
  "k < length xs \<Longrightarrow> p < length xs - 1 \<Longrightarrow> drop_at k xs ! p = (if p < k then xs ! p else xs ! Suc p)"
  by (auto simp: drop_at_def nth_append min_def)

lemma symmetric_mcell:
  "symmetric m \<Longrightarrow> 0 \<le> i \<Longrightarrow> i < int (length m) \<Longrightarrow> 0 \<le> j \<Longrightarrow> j < int (length m) \<Longrightarrow>
   mcell m i j = mcell m j i"
  by (auto simp: symmetric_def list_all_length mcell_def)

lemma symmetricI:
  "(\<And>i j. 0 \<le> i \<Longrightarrow> i < int (length m) \<Longrightarrow> 0 \<le> j \<Longrightarrow> j < int (length m) \<Longrightarrow>
      mcell m i j = mcell m j i) \<Longrightarrow> symmetric m"
  unfolding symmetric_def list_all_length mcell_def
proof (intro allI impI)
  fix i j
  assume h: "\<And>i j. 0 \<le> i \<Longrightarrow> i < int (length m) \<Longrightarrow> 0 \<le> j \<Longrightarrow> j < int (length m) \<Longrightarrow>
      m ! nat i ! nat j = m ! nat j ! nat i"
    and "i < length [0..<length m]" "j < length [0..<length m]"
  then show "m ! ([0..<length m] ! i) ! ([0..<length m] ! j) = m ! ([0..<length m] ! j) ! ([0..<length m] ! i)"
    using h[of "int i" "int j"] by simp
qed

lemma new_array_Some: "0 \<le> k \<Longrightarrow> new_array k x = Some (replicate (nat k) x)"
  by (simp add: new_array_def)

lemma Graph_new_Some:
  "0 \<le> k \<Longrightarrow> Graph_new k d =
     Some \<lparr>g_n = k, adjMatrix = replicate (nat k) (replicate (nat k) 0), isDirected = d\<rparr>"
  by (simp add: Graph_new_def new_array_Some)

lemma square_replicate: "0 \<le> k \<Longrightarrow> square k (replicate (nat k) (replicate (nat k) x))"
  by (simp add: square_def list_all_length)

lemma mcell_replicate:
  "0 \<le> p \<Longrightarrow> p < k \<Longrightarrow> 0 \<le> q \<Longrightarrow> q < k \<Longrightarrow> mcell (replicate (nat k) (replicate (nat k) x)) p q = x"
  by (simp add: mcell_def)

lemma addEdge_Some:
  assumes "square k (adjMatrix g)" "g_n g = k" "0 \<le> u" "u < k" "0 \<le> v" "v < k"
  shows "\<exists>g'. addEdge g u v w = Some g' \<and> g_n g' = k \<and> isDirected g' = isDirected g \<and>
           square k (adjMatrix g') \<and>
           (\<forall>p q. 0 \<le> p \<longrightarrow> p < k \<longrightarrow> 0 \<le> q \<longrightarrow> q < k \<longrightarrow>
              mcell (adjMatrix g') p q =
                (if (p = u \<and> q = v) \<or> (\<not> isDirected g \<and> p = v \<and> q = u) then w
                 else mcell (adjMatrix g) p q))"
proof -
  from mat_put_Some[OF assms(1) assms(3-6), of w] obtain m1 where
    m1: "mat_put (adjMatrix g) u v w = Some m1" "square k m1"
      "\<And>p q. 0 \<le> p \<Longrightarrow> p < k \<Longrightarrow> 0 \<le> q \<Longrightarrow> q < k \<Longrightarrow>
              mcell m1 p q = (if p = u \<and> q = v then w else mcell (adjMatrix g) p q)"
    by blast
  show ?thesis
  proof (cases "\<not> isDirected g \<and> u \<noteq> v")
    case True
    from mat_put_Some[OF m1(2) assms(5,6) assms(3,4), of w] obtain m2 where
      m2: "mat_put m1 v u w = Some m2" "square k m2"
      "\<And>p q. 0 \<le> p \<Longrightarrow> p < k \<Longrightarrow> 0 \<le> q \<Longrightarrow> q < k \<Longrightarrow>
              mcell m2 p q = (if p = v \<and> q = u then w else mcell m1 p q)"
      by blast
    have "addEdge g u v w = Some (g\<lparr>adjMatrix := m2\<rparr>)"
      using True assms m1(1) m2(1) by (simp add: addEdge_def)
    moreover have "mcell m2 p q =
                (if (p = u \<and> q = v) \<or> (\<not> isDirected g \<and> p = v \<and> q = u) then w
                 else mcell (adjMatrix g) p q)"
      if "0 \<le> p" "p < k" "0 \<le> q" "q < k" for p q
      unfolding m2(3)[OF that] m1(3)[OF that] using True by simp
    ultimately show ?thesis using assms(2) m2(2) by simp
  next
    case False
    have "addEdge g u v w = Some (g\<lparr>adjMatrix := m1\<rparr>)"
      using False assms m1(1) by (auto simp add: addEdge_def)
    moreover have "mcell m1 p q =
                (if (p = u \<and> q = v) \<or> (\<not> isDirected g \<and> p = v \<and> q = u) then w
                 else mcell (adjMatrix g) p q)"
      if "0 \<le> p" "p < k" "0 \<le> q" "q < k" for p q
    proof -
      have "isDirected g \<or> u = v" using False by blast
      then show ?thesis unfolding m1(3)[OF that] by (elim disjE) simp_all
    qed
    ultimately show ?thesis using assms(2) m1(2) by simp
  qed
qed

definition rv_up :: "int \<Rightarrow> int \<Rightarrow> int" where
  "rv_up v p = (if p < v then p else p + 1)"

definition rv_new :: "int \<Rightarrow> int \<Rightarrow> int" where
  "rv_new v i = (if i \<le> v then i else i - 1)"

definition rv_inv :: "store \<Rightarrow> Graph \<Rightarrow> int \<Rightarrow> (int \<Rightarrow> int \<Rightarrow> bool) \<Rightarrow> store \<Rightarrow> bool" where
  "rv_inv st g v fin st' =
     (length st' = Suc (length st) \<and> take (length st) st' = st \<and>
      g_n (st' ! length st) = g_n g - 1 \<and>
      isDirected (st' ! length st) = isDirected g \<and>
      square (g_n g - 1) (adjMatrix (st' ! length st)) \<and>
      (\<forall>p q. 0 \<le> p \<longrightarrow> p < g_n g - 1 \<longrightarrow> 0 \<le> q \<longrightarrow> q < g_n g - 1 \<longrightarrow>
         (mcell (adjMatrix (st' ! length st)) p q = mcell (adjMatrix g) (rv_up v p) (rv_up v q) \<or>
          (\<not> fin p q \<and> mcell (adjMatrix (st' ! length st)) p q = 0))))"

lemma rv_up_new: "i \<noteq> v \<Longrightarrow> rv_up v (rv_new v i) = i"
  by (auto simp: rv_up_def rv_new_def)

lemma rv_new_range: "0 \<le> i \<Longrightarrow> i < k \<Longrightarrow> 0 \<le> v \<Longrightarrow> v < k \<Longrightarrow> i \<noteq> v \<Longrightarrow> 0 \<le> rv_new v i \<and> rv_new v i < k - 1"
  by (auto simp: rv_new_def)

lemma rv_new_Suc: "rv_new v (j + 1) = (if j = v then rv_new v j else rv_new v j + 1)"
  by (auto simp: rv_new_def)

lemma rv_inv_deref:
  "rv_inv st g v fin st' \<Longrightarrow> this < length st \<Longrightarrow> st ! this = g \<Longrightarrow> deref st' this = Some g"
  unfolding rv_inv_def deref_def
  by (metis less_Suc_eq nth_take)

lemma rv_cell_step:
  assumes wf: "wf_graph g" and rcv: "this < length st" "st ! this = g"
    and v: "0 \<le> v" "v < g_n g" and i: "0 \<le> i" "i < g_n g" "i \<noteq> v"
    and j: "0 \<le> j" "j < g_n g"
    and inv: "rv_inv st g v (\<lambda>p q. p < rv_new v i \<or> (p = rv_new v i \<and> q < rv_new v j)) st'"
  shows "\<exists>st''. removeVertex_cell this (length st) v i (rv_new v i) j (st', rv_new v j)
            = Some (st'', rv_new v (j + 1)) \<and>
          rv_inv st g v (\<lambda>p q. p < rv_new v i \<or> (p = rv_new v i \<and> q < rv_new v (j + 1))) st''"
proof (cases "j = v")
  case True
  then show ?thesis using inv by (simp add: removeVertex_cell_def rv_new_Suc)
next
  case False
  let ?k = "g_n g - 1"
  let ?ng = "st' ! length st"
  let ?nI = "rv_new v i" and ?nJ = "rv_new v j"
  have sq: "square (g_n g) (adjMatrix g)" using wf by (simp add: wf_graph_def)
  have d: "deref st' this = Some g" using rv_inv_deref[OF inv rcv] .
  have w: "mat_get (adjMatrix g) i j = Some (mcell (adjMatrix g) i j)"
    using mat_get_Some[OF sq i(1,2) j] .
  have rI: "0 \<le> ?nI" "?nI < ?k" using rv_new_range[OF i(1,2) v i(3)] by auto
  have rJ: "0 \<le> ?nJ" "?nJ < ?k" using rv_new_range[OF j v False] by auto
  have len: "length st' = Suc (length st)" and tk: "take (length st) st' = st"
    and ngn: "g_n ?ng = ?k" and ngd: "isDirected ?ng = isDirected g"
    and ngsq: "square ?k (adjMatrix ?ng)"
    and cells: "\<And>p q. 0 \<le> p \<Longrightarrow> p < ?k \<Longrightarrow> 0 \<le> q \<Longrightarrow> q < ?k \<Longrightarrow>
         (mcell (adjMatrix ?ng) p q = mcell (adjMatrix g) (rv_up v p) (rv_up v q) \<or>
          (\<not> (p < ?nI \<or> (p = ?nI \<and> q < ?nJ)) \<and> mcell (adjMatrix ?ng) p q = 0))"
    using inv unfolding rv_inv_def by auto
  have dn: "deref st' (length st) = Some ?ng" using len by (simp add: deref_def)
  have nJ': "rv_new v (j + 1) = ?nJ + 1" using False by (simp add: rv_new_Suc)
  show ?thesis
  proof (cases "mcell (adjMatrix g) i j = 0")
    case True
    have res: "removeVertex_cell this (length st) v i ?nI j (st', ?nJ) = Some (st', ?nJ + 1)"
      using False d w True by (simp add: removeVertex_cell_def)
    have "mcell (adjMatrix ?ng) p q = mcell (adjMatrix g) (rv_up v p) (rv_up v q) \<or>
          (\<not> (p < ?nI \<or> (p = ?nI \<and> q < ?nJ + 1)) \<and> mcell (adjMatrix ?ng) p q = 0)"
      if pq: "0 \<le> p" "p < ?k" "0 \<le> q" "q < ?k" for p q
    proof (cases "p = ?nI \<and> q = ?nJ")
      case True
      then have "mcell (adjMatrix g) (rv_up v p) (rv_up v q) = 0"
        using \<open>mcell (adjMatrix g) i j = 0\<close> rv_up_new[OF i(3)] rv_up_new[OF False] by simp
      then show ?thesis using cells[OF pq] by auto
    next
      case False
      then show ?thesis using cells[OF pq] by auto
    qed
    then have "rv_inv st g v (\<lambda>p q. p < ?nI \<or> (p = ?nI \<and> q < ?nJ + 1)) st'"
      unfolding rv_inv_def using len tk ngn ngd ngsq by simp
    then show ?thesis using res nJ' by simp
  next
    case nz: False
    let ?w = "mcell (adjMatrix g) i j"
    from addEdge_Some[OF ngsq ngn rI rJ, of ?w] obtain ng' where
      ng': "addEdge ?ng ?nI ?nJ ?w = Some ng'" "g_n ng' = ?k" "isDirected ng' = isDirected ?ng"
        "square ?k (adjMatrix ng')"
        "\<And>p q. 0 \<le> p \<Longrightarrow> p < ?k \<Longrightarrow> 0 \<le> q \<Longrightarrow> q < ?k \<Longrightarrow>
              mcell (adjMatrix ng') p q =
                (if (p = ?nI \<and> q = ?nJ) \<or> (\<not> isDirected ?ng \<and> p = ?nJ \<and> q = ?nI) then ?w
                 else mcell (adjMatrix ?ng) p q)"
      by blast
    let ?st'' = "st'[length st := ng']"
    have res: "removeVertex_cell this (length st) v i ?nI j (st', ?nJ) = Some (?st'', ?nJ + 1)"
      using False d w nz dn ng'(1) len by (simp add: removeVertex_cell_def store_put_def)
    have sym: "mcell (adjMatrix g) j i = ?w" if "\<not> isDirected g"
    proof -
      have "symmetric (adjMatrix g)" using wf that by (simp add: wf_graph_def)
      moreover have "int (length (adjMatrix g)) = g_n g" using sq by (simp add: square_def)
      ultimately show ?thesis using symmetric_mcell[of "adjMatrix g" j i] i j by simp
    qed
    have c: "mcell (adjMatrix ng') p q = mcell (adjMatrix g) (rv_up v p) (rv_up v q) \<or>
          (\<not> (p < ?nI \<or> (p = ?nI \<and> q < ?nJ + 1)) \<and> mcell (adjMatrix ng') p q = 0)"
      if pq: "0 \<le> p" "p < ?k" "0 \<le> q" "q < ?k" for p q
    proof (cases "(p = ?nI \<and> q = ?nJ) \<or> (\<not> isDirected ?ng \<and> p = ?nJ \<and> q = ?nI)")
      case True
      then have "mcell (adjMatrix ng') p q = ?w" using ng'(5)[OF pq] by simp
      moreover have "mcell (adjMatrix g) (rv_up v p) (rv_up v q) = ?w"
        using True sym ngd rv_up_new[OF i(3)] rv_up_new[OF False] by auto
      ultimately show ?thesis by simp
    next
      case False
      have "mcell (adjMatrix ng') p q = mcell (adjMatrix ?ng) p q"
        unfolding ng'(5)[OF pq] using False by (simp only: if_False)
      then show ?thesis using cells[OF pq] False by auto
    qed
    have "rv_inv st g v (\<lambda>p q. p < ?nI \<or> (p = ?nI \<and> q < ?nJ + 1)) ?st''"
      unfolding rv_inv_def using len tk ngn ngd ng'(2,3,4) c by simp
    then show ?thesis using res nJ' by simp
  qed
qed

lemma rv_inv_cong:
  assumes "rv_inv st g v fin st'"
    and "\<And>p q. 0 \<le> p \<Longrightarrow> p < g_n g - 1 \<Longrightarrow> 0 \<le> q \<Longrightarrow> q < g_n g - 1 \<Longrightarrow> fin' p q \<Longrightarrow> fin p q"
  shows "rv_inv st g v fin' st'"
  using assms unfolding rv_inv_def by blast

lemma rv_row_step:
  assumes wf: "wf_graph g" and rcv: "this < length st" "st ! this = g"
    and v: "0 \<le> v" "v < g_n g" and i: "0 \<le> i" "i < g_n g"
    and inv: "rv_inv st g v (\<lambda>p q. p < rv_new v i) st'"
  shows "\<exists>st''. removeVertex_row this (length st) v i (st', rv_new v i)
            = Some (st'', rv_new v (i + 1)) \<and>
          rv_inv st g v (\<lambda>p q. p < rv_new v (i + 1)) st''"
proof (cases "i = v")
  case True
  then show ?thesis using inv by (simp add: removeVertex_row_def rv_new_Suc)
next
  case False
  let ?I = "\<lambda>j s. snd s = rv_new v j \<and>
     rv_inv st g v (\<lambda>p q. p < rv_new v i \<or> (p = rv_new v i \<and> q < rv_new v j)) (fst s)"
  have d: "deref st' this = Some g" using rv_inv_deref[OF inv rcv] .
  have "\<exists>s'. for_up 0 (g_n g) (removeVertex_cell this (length st) v i (rv_new v i)) (st', 0) = Some s'
           \<and> ?I (g_n g) s'"
  proof (rule for_up_rule[where I = ?I])
    show "?I 0 (st', 0)"
      using v rv_inv_cong[OF inv, of "\<lambda>p q. p < rv_new v i \<or> (p = rv_new v i \<and> q < rv_new v 0)"]
      by (auto simp: rv_new_def)
    show "0 \<le> g_n g" using v by simp
    fix j s assume j: "0 \<le> j" "j < g_n g" and I: "?I j s"
    obtain st1 nJ where s: "s = (st1, nJ)" by (cases s)
    from rv_cell_step[OF wf rcv v i False j, of st1] I s
    show "\<exists>s'. removeVertex_cell this (length st) v i (rv_new v i) j s = Some s' \<and> ?I (j + 1) s'"
      by auto
  qed
  then obtain st'' nJ where
    loop: "for_up 0 (g_n g) (removeVertex_cell this (length st) v i (rv_new v i)) (st', 0) = Some (st'', nJ)"
    and I: "rv_inv st g v (\<lambda>p q. p < rv_new v i \<or> (p = rv_new v i \<and> q < rv_new v (g_n g))) st''"
    by auto
  have "rv_inv st g v (\<lambda>p q. p < rv_new v (i + 1)) st''"
  proof (rule rv_inv_cong[OF I])
    fix p q :: int
    assume "0 \<le> p" "p < g_n g - 1" "0 \<le> q" "q < g_n g - 1" "p < rv_new v (i + 1)"
    then show "p < rv_new v i \<or> (p = rv_new v i \<and> q < rv_new v (g_n g))"
      using v False by (auto simp: rv_new_def split: if_splits)
  qed
  moreover have "removeVertex_row this (length st) v i (st', rv_new v i) = Some (st'', rv_new v i + 1)"
    using False d loop by (simp add: removeVertex_row_def)
  ultimately show ?thesis using False by (simp add: rv_new_Suc)
qed

lemma removeVertex_in_range:
  assumes wf: "wf_graph g" and rcv: "this < length st" "st ! this = g"
    and v: "0 \<le> v" "v < g_n g"
  shows "\<exists>st'. removeVertex st this v = Some (st', length st) \<and>
           length st' = Suc (length st) \<and> take (length st) st' = st \<and>
           g_n (st' ! length st) = g_n g - 1 \<and>
           isDirected (st' ! length st) = isDirected g \<and>
           adjMatrix (st' ! length st) = del_row_col (nat v) (adjMatrix g)"
proof -
  let ?k = "g_n g - 1"
  let ?ng = "\<lparr>g_n = ?k, adjMatrix = replicate (nat ?k) (replicate (nat ?k) 0), isDirected = isDirected g\<rparr>"
  let ?st1 = "st @ [?ng]"
  let ?I = "\<lambda>i s. snd s = rv_new v i \<and> rv_inv st g v (\<lambda>p q. p < rv_new v i) (fst s)"
  have k: "0 \<le> ?k" using v by simp
  have d: "deref st this = Some g" using rcv by (simp add: deref_def)
  have gn: "Graph_new ?k (isDirected g) = Some ?ng" using Graph_new_Some[OF k] .
  have inv0: "rv_inv st g v (\<lambda>p q. p < rv_new v 0) ?st1"
    unfolding rv_inv_def using square_replicate[OF k] v
    by (simp add: mcell_replicate rv_new_def)
  have "\<exists>s'. for_up 0 (g_n g) (removeVertex_row this (length st) v) (?st1, 0) = Some s' \<and> ?I (g_n g) s'"
  proof (rule for_up_rule[where I = ?I])
    show "?I 0 (?st1, 0)" using inv0 v by (simp add: rv_new_def)
    show "0 \<le> g_n g" using v by simp
    fix i s assume i: "0 \<le> i" "i < g_n g" and I: "?I i s"
    obtain st1 nI where s: "s = (st1, nI)" by (cases s)
    from rv_row_step[OF wf rcv v i, of st1] I s
    show "\<exists>s'. removeVertex_row this (length st) v i s = Some s' \<and> ?I (i + 1) s'"
      by auto
  qed
  then obtain st' nI where
    loop: "for_up 0 (g_n g) (removeVertex_row this (length st) v) (?st1, 0) = Some (st', nI)"
    and I: "rv_inv st g v (\<lambda>p q. p < rv_new v (g_n g)) st'"
    by auto
  have res: "removeVertex st this v = Some (st', length st)"
    using d v gn loop by (simp add: removeVertex_def)
  let ?m = "adjMatrix (st' ! length st)" and ?a = "adjMatrix g"
  have len: "length st' = Suc (length st)" and tk: "take (length st) st' = st"
    and ngn: "g_n (st' ! length st) = ?k" and ngd: "isDirected (st' ! length st) = isDirected g"
    and ngsq: "square ?k ?m"
    and cells: "\<And>p q. 0 \<le> p \<Longrightarrow> p < ?k \<Longrightarrow> 0 \<le> q \<Longrightarrow> q < ?k \<Longrightarrow>
         mcell ?m p q = mcell ?a (rv_up v p) (rv_up v q)"
    using I v unfolding rv_inv_def by (auto simp: rv_new_def)
  have sq: "square (g_n g) ?a" using wf by (simp add: wf_graph_def)
  have la: "length ?a = nat (g_n g)" using sq by (auto simp: square_def)
  have lrow: "length (?a ! p) = nat (g_n g)" if "p < nat (g_n g)" for p
    using sq that la by (auto simp: square_def list_all_length)
  have lm: "length ?m = nat ?k" using ngsq by (auto simp: square_def)
  have lmrow: "length (?m ! p) = nat ?k" if "p < nat ?k" for p
    using ngsq that lm by (auto simp: square_def list_all_length)
  have "?m = del_row_col (nat v) ?a"
  proof (rule nth_equalityI)
    show l1: "length ?m = length (del_row_col (nat v) ?a)"
      using lm la v by (simp add: del_row_col_def length_drop_at)
    fix p assume p: "p < length ?m"
    then have p': "p < nat ?k" using lm by simp
    have rowT: "del_row_col (nat v) ?a ! p = drop_at (nat v) (?a ! (if p < nat v then p else Suc p))"
      using p' la v by (simp add: del_row_col_def length_drop_at nth_drop_at)
    have lr: "length (?a ! (if p < nat v then p else Suc p)) = nat (g_n g)"
      using p' by (intro lrow) auto
    show "?m ! p = del_row_col (nat v) ?a ! p"
    proof (rule nth_equalityI)
      show "length (?m ! p) = length (del_row_col (nat v) ?a ! p)"
        using lmrow[OF p'] rowT lr v by (simp add: length_drop_at)
      fix q assume "q < length (?m ! p)"
      then have q': "q < nat ?k" using lmrow[OF p'] by simp
      have "?m ! p ! q = mcell ?m (int p) (int q)" by (simp add: mcell_def)
      also have "\<dots> = mcell ?a (rv_up v (int p)) (rv_up v (int q))"
        using cells[of "int p" "int q"] p' q' by simp
      also have "\<dots> = del_row_col (nat v) ?a ! p ! q"
        using rowT lr q' p' v
        by (auto simp: nth_drop_at mcell_def rv_up_def nat_add_distrib)
      finally show "?m ! p ! q = del_row_col (nat v) ?a ! p ! q" .
    qed
  qed
  then show ?thesis using res len tk ngn ngd by simp
qed

definition sd_merged :: "int list list \<Rightarrow> int \<Rightarrow> int \<Rightarrow> int" where
  "sd_merged a p q =
     (if p < q then (if mcell a p q \<noteq> 0 then mcell a p q else mcell a q p)
      else if q < p then (if mcell a q p \<noteq> 0 then mcell a q p else mcell a p q)
      else mcell a p p)"

definition sd_inv :: "int \<Rightarrow> int list list \<Rightarrow> (int \<Rightarrow> int \<Rightarrow> bool) \<Rightarrow> int list list \<Rightarrow> bool" where
  "sd_inv k a fin m =
     (square k m \<and>
      (\<forall>p q. 0 \<le> p \<longrightarrow> p < k \<longrightarrow> 0 \<le> q \<longrightarrow> q < k \<longrightarrow>
         mcell m p q = (if fin (min p q) (max p q) then sd_merged a p q else mcell a p q)))"

lemma sd_cell_step:
  assumes i: "0 \<le> i" "i < j" and j: "j < k"
    and inv: "sd_inv k a (\<lambda>p q. p < i \<or> (p = i \<and> p < q \<and> q < j)) m"
  shows "\<exists>m'. setDirected_cell i j m = Some m' \<and>
           sd_inv k a (\<lambda>p q. p < i \<or> (p = i \<and> p < q \<and> q < j + 1)) m'"
proof -
  have sq: "square k m"
    and cells: "\<And>p q. 0 \<le> p \<Longrightarrow> p < k \<Longrightarrow> 0 \<le> q \<Longrightarrow> q < k \<Longrightarrow>
         mcell m p q = (if (\<lambda>p q. p < i \<or> (p = i \<and> p < q \<and> q < j)) (min p q) (max p q)
                        then sd_merged a p q else mcell a p q)"
    using inv unfolding sd_inv_def by auto
  have ri: "0 \<le> i" "i < k" and rj: "0 \<le> j" "j < k" using i j by auto
  have mij: "mcell m i j = mcell a i j" using cells[OF ri rj] i by (simp add: min_def max_def)
  have mji: "mcell m j i = mcell a j i" using cells[OF rj ri] i by (simp add: min_def max_def)
  have g1: "mat_get m i j = Some (mcell a i j)" using mat_get_Some[OF sq ri rj] mij by simp
  have g2: "mat_get m j i = Some (mcell a j i)" using mat_get_Some[OF sq rj ri] mji by simp
  show ?thesis
  proof (cases "mcell a i j \<noteq> 0 \<or> mcell a j i \<noteq> 0")
    case True
    let ?w = "if mcell a i j \<noteq> 0 then mcell a i j else mcell a j i"
    from mat_put_Some[OF sq ri rj, of ?w] obtain m1 where
      m1: "mat_put m i j ?w = Some m1" "square k m1"
        "\<And>p q. 0 \<le> p \<Longrightarrow> p < k \<Longrightarrow> 0 \<le> q \<Longrightarrow> q < k \<Longrightarrow>
              mcell m1 p q = (if p = i \<and> q = j then ?w else mcell m p q)"
      by blast
    from mat_put_Some[OF m1(2) rj ri, of ?w] obtain m2 where
      m2: "mat_put m1 j i ?w = Some m2" "square k m2"
        "\<And>p q. 0 \<le> p \<Longrightarrow> p < k \<Longrightarrow> 0 \<le> q \<Longrightarrow> q < k \<Longrightarrow>
              mcell m2 p q = (if p = j \<and> q = i then ?w else mcell m1 p q)"
      by blast
    have res: "setDirected_cell i j m = Some m2"
      using True g1 g2 m1(1) m2(1) by (simp add: setDirected_cell_def Let_def)
    have "mcell m2 p q = (if (\<lambda>p q. p < i \<or> (p = i \<and> p < q \<and> q < j + 1)) (min p q) (max p q)
                        then sd_merged a p q else mcell a p q)"
      if pq: "0 \<le> p" "p < k" "0 \<le> q" "q < k" for p q
    proof (cases "(p = i \<and> q = j) \<or> (p = j \<and> q = i)")
      case True
      have e1: "mcell m2 p q = (if p = j \<and> q = i then ?w else if p = i \<and> q = j then ?w else mcell m p q)"
        unfolding m2(3)[OF pq] m1(3)[OF pq] ..
      have ne: "i \<noteq> j" "j \<noteq> i" "\<not> j < i" using i by auto
      have "mcell m2 p q = ?w" using True ne unfolding e1 by (elim disjE) simp_all
      moreover have "sd_merged a p q = ?w" using True i(2) ne unfolding sd_merged_def by (elim disjE) simp_all
      moreover have "(\<lambda>p q. p < i \<or> (p = i \<and> p < q \<and> q < j + 1)) (min p q) (max p q)"
        using True i by (elim disjE) (simp_all add: min_def max_def)
      ultimately show ?thesis by simp
    next
      case False
      have e1: "mcell m2 p q = (if p = j \<and> q = i then ?w else if p = i \<and> q = j then ?w else mcell m p q)"
        unfolding m2(3)[OF pq] m1(3)[OF pq] ..
      have n1: "\<not> (p = j \<and> q = i)" and n2: "\<not> (p = i \<and> q = j)" using False by blast+
      have "mcell m2 p q = mcell m p q" unfolding e1 by (simp only: n1 n2 if_False)
      moreover have "(\<lambda>p q. p < i \<or> (p = i \<and> p < q \<and> q < j + 1)) (min p q) (max p q)
           = (\<lambda>p q. p < i \<or> (p = i \<and> p < q \<and> q < j)) (min p q) (max p q)"
        using False i by (auto simp: min_def max_def)
      ultimately show ?thesis unfolding cells[OF pq] by simp
    qed
    then show ?thesis using res m2(2) unfolding sd_inv_def by blast
  next
    case False
    have res: "setDirected_cell i j m = Some m"
      using False g1 g2 by (simp add: setDirected_cell_def)
    have "mcell m p q = (if (\<lambda>p q. p < i \<or> (p = i \<and> p < q \<and> q < j + 1)) (min p q) (max p q)
                        then sd_merged a p q else mcell a p q)"
      if pq: "0 \<le> p" "p < k" "0 \<le> q" "q < k" for p q
    proof (cases "(p = i \<and> q = j) \<or> (p = j \<and> q = i)")
      case True
      then have "mcell m p q = mcell a p q" using mij mji by (elim disjE) simp_all
      moreover have "sd_merged a p q = mcell a p q"
        using True \<open>\<not> (mcell a i j \<noteq> 0 \<or> mcell a j i \<noteq> 0)\<close> i unfolding sd_merged_def
        by (elim disjE) simp_all
      ultimately show ?thesis by simp
    next
      case False
      have "(\<lambda>p q. p < i \<or> (p = i \<and> p < q \<and> q < j + 1)) (min p q) (max p q)
           = (\<lambda>p q. p < i \<or> (p = i \<and> p < q \<and> q < j)) (min p q) (max p q)"
        using False i by (auto simp: min_def max_def)
      then show ?thesis unfolding cells[OF pq] by simp
    qed
    then show ?thesis using res sq unfolding sd_inv_def by blast
  qed
qed

lemma sd_inv_cong:
  assumes "sd_inv k a fin m"
    and "\<And>p q. 0 \<le> p \<Longrightarrow> p < q \<Longrightarrow> q < k \<Longrightarrow> fin' p q = fin p q"
  shows "sd_inv k a fin' m"
proof -
  have "mcell m p q = (if fin' (min p q) (max p q) then sd_merged a p q else mcell a p q)"
    if pq: "0 \<le> p" "p < k" "0 \<le> q" "q < k" for p q
  proof -
    have m: "mcell m p q = (if fin (min p q) (max p q) then sd_merged a p q else mcell a p q)"
      using assms(1) pq unfolding sd_inv_def by blast
    consider "p < q" | "q < p" | "p = q" by linarith
    then show ?thesis
    proof cases
      case 1 then show ?thesis using m assms(2)[of p q] pq by (simp add: min_def max_def)
    next
      case 2 then show ?thesis using m assms(2)[of q p] pq by (simp add: min_def max_def)
    next
      case 3 then show ?thesis using m by (simp add: sd_merged_def)
    qed
  qed
  then show ?thesis using assms(1) unfolding sd_inv_def by blast
qed

lemma sd_row_step:
  assumes i: "0 \<le> i" "i < k"
    and inv: "sd_inv k a (\<lambda>p q. p < i) m"
  shows "\<exists>m'. for_up (i + 1) k (setDirected_cell i) m = Some m' \<and> sd_inv k a (\<lambda>p q. p < i + 1) m'"
proof -
  let ?I = "\<lambda>j m. sd_inv k a (\<lambda>p q. p < i \<or> (p = i \<and> p < q \<and> q < j)) m"
  have "\<exists>m'. for_up (i + 1) k (setDirected_cell i) m = Some m' \<and> ?I k m'"
  proof (rule for_up_rule[where I = ?I])
    show "?I (i + 1) m" by (rule sd_inv_cong[OF inv]) auto
    show "i + 1 \<le> k" using i by simp
    fix j s assume "i + 1 \<le> j" "j < k" "?I j s"
    then show "\<exists>s'. setDirected_cell i j s = Some s' \<and> ?I (j + 1) s'"
      using sd_cell_step[of i j k a s] i by simp
  qed
  then obtain m' where m': "for_up (i + 1) k (setDirected_cell i) m = Some m'" "?I k m'" by blast
  have "sd_inv k a (\<lambda>p q. p < i + 1) m'"
  proof (rule sd_inv_cong[OF m'(2)])
    fix p q :: int assume "0 \<le> p" "p < q" "q < k"
    then show "(p < i + 1) = (p < i \<or> p = i \<and> p < q \<and> q < k)"
      by auto
  qed
  then show ?thesis using m'(1) by blast
qed

lemma setDirected_False:
  assumes sq: "square (g_n g) (adjMatrix g)"
  shows "\<exists>m'. setDirected g False = Some (g\<lparr>isDirected := False, adjMatrix := m'\<rparr>) \<and>
           square (g_n g) m' \<and>
           (\<forall>p q. 0 \<le> p \<longrightarrow> p < g_n g \<longrightarrow> 0 \<le> q \<longrightarrow> q < g_n g \<longrightarrow>
              mcell m' p q = sd_merged (adjMatrix g) p q)"
proof -
  let ?k = "g_n g" and ?a = "adjMatrix g"
  let ?I = "\<lambda>i m. sd_inv ?k ?a (\<lambda>p q. p < i) m"
  have k: "0 \<le> ?k" using sq by (simp add: square_def)
  have "\<exists>m'. for_up 0 ?k (\<lambda>i. for_up (i + 1) ?k (setDirected_cell i)) ?a = Some m' \<and> ?I ?k m'"
  proof (rule for_up_rule[where I = ?I])
    show "?I 0 ?a" using sq unfolding sd_inv_def by (auto simp: min_def)
    show "0 \<le> ?k" by (rule k)
    fix i s assume "0 \<le> i" "i < ?k" "?I i s"
    then show "\<exists>s'. for_up (i + 1) ?k (setDirected_cell i) s = Some s' \<and> ?I (i + 1) s'"
      by (rule sd_row_step)
  qed
  then obtain m' where m': "for_up 0 ?k (\<lambda>i. for_up (i + 1) ?k (setDirected_cell i)) ?a = Some m'"
    "?I ?k m'" by blast
  have "setDirected g False = Some (g\<lparr>isDirected := False, adjMatrix := m'\<rparr>)"
    using m'(1) by (simp add: setDirected_def)
  moreover have "square ?k m'" using m'(2) by (simp add: sd_inv_def)
  moreover have "mcell m' p q = sd_merged ?a p q"
    if "0 \<le> p" "p < ?k" "0 \<le> q" "q < ?k" for p q
    using m'(2) that unfolding sd_inv_def by (auto simp: min_def)
  ultimately show ?thesis by blast
qed

text \<open>
  Claim C7.  On a graph with a square matrix, \<^verbatim>\<open>setDirected(false)\<close> returns normally;
  for every pair \<open>i < j\<close> with one of the two cells nonzero both cells end as
  \<open>weight[i][j]\<close> if that is nonzero and as \<open>weight[j][i]\<close> otherwise; a pair with both
  cells zero and the diagonal keep their values (all values read from the matrix before
  the call).  \<^verbatim>\<open>setDirected(true)\<close> only sets the flag.
\<close>

theorem setDirected_merge:
  assumes "square (g_n g) (adjMatrix g)"
  shows "(\<exists>g'. setDirected g False = Some g' \<and> g_n g' = g_n g \<and> \<not> isDirected g' \<and>
            square (g_n g) (adjMatrix g') \<and>
            (\<forall>i j. 0 \<le> i \<and> i < j \<and> j < g_n g \<longrightarrow>
               (if mcell (adjMatrix g) i j \<noteq> 0 \<or> mcell (adjMatrix g) j i \<noteq> 0
                then mcell (adjMatrix g') i j =
                       (if mcell (adjMatrix g) i j \<noteq> 0 then mcell (adjMatrix g) i j
                        else mcell (adjMatrix g) j i) \<and>
                     mcell (adjMatrix g') j i =
                       (if mcell (adjMatrix g) i j \<noteq> 0 then mcell (adjMatrix g) i j
                        else mcell (adjMatrix g) j i)
                else mcell (adjMatrix g') i j = mcell (adjMatrix g) i j \<and>
                     mcell (adjMatrix g') j i = mcell (adjMatrix g) j i)) \<and>
            (\<forall>i. 0 \<le> i \<and> i < g_n g \<longrightarrow> mcell (adjMatrix g') i i = mcell (adjMatrix g) i i)) \<and>
         setDirected g True = Some (g\<lparr>isDirected := True\<rparr>)"
proof -
  from setDirected_False[OF assms] obtain m' where
    m': "setDirected g False = Some (g\<lparr>isDirected := False, adjMatrix := m'\<rparr>)"
      "square (g_n g) m'"
      "\<And>p q. 0 \<le> p \<Longrightarrow> p < g_n g \<Longrightarrow> 0 \<le> q \<Longrightarrow> q < g_n g \<Longrightarrow>
              mcell m' p q = sd_merged (adjMatrix g) p q"
    by blast
  let ?g' = "g\<lparr>isDirected := False, adjMatrix := m'\<rparr>"
  have pair: "(if mcell (adjMatrix g) i j \<noteq> 0 \<or> mcell (adjMatrix g) j i \<noteq> 0
                then mcell m' i j =
                       (if mcell (adjMatrix g) i j \<noteq> 0 then mcell (adjMatrix g) i j
                        else mcell (adjMatrix g) j i) \<and>
                     mcell m' j i =
                       (if mcell (adjMatrix g) i j \<noteq> 0 then mcell (adjMatrix g) i j
                        else mcell (adjMatrix g) j i)
                else mcell m' i j = mcell (adjMatrix g) i j \<and>
                     mcell m' j i = mcell (adjMatrix g) j i)"
    if ij: "0 \<le> i \<and> i < j \<and> j < g_n g" for i j
  proof -
    have a: "mcell m' i j = sd_merged (adjMatrix g) i j" using m'(3)[of i j] ij by simp
    have b: "mcell m' j i = sd_merged (adjMatrix g) j i" using m'(3)[of j i] ij by simp
    have c: "sd_merged (adjMatrix g) i j =
        (if mcell (adjMatrix g) i j \<noteq> 0 then mcell (adjMatrix g) i j else mcell (adjMatrix g) j i)"
      using ij by (simp add: sd_merged_def)
    have d: "sd_merged (adjMatrix g) j i =
        (if mcell (adjMatrix g) i j \<noteq> 0 then mcell (adjMatrix g) i j else mcell (adjMatrix g) j i)"
      using ij by (simp add: sd_merged_def)
    show ?thesis unfolding a b c d by (cases "mcell (adjMatrix g) i j = 0") simp_all
  qed
  have diag: "mcell m' i i = mcell (adjMatrix g) i i" if "0 \<le> i \<and> i < g_n g" for i
    using m'(3)[of i i] that by (simp add: sd_merged_def)
  have "g_n ?g' = g_n g \<and> \<not> isDirected ?g' \<and> square (g_n g) (adjMatrix ?g')"
    using m'(2) by simp
  then have 1: "\<exists>g'. setDirected g False = Some g' \<and> g_n g' = g_n g \<and> \<not> isDirected g' \<and>
            square (g_n g) (adjMatrix g') \<and>
            (\<forall>i j. 0 \<le> i \<and> i < j \<and> j < g_n g \<longrightarrow>
               (if mcell (adjMatrix g) i j \<noteq> 0 \<or> mcell (adjMatrix g) j i \<noteq> 0
                then mcell (adjMatrix g') i j =
                       (if mcell (adjMatrix g) i j \<noteq> 0 then mcell (adjMatrix g) i j
                        else mcell (adjMatrix g) j i) \<and>
                     mcell (adjMatrix g') j i =
                       (if mcell (adjMatrix g) i j \<noteq> 0 then mcell (adjMatrix g) i j
                        else mcell (adjMatrix g) j i)
                else mcell (adjMatrix g') i j = mcell (adjMatrix g) i j \<and>
                     mcell (adjMatrix g') j i = mcell (adjMatrix g) j i)) \<and>
            (\<forall>i. 0 \<le> i \<and> i < g_n g \<longrightarrow> mcell (adjMatrix g') i i = mcell (adjMatrix g) i i)"
    using m'(1) pair diag by (intro exI[of _ ?g']) simp
  have 2: "setDirected g True = Some (g\<lparr>isDirected := True\<rparr>)" by (simp add: setDirected_def)
  show ?thesis using 1 2 by blast
qed

theorem setDirected_merge_witness:
  "\<exists>g'. setDirected example_digraph False = Some g' \<and>
        mcell (adjMatrix g') 0 1 = 5 \<and> mcell (adjMatrix g') 1 0 = 5 \<and>
        mcell (adjMatrix g') 1 2 = 7 \<and> mcell (adjMatrix g') 2 1 = 7 \<and>
        mcell (adjMatrix g') 0 2 = 0 \<and> mcell (adjMatrix g') 2 0 = 0 \<and>
        mcell (adjMatrix g') 2 2 = 1"
proof -
  have sq: "square (g_n example_digraph) (adjMatrix example_digraph)"
    by (simp add: example_digraph_def square_def)
  from setDirected_merge[OF sq] obtain g' where
    g': "setDirected example_digraph False = Some g'"
    and pairs: "\<And>i j. 0 \<le> i \<and> i < j \<and> j < g_n example_digraph \<Longrightarrow>
               (if mcell (adjMatrix example_digraph) i j \<noteq> 0 \<or> mcell (adjMatrix example_digraph) j i \<noteq> 0
                then mcell (adjMatrix g') i j =
                       (if mcell (adjMatrix example_digraph) i j \<noteq> 0 then mcell (adjMatrix example_digraph) i j
                        else mcell (adjMatrix example_digraph) j i) \<and>
                     mcell (adjMatrix g') j i =
                       (if mcell (adjMatrix example_digraph) i j \<noteq> 0 then mcell (adjMatrix example_digraph) i j
                        else mcell (adjMatrix example_digraph) j i)
                else mcell (adjMatrix g') i j = mcell (adjMatrix example_digraph) i j \<and>
                     mcell (adjMatrix g') j i = mcell (adjMatrix example_digraph) j i)"
    and diag: "\<And>i. 0 \<le> i \<and> i < g_n example_digraph \<Longrightarrow>
                 mcell (adjMatrix g') i i = mcell (adjMatrix example_digraph) i i"
    by blast
  show ?thesis
    using g' pairs[of 0 1] pairs[of 1 2] pairs[of 0 2] diag[of 2]
    by (simp add: example_digraph_def mcell_def)
qed

text \<open>
  Claim C5.  For a well-formed receiver and a vertex index in range, \<^verbatim>\<open>removeVertex\<close>
  returns a pointer to a newly allocated object (the address past every object of the
  store before the call); every object that existed before the call, the receiver among
  them, is unchanged; the new graph has one vertex fewer, the receiver's directedness,
  and the receiver's matrix without row and column \<open>vertex\<close>.
\<close>

theorem removeVertex_copy:
  assumes "this < length st" and "wf_graph (st ! this)"
    and "0 \<le> vertex" and "vertex < g_n (st ! this)"
  shows "\<exists>st' p. removeVertex st this vertex = Some (st', p) \<and>
           p = length st \<and> length st' = Suc (length st) \<and> take (length st) st' = st \<and>
           st' ! this = st ! this \<and>
           g_n (st' ! p) = g_n (st ! this) - 1 \<and>
           isDirected (st' ! p) = isDirected (st ! this) \<and>
           adjMatrix (st' ! p) = del_row_col (nat vertex) (adjMatrix (st ! this))"
proof -
  from removeVertex_in_range[OF assms(2) assms(1) refl assms(3,4)] obtain st' where
    r: "removeVertex st this vertex = Some (st', length st)"
      "length st' = Suc (length st)" "take (length st) st' = st"
      "g_n (st' ! length st) = g_n (st ! this) - 1"
      "isDirected (st' ! length st) = isDirected (st ! this)"
      "adjMatrix (st' ! length st) = del_row_col (nat vertex) (adjMatrix (st ! this))"
    by blast
  have "st' ! this = take (length st) st' ! this" using assms(1) by simp
  then have "st' ! this = st ! this" using r(3) by simp
  then show ?thesis using r by blast
qed

theorem removeVertex_copy_witness:
  "\<exists>st'. removeVertex [example_digraph] 0 1 = Some (st', 1) \<and>
         st' ! 0 = example_digraph \<and> g_n (st' ! 1) = 2 \<and> isDirected (st' ! 1) \<and>
         adjMatrix (st' ! 1) = [[0, 0], [0, 1]]"
proof -
  have wf: "wf_graph ([example_digraph] ! 0)"
    by (simp add: wf_graph_def example_digraph_def square_def)
  have "del_row_col (nat 1) (adjMatrix example_digraph) = [[0, 0], [0, 1]]"
    by (simp add: del_row_col_def drop_at_def example_digraph_def)
  then show ?thesis
    using removeVertex_copy[of 0 "[example_digraph]" 1, OF _ wf]
    by (auto simp: example_digraph_def)
qed

text \<open>
  Claim C10.  For a vertex index out of range \<^verbatim>\<open>removeVertex\<close> returns the pointer
  \<^verbatim>\<open>this\<close> and leaves the store as it is: no object is allocated.
\<close>

theorem removeVertex_out_of_range:
  assumes "this < length st" and "vertex < 0 \<or> vertex \<ge> g_n (st ! this)"
  shows "removeVertex st this vertex = Some (st, this)"
  using assms by (auto simp: removeVertex_def deref_def)

theorem removeVertex_out_of_range_witness:
  "removeVertex [example_digraph] 0 3 = Some ([example_digraph], 0) \<and>
   removeVertex [example_digraph] 0 (- 1) = Some ([example_digraph], 0)"
  using removeVertex_out_of_range[of 0 "[example_digraph]" 3]
    removeVertex_out_of_range[of 0 "[example_digraph]" "- 1"]
  by (simp add: example_digraph_def)

section \<open>The heap as a priority queue\<close>

text \<open>
  The entries of a heap are the cells 1 to \<^verbatim>\<open>size\<close> of its array.  \<^verbatim>\<open>push\<close> adds an entry
  and \<^verbatim>\<open>pop\<close> removes one of least key, as long as the heap order holds.
\<close>

definition hkey :: "PQNode list \<Rightarrow> int \<Rightarrow> int" where
  "hkey h i = pq_key (h ! nat i)"

definition heap_entries :: "PQNode list \<Rightarrow> int \<Rightarrow> PQNode multiset" where
  "heap_entries h sz = mset (take (nat sz) (drop 1 h))"

definition heap_ord :: "PQNode list \<Rightarrow> int \<Rightarrow> bool" where
  "heap_ord h sz = (\<forall>j. 2 \<le> j \<and> j \<le> sz \<longrightarrow> hkey h (j div 2) \<le> hkey h j)"

definition up_inv :: "PQNode list \<Rightarrow> int \<Rightarrow> int \<Rightarrow> bool" where
  "up_inv h sz i =
     ((\<forall>j. 2 \<le> j \<and> j \<le> sz \<and> j \<noteq> i \<longrightarrow> hkey h (j div 2) \<le> hkey h j) \<and>
      (\<forall>j. 2 \<le> j \<and> j \<le> sz \<and> j div 2 = i \<and> 2 \<le> i \<longrightarrow> hkey h (i div 2) \<le> hkey h j))"

definition down_inv :: "PQNode list \<Rightarrow> int \<Rightarrow> int \<Rightarrow> bool" where
  "down_inv h sz i =
     ((\<forall>j. 2 \<le> j \<and> j \<le> sz \<and> j div 2 \<noteq> i \<longrightarrow> hkey h (j div 2) \<le> hkey h j) \<and>
      (\<forall>j. 2 \<le> j \<and> j \<le> sz \<and> j div 2 = i \<and> 2 \<le> i \<longrightarrow> hkey h (i div 2) \<le> hkey h j))"

lemma heap_swap_Some:
  assumes "0 \<le> i" "i < int (length h)" "0 \<le> j" "j < int (length h)"
  shows "heap_swap h i j = Some (h[nat i := h ! nat j, nat j := h ! nat i])"
  using assms by (simp add: heap_swap_def aget_def aset_def)

lemma hkey_swap:
  assumes "0 \<le> i" "i < int (length h)" "0 \<le> j" "j < int (length h)"
  shows "hkey (h[nat i := h ! nat j, nat j := h ! nat i]) j = hkey h i"
    and "hkey (h[nat i := h ! nat j, nat j := h ! nat i]) i = hkey h j"
    and "\<And>k. 0 \<le> k \<Longrightarrow> k \<noteq> i \<Longrightarrow> k \<noteq> j \<Longrightarrow>
           hkey (h[nat i := h ! nat j, nat j := h ! nat i]) k = hkey h k"
proof -
  show "hkey (h[nat i := h ! nat j, nat j := h ! nat i]) j = hkey h i"
    using assms by (simp add: hkey_def)
  show "hkey (h[nat i := h ! nat j, nat j := h ! nat i]) i = hkey h j"
    using assms by (cases "i = j") (simp_all add: hkey_def nat_eq_iff)
  fix k :: int assume "0 \<le> k" "k \<noteq> i" "k \<noteq> j"
  then have "nat k \<noteq> nat i" "nat k \<noteq> nat j" using assms by (simp_all add: nat_eq_iff)
  then show "hkey (h[nat i := h ! nat j, nat j := h ! nat i]) k = hkey h k"
    by (simp add: hkey_def)
qed

lemma heap_entries_swap:
  assumes "1 \<le> i" "i \<le> sz" "1 \<le> j" "j \<le> sz" "sz < int (length h)"
  shows "heap_entries (h[nat i := h ! nat j, nat j := h ! nat i]) sz = heap_entries h sz"
proof -
  let ?xs = "take (nat sz) (drop 1 h)"
  obtain i' where i': "nat i = Suc i'" using assms by (cases "nat i") auto
  obtain j' where j': "nat j = Suc j'" using assms by (cases "nat j") auto
  have b: "i' < length ?xs" "j' < length ?xs" using assms i' j' by auto
  have "take (nat sz) (drop 1 (h[nat i := h ! nat j, nat j := h ! nat i]))
      = ?xs[i' := ?xs ! j', j' := ?xs ! i']"
    using assms i' j' b by (simp add: drop_update_swap take_update_swap)
  then show ?thesis unfolding heap_entries_def using mset_swap[OF b(2) b(1)]
    by simp
qed

lemma heapifyUp_correct:
  assumes "1 \<le> i" "i \<le> sz" "sz < int (length h)" "up_inv h sz i"
  shows "\<exists>h'. heapifyUp h i = Some h' \<and> length h' = length h \<and> heap_ord h' sz \<and>
           heap_entries h' sz = heap_entries h sz"
  using assms
proof (induction h i rule: heapifyUp.induct)
  case (1 h i)
  have first: "\<And>j. 2 \<le> j \<Longrightarrow> j \<le> sz \<Longrightarrow> j \<noteq> i \<Longrightarrow> hkey h (j div 2) \<le> hkey h j"
    and second: "\<And>j. 2 \<le> j \<Longrightarrow> j \<le> sz \<Longrightarrow> j div 2 = i \<Longrightarrow> 2 \<le> i \<Longrightarrow> hkey h (i div 2) \<le> hkey h j"
    using "1.prems"(4) unfolding up_inv_def by blast+
  show ?case
  proof (cases "i > 1")
    case False
    then have "i = 1" using "1.prems"(1) by simp
    then have "heap_ord h sz" unfolding heap_ord_def using first by auto
    then show ?thesis using False by (simp add: heapifyUp.simps[of h i])
  next
    case True
    let ?p = "i div 2"
    have p: "1 \<le> ?p" "?p < i" "?p \<le> sz" using True "1.prems"(2) by auto
    have ri: "0 \<le> i" "i < int (length h)" using "1.prems" by auto
    have rp: "0 \<le> ?p" "?p < int (length h)" using p "1.prems" by auto
    have ga: "aget h i = Some (h ! nat i)" using ri by (simp add: aget_def)
    have gb: "aget h ?p = Some (h ! nat ?p)" using rp by (simp add: aget_def)
    show ?thesis
    proof (cases "hkey h i < hkey h ?p")
      case False
      have "heap_ord h sz" unfolding heap_ord_def
      proof (intro allI impI)
        fix j assume "2 \<le> j \<and> j \<le> sz"
        then show "hkey h (j div 2) \<le> hkey h j" using first[of j] False by (cases "j = i") auto
      qed
      moreover have "heapifyUp h i = Some h"
        using True ga gb False by (simp add: heapifyUp.simps[of h i] hkey_def)
      ultimately show ?thesis by simp
    next
      case lt: True
      let ?h2 = "h[nat i := h ! nat ?p, nat ?p := h ! nat i]"
      have s1: "aset h i (h ! nat ?p) = Some (h[nat i := h ! nat ?p])" using ri by (simp add: aset_def)
      have s2: "aset (h[nat i := h ! nat ?p]) ?p (h ! nat i) = Some ?h2" using rp by (simp add: aset_def)
      have step: "heapifyUp h i = heapifyUp ?h2 ?p"
        using True ga gb lt s1 s2 by (simp add: heapifyUp.simps[of h i] hkey_def)
      have kp: "hkey ?h2 ?p = hkey h i" and ki: "hkey ?h2 i = hkey h ?p"
        and ko: "\<And>k. 0 \<le> k \<Longrightarrow> k \<noteq> i \<Longrightarrow> k \<noteq> ?p \<Longrightarrow> hkey ?h2 k = hkey h k"
        using hkey_swap[OF ri rp] by blast+
      have inv2: "up_inv ?h2 sz ?p" unfolding up_inv_def
      proof (intro conjI allI impI)
        fix j assume j: "2 \<le> j \<and> j \<le> sz \<and> j \<noteq> ?p"
        then have j0: "0 \<le> j" "0 \<le> j div 2" by auto
        consider "j = i" | "j \<noteq> i" "j div 2 = i" | "j \<noteq> i" "j div 2 = ?p" | "j \<noteq> i" "j div 2 \<noteq> i" "j div 2 \<noteq> ?p"
          by blast
        then show "hkey ?h2 (j div 2) \<le> hkey ?h2 j"
        proof cases
          case 1
          have "hkey ?h2 (j div 2) = hkey h i" using 1 kp by simp
          moreover have "hkey ?h2 j = hkey h ?p" using 1 ki by simp
          ultimately show ?thesis using lt by simp
        next
          case 2
          have "hkey h ?p \<le> hkey h j" using second[of j] j 2 True by auto
          moreover have "hkey ?h2 (j div 2) = hkey h ?p" using 2 ki by simp
          moreover have "hkey ?h2 j = hkey h j" using ko[of j] j0 2 j by simp
          ultimately show ?thesis by simp
        next
          case 3
          have "hkey h ?p \<le> hkey h j" using first[of j] j 3 by auto
          moreover have "hkey ?h2 (j div 2) = hkey h i" using 3 kp by simp
          moreover have "hkey ?h2 j = hkey h j" using ko[of j] j0 3 j by simp
          ultimately show ?thesis using lt by simp
        next
          case 4
          have "hkey h (j div 2) \<le> hkey h j" using first[of j] j 4 by auto
          moreover have "hkey ?h2 (j div 2) = hkey h (j div 2)" using ko[of "j div 2"] j0 4 by simp
          moreover have "hkey ?h2 j = hkey h j" using ko[of j] j0 4 j by simp
          ultimately show ?thesis by simp
        qed
      next
        fix j assume j: "2 \<le> j \<and> j \<le> sz \<and> j div 2 = ?p \<and> 2 \<le> ?p"
        then have j0: "0 \<le> j" "0 \<le> ?p div 2" by auto
        have pp: "?p div 2 \<noteq> ?p" "?p div 2 \<noteq> i" using j p by auto
        have a: "hkey h (?p div 2) \<le> hkey h ?p" using first[of ?p] j p by auto
        have g: "hkey ?h2 (?p div 2) = hkey h (?p div 2)" using ko[of "?p div 2"] j0 pp by simp
        show "hkey ?h2 (?p div 2) \<le> hkey ?h2 j"
        proof (cases "j = i")
          case True
          then show ?thesis using g ki a by simp
        next
          case False
          have "hkey h ?p \<le> hkey h j" using first[of j] j False by auto
          moreover have "j \<noteq> ?p" using j by auto
          then have "hkey ?h2 j = hkey h j" using ko[of j] j0 False by simp
          ultimately show ?thesis using g a by simp
        qed
      qed
      have len2: "length ?h2 = length h" by simp
      from "1.IH"[OF True ga gb _ s1 s2 p(1) p(3) _ inv2] lt "1.prems"(3)
      obtain h' where h': "heapifyUp ?h2 ?p = Some h'" "length h' = length ?h2" "heap_ord h' sz"
        "heap_entries h' sz = heap_entries ?h2 sz"
        by (auto simp: hkey_def)
      have "heap_entries ?h2 sz = heap_entries h sz"
        using heap_entries_swap[of i sz ?p h] "1.prems" p by simp
      then show ?thesis using step h' by simp
    qed
  qed
qed

lemma heap_smallest_spec:
  assumes "1 \<le> i" "i \<le> sz" "sz < int (length h)" "sz < 1073741824"
  shows "\<exists>s. heap_smallest h sz i = Some s \<and>
           (s = i \<or> (s = 2 * i \<and> 2 * i \<le> sz) \<or> (s = 2 * i + 1 \<and> 2 * i + 1 \<le> sz)) \<and>
           (s \<noteq> i \<longrightarrow> hkey h s < hkey h i) \<and> hkey h s \<le> hkey h i \<and>
           (2 * i \<le> sz \<longrightarrow> hkey h s \<le> hkey h (2 * i)) \<and>
           (2 * i + 1 \<le> sz \<longrightarrow> hkey h s \<le> hkey h (2 * i + 1))"
proof -
  let ?l = "2 * i" and ?r = "2 * i + 1"
  have m: "mul32 2 i = Some ?l" using assms by (simp add: mul32_def INT_MIN_def INT_MAX_def)
  have a: "add32 ?l 1 = Some ?r" using assms by (simp add: add32_def INT_MIN_def INT_MAX_def)
  have gi: "aget h i = Some (h ! nat i)" using assms by (simp add: aget_def)
  have gl: "aget h ?l = Some (h ! nat ?l)" if "?l \<le> sz" using assms that by (simp add: aget_def)
  have gr: "aget h ?r = Some (h ! nat ?r)" if "?r \<le> sz" using assms that by (simp add: aget_def)
  define s1 where "s1 = (if ?l \<le> sz \<and> hkey h ?l < hkey h i then ?l else i)"
  define s2 where "s2 = (if ?r \<le> sz \<and> hkey h ?r < hkey h s1 then ?r else s1)"
  have e1: "(if ?l \<le> sz then aget h ?l \<bind> (\<lambda>a. aget h i \<bind> (\<lambda>b. Some (if pq_key a < pq_key b then ?l else i)))
             else Some i) = Some s1"
    using gl gi by (simp add: s1_def hkey_def)
  have gs1: "aget h s1 = Some (h ! nat s1)" using gi gl by (simp add: s1_def)
  have e2: "(if ?r \<le> sz then aget h ?r \<bind> (\<lambda>a. aget h s1 \<bind> (\<lambda>b. Some (if pq_key a < pq_key b then ?r else s1)))
             else Some s1) = Some s2"
    using gr gs1 by (simp add: s2_def hkey_def)
  have res: "heap_smallest h sz i = Some s2"
    unfolding heap_smallest_def by (simp add: m a e1 e2)
  have p1: "s1 = i \<or> (s1 = ?l \<and> ?l \<le> sz)" by (simp add: s1_def)
  have p2: "hkey h s1 \<le> hkey h i" "s1 \<noteq> i \<longrightarrow> hkey h s1 < hkey h i"
    "?l \<le> sz \<longrightarrow> hkey h s1 \<le> hkey h ?l"
    by (auto simp: s1_def)
  have q1: "s2 = s1 \<or> (s2 = ?r \<and> ?r \<le> sz \<and> hkey h ?r < hkey h s1)" by (simp add: s2_def)
  have q2: "hkey h s2 \<le> hkey h s1" "?r \<le> sz \<longrightarrow> hkey h s2 \<le> hkey h ?r"
    by (auto simp: s2_def)
  have "s2 = i \<or> (s2 = ?l \<and> ?l \<le> sz) \<or> (s2 = ?r \<and> ?r \<le> sz)" using p1 q1 by blast
  moreover have "s2 \<noteq> i \<longrightarrow> hkey h s2 < hkey h i" using p1 p2 q1 by force
  moreover have "hkey h s2 \<le> hkey h i" using p2 q2 by linarith
  moreover have "?l \<le> sz \<longrightarrow> hkey h s2 \<le> hkey h ?l" using p2 q2 by linarith
  ultimately show ?thesis using res q2(2) by blast
qed

lemma heapifyDown_correct:
  assumes "1 \<le> i" "i \<le> sz" "sz < int (length h)" "sz < 1073741824" "down_inv h sz i"
  shows "\<exists>h'. heapifyDown h sz i = Some h' \<and> length h' = length h \<and> heap_ord h' sz \<and>
           heap_entries h' sz = heap_entries h sz"
  using assms
proof (induction h sz i rule: heapifyDown.induct)
  case (1 h sz i)
  have first: "\<And>j. 2 \<le> j \<Longrightarrow> j \<le> sz \<Longrightarrow> j div 2 \<noteq> i \<Longrightarrow> hkey h (j div 2) \<le> hkey h j"
    and second: "\<And>j. 2 \<le> j \<Longrightarrow> j \<le> sz \<Longrightarrow> j div 2 = i \<Longrightarrow> 2 \<le> i \<Longrightarrow> hkey h (i div 2) \<le> hkey h j"
    using "1.prems"(5) unfolding down_inv_def by blast+
  from heap_smallest_spec[OF "1.prems"(1-4)] obtain s where
    s: "heap_smallest h sz i = Some s"
      "s = i \<or> (s = 2 * i \<and> 2 * i \<le> sz) \<or> (s = 2 * i + 1 \<and> 2 * i + 1 \<le> sz)"
      "s \<noteq> i \<longrightarrow> hkey h s < hkey h i" "hkey h s \<le> hkey h i"
      "2 * i \<le> sz \<longrightarrow> hkey h s \<le> hkey h (2 * i)"
      "2 * i + 1 \<le> sz \<longrightarrow> hkey h s \<le> hkey h (2 * i + 1)"
    by blast
  have child: "\<And>j. j div 2 = i \<Longrightarrow> j = 2 * i \<or> j = 2 * i + 1" by presburger
  show ?case
  proof (cases "s = i")
    case True
    have "heap_ord h sz" unfolding heap_ord_def
    proof (intro allI impI)
      fix j assume j: "2 \<le> j \<and> j \<le> sz"
      show "hkey h (j div 2) \<le> hkey h j"
      proof (cases "j div 2 = i")
        case False
        then show ?thesis using first[of j] j by simp
      next
        case c: True
        then show ?thesis using child[OF c] s(5,6) j True by auto
      qed
    qed
    moreover have "heapifyDown h sz i = Some h"
      using s(1) True by (simp add: heapifyDown.simps[of h sz i])
    ultimately show ?thesis by simp
  next
    case False
    have sr: "i < s" "s \<le> sz" "s div 2 = i" "2 \<le> s" using s(2) False "1.prems"(1) by auto
    have ri: "0 \<le> i" "i < int (length h)" using "1.prems" by auto
    have rs: "0 \<le> s" "s < int (length h)" using sr "1.prems" by auto
    let ?h1 = "h[nat i := h ! nat s, nat s := h ! nat i]"
    have sw: "heap_swap h i s = Some ?h1" using heap_swap_Some[OF ri rs] .
    have step: "heapifyDown h sz i = heapifyDown ?h1 sz s"
      using s(1) False sw by (simp add: heapifyDown.simps[of h sz i])
    have ks: "hkey ?h1 s = hkey h i" and ki: "hkey ?h1 i = hkey h s"
      and ko: "\<And>k. 0 \<le> k \<Longrightarrow> k \<noteq> i \<Longrightarrow> k \<noteq> s \<Longrightarrow> hkey ?h1 k = hkey h k"
      using hkey_swap[OF ri rs] by blast+
    have lt: "hkey h s < hkey h i" using s(3) False by simp
    have inv1: "down_inv ?h1 sz s" unfolding down_inv_def
    proof (intro conjI allI impI)
      fix j assume j: "2 \<le> j \<and> j \<le> sz \<and> j div 2 \<noteq> s"
      then have j0: "0 \<le> j" "0 \<le> j div 2" by auto
      consider "j = s" | "j = i" | "j \<noteq> s" "j \<noteq> i" "j div 2 = i" | "j \<noteq> s" "j \<noteq> i" "j div 2 \<noteq> i"
        by blast
      then show "hkey ?h1 (j div 2) \<le> hkey ?h1 j"
      proof cases
        case 1
        then show ?thesis using sr(3) ki ks lt by simp
      next
        case 2
        have i2: "2 \<le> i" using 2 j by simp
        have "i div 2 \<noteq> i" "i div 2 \<noteq> s" using i2 sr by auto
        then have "hkey ?h1 (i div 2) = hkey h (i div 2)" using ko[of "i div 2"] i2 by simp
        moreover have "hkey h (i div 2) \<le> hkey h s" using second[of s] sr i2 by simp
        ultimately show ?thesis using 2 ki by simp
      next
        case 3
        have "hkey h s \<le> hkey h j" using child[OF 3(3)] s(5,6) j by auto
        moreover have "hkey ?h1 j = hkey h j" using ko[of j] j0 3 by simp
        ultimately show ?thesis using 3 ki by simp
      next
        case 4
        have "hkey h (j div 2) \<le> hkey h j" using first[of j] j 4 by simp
        moreover have "hkey ?h1 j = hkey h j" using ko[of j] j0 4 by simp
        moreover have "hkey ?h1 (j div 2) = hkey h (j div 2)" using ko[of "j div 2"] j0 4 j by simp
        ultimately show ?thesis by simp
      qed
    next
      fix j assume j: "2 \<le> j \<and> j \<le> sz \<and> j div 2 = s \<and> 2 \<le> s"
      then have j0: "0 \<le> j" by auto
      have "j \<noteq> i" "j \<noteq> s" using j sr by auto
      then have "hkey ?h1 j = hkey h j" using ko[of j] j0 by simp
      moreover have "hkey h s \<le> hkey h j" using first[of j] j False by simp
      ultimately show "hkey ?h1 (s div 2) \<le> hkey ?h1 j" using sr(3) ki by simp
    qed
    have "\<exists>h'. heapifyDown ?h1 sz s = Some h' \<and> length h' = length ?h1 \<and> heap_ord h' sz \<and>
           heap_entries h' sz = heap_entries ?h1 sz"
    proof (rule "1.IH"[OF s(1) False sw _ sr(2) _ "1.prems"(4) inv1])
      show "1 \<le> s" using sr by simp
      show "sz < int (length ?h1)" using "1.prems"(3) by simp
    qed
    then obtain h' where h': "heapifyDown ?h1 sz s = Some h'" "length h' = length ?h1" "heap_ord h' sz"
        "heap_entries h' sz = heap_entries ?h1 sz"
      by blast
    have "heap_entries ?h1 sz = heap_entries h sz"
      using heap_entries_swap[of i sz s h] "1.prems" sr by simp
    then show ?thesis using step h' by simp
  qed
qed

definition heap_inv :: "MinHeap \<Rightarrow> bool" where
  "heap_inv pq =
     (0 \<le> h_size pq \<and> h_size pq \<le> capacity pq \<and> int (length (heap pq)) = capacity pq + 1 \<and>
      capacity pq < 1073741824 \<and> heap_ord (heap pq) (h_size pq))"

definition pq_entries :: "MinHeap \<Rightarrow> PQNode multiset" where
  "pq_entries pq = heap_entries (heap pq) (h_size pq)"

lemma heap_root_min:
  assumes "heap_ord h sz" "1 \<le> j" "j \<le> sz"
  shows "hkey h 1 \<le> hkey h j"
proof -
  have "\<And>j. 1 \<le> j \<Longrightarrow> j \<le> sz \<Longrightarrow> nat j = n \<Longrightarrow> hkey h 1 \<le> hkey h j" for n
  proof (induction n rule: less_induct)
    case (less n)
    show ?case
    proof (cases "j = 1")
      case True
      then show ?thesis by simp
    next
      case False
      then have j2: "2 \<le> j" using less.prems by simp
      have "hkey h (j div 2) \<le> hkey h j" using assms(1) j2 less.prems unfolding heap_ord_def by simp
      moreover have "hkey h 1 \<le> hkey h (j div 2)"
        using less.IH[of "nat (j div 2)" "j div 2"] j2 less.prems by auto
      ultimately show ?thesis by simp
    qed
  qed
  then show ?thesis using assms by blast
qed

lemma heap_entries_nth:
  assumes "e \<in># heap_entries h sz" "sz < int (length h)"
  shows "\<exists>j. 1 \<le> j \<and> j \<le> sz \<and> e = h ! nat j"
proof -
  from assms(1) have "e \<in> set (take (nat sz) (drop 1 h))" by (simp add: heap_entries_def)
  then obtain k where k: "k < length (take (nat sz) (drop 1 h))" "e = take (nat sz) (drop 1 h) ! k"
    by (auto simp: in_set_conv_nth)
  then have "k < nat sz" "e = h ! (Suc k)" using assms(2) by auto
  moreover have "nat (int k + 1) = Suc k" by (simp add: nat_add_distrib)
  ultimately have "1 \<le> int k + 1 \<and> int k + 1 \<le> sz \<and> e = h ! nat (int k + 1)" by auto
  then show ?thesis by blast
qed

lemma heap_entries_snoc:
  assumes "0 \<le> sz" "sz + 1 < int (length h)"
  shows "heap_entries (h[nat (sz + 1) := x]) (sz + 1) = add_mset x (heap_entries h sz)"
proof -
  have n: "nat (sz + 1) = Suc (nat sz)" using assms by (simp add: nat_add_distrib)
  have l: "nat sz < length (drop 1 h)" using assms by auto
  have "take (Suc (nat sz)) (drop 1 (h[Suc (nat sz) := x])) = take (nat sz) (drop 1 h) @ [x]"
    using l by (simp add: drop_update_swap take_Suc_conv_app_nth)
  then show ?thesis by (simp add: heap_entries_def n)
qed

lemma MinHeap_push_full:
  "h_size pq \<ge> capacity pq \<Longrightarrow> MinHeap_push pq v k = Some pq"
  by (simp add: MinHeap_push_def)

lemma MinHeap_push_correct:
  assumes "heap_inv pq" "h_size pq < capacity pq"
  shows "\<exists>pq'. MinHeap_push pq v k = Some pq' \<and> heap_inv pq' \<and>
           pq_entries pq' = add_mset \<lparr>pq_vertex = v, pq_key = k\<rparr> (pq_entries pq) \<and>
           capacity pq' = capacity pq \<and> h_size pq' = h_size pq + 1"
proof -
  let ?h = "heap pq" and ?sz = "h_size pq + 1" and ?x = "\<lparr>pq_vertex = v, pq_key = k\<rparr>"
  let ?h1 = "?h[nat ?sz := ?x]"
  have inv: "0 \<le> h_size pq" "int (length ?h) = capacity pq + 1" "capacity pq < 1073741824"
    "heap_ord ?h (h_size pq)"
    using assms(1) by (auto simp: heap_inv_def)
  have a: "add32 (h_size pq) 1 = Some ?sz"
    using inv assms(2) by (simp add: add32_def INT_MIN_def INT_MAX_def)
  have s: "aset ?h ?sz ?x = Some ?h1" using inv assms(2) by (simp add: aset_def)
  have up: "up_inv ?h1 ?sz ?sz" unfolding up_inv_def
  proof (intro conjI allI impI)
    fix j assume j: "2 \<le> j \<and> j \<le> ?sz \<and> j \<noteq> ?sz"
    then have "nat j \<noteq> nat ?sz" "nat (j div 2) \<noteq> nat ?sz" using inv by (auto simp: nat_eq_iff)
    then have "hkey ?h1 j = hkey ?h j" "hkey ?h1 (j div 2) = hkey ?h (j div 2)" by (simp_all add: hkey_def)
    moreover have "hkey ?h (j div 2) \<le> hkey ?h j" using inv(4) j unfolding heap_ord_def by simp
    ultimately show "hkey ?h1 (j div 2) \<le> hkey ?h1 j" by simp
  next
    fix j assume "2 \<le> j \<and> j \<le> ?sz \<and> j div 2 = ?sz \<and> 2 \<le> ?sz"
    then have False by presburger
    then show "hkey ?h1 (?sz div 2) \<le> hkey ?h1 j" ..
  qed
  have "\<exists>h'. heapifyUp ?h1 ?sz = Some h' \<and> length h' = length ?h1 \<and> heap_ord h' ?sz \<and>
           heap_entries h' ?sz = heap_entries ?h1 ?sz"
    by (rule heapifyUp_correct[OF _ _ _ up]) (use inv assms(2) in auto)
  then obtain h2 where h2: "heapifyUp ?h1 ?sz = Some h2" "length h2 = length ?h1" "heap_ord h2 ?sz"
      "heap_entries h2 ?sz = heap_entries ?h1 ?sz"
    by blast
  let ?pq' = "pq\<lparr>heap := h2, h_size := ?sz\<rparr>"
  have res: "MinHeap_push pq v k = Some ?pq'"
    using assms(2) a s h2(1) by (simp add: MinHeap_push_def)
  have e: "heap_entries ?h1 ?sz = add_mset ?x (heap_entries ?h (h_size pq))"
    using heap_entries_snoc[of "h_size pq" ?h ?x] inv assms(2) by simp
  have "heap_inv ?pq'" using inv assms(2) h2 by (simp add: heap_inv_def)
  moreover have "pq_entries ?pq' = add_mset ?x (pq_entries pq)"
    using h2(4) e by (simp add: pq_entries_def)
  ultimately show ?thesis using res by simp
qed

lemma heap_entries_pop:
  assumes "1 \<le> sz" "sz < int (length h)"
  shows "heap_entries h sz = add_mset (h ! 1) (heap_entries (h[1 := h ! nat sz]) (sz - 1))"
proof -
  obtain k where k: "nat sz = Suc k" using assms by (cases "nat sz") auto
  let ?xs = "drop 1 h"
  have l: "k < length ?xs" using assms k by auto
  have x0: "?xs ! 0 = h ! 1" using assms by simp
  have xk: "?xs ! k = h ! nat sz" using assms k by simp
  have a: "take (Suc k) ?xs = take k ?xs @ [?xs ! k]" using l by (simp add: take_Suc_conv_app_nth)
  have b: "take k (?xs[0 := ?xs ! k]) = (take k ?xs)[0 := ?xs ! k]" by (simp add: take_update_swap)
  have c: "drop 1 (h[1 := h ! nat sz]) = ?xs[0 := ?xs ! k]" using xk by (simp add: drop_update_swap)
  have n1: "nat (sz - 1) = k" using k by simp
  have L: "heap_entries h sz = mset (take (Suc k) ?xs)" unfolding heap_entries_def k ..
  have R: "heap_entries (h[1 := h ! nat sz]) (sz - 1) = mset (take k (?xs[0 := ?xs ! k]))"
    unfolding heap_entries_def n1 c ..
  show ?thesis
  proof (cases "take k ?xs")
    case Nil
    then have "k = 0" using l by auto
    then show ?thesis unfolding L R using a x0 by simp
  next
    case (Cons y0 ys)
    then have k0: "0 < k" by (cases k) auto
    have "take k ?xs ! 0 = ?xs ! 0" using k0 by simp
    then have y0: "y0 = h ! 1" using Cons x0 by simp
    have "mset (take (Suc k) ?xs) = add_mset (?xs ! k) (add_mset y0 (mset ys))"
      unfolding a Cons by simp
    moreover have "mset (take k (?xs[0 := ?xs ! k])) = add_mset (?xs ! k) (mset ys)"
      unfolding b Cons by simp
    ultimately show ?thesis
      unfolding L R y0 by simp
  qed
qed

lemma MinHeap_pop_correct:
  assumes "heap_inv pq" "0 < h_size pq"
  shows "\<exists>tp pq'. MinHeap_pop pq = Some (tp, pq') \<and> heap_inv pq' \<and>
           pq_entries pq = add_mset tp (pq_entries pq') \<and>
           (\<forall>e. e \<in># pq_entries pq \<longrightarrow> pq_key tp \<le> pq_key e) \<and>
           capacity pq' = capacity pq \<and> h_size pq' = h_size pq - 1"
proof -
  let ?h = "heap pq" and ?n = "h_size pq" and ?sz = "h_size pq - 1"
  let ?h1 = "?h[1 := ?h ! nat ?n]"
  have inv: "?n \<le> capacity pq" "int (length ?h) = capacity pq + 1" "capacity pq < 1073741824"
    "heap_ord ?h ?n"
    using assms(1) by (auto simp: heap_inv_def)
  have g1: "aget ?h 1 = Some (?h ! 1)" using inv assms(2) by (simp add: aget_def)
  have g2: "aget ?h ?n = Some (?h ! nat ?n)" using inv assms(2) by (simp add: aget_def)
  have s1: "aset ?h 1 (?h ! nat ?n) = Some ?h1" using inv assms(2) by (simp add: aset_def)
  have a: "add32 ?n (- 1) = Some ?sz" using inv assms(2) by (simp add: add32_def INT_MIN_def INT_MAX_def)
  have "\<exists>h2. (if ?sz > 0 then heapifyDown ?h1 ?sz 1 else Some ?h1) = Some h2 \<and>
          length h2 = length ?h \<and> heap_ord h2 ?sz \<and> heap_entries h2 ?sz = heap_entries ?h1 ?sz"
  proof (cases "?sz > 0")
    case False
    then have "heap_ord ?h1 ?sz" unfolding heap_ord_def by auto
    then show ?thesis using False by simp
  next
    case True
    have d: "down_inv ?h1 ?sz 1" unfolding down_inv_def
    proof (intro conjI allI impI)
      fix j assume j: "2 \<le> j \<and> j \<le> ?sz \<and> j div 2 \<noteq> 1"
      then have "nat j \<noteq> 1" "nat (j div 2) \<noteq> 1" by (auto simp: nat_eq_iff)
      then have "hkey ?h1 j = hkey ?h j" "hkey ?h1 (j div 2) = hkey ?h (j div 2)" by (simp_all add: hkey_def)
      moreover have "hkey ?h (j div 2) \<le> hkey ?h j" using inv(4) j unfolding heap_ord_def by simp
      ultimately show "hkey ?h1 (j div 2) \<le> hkey ?h1 j" by simp
    next
      fix j assume "2 \<le> j \<and> j \<le> ?sz \<and> j div 2 = 1 \<and> (2::int) \<le> 1"
      then show "hkey ?h1 (1 div 2) \<le> hkey ?h1 j" by simp
    qed
    have "\<exists>h'. heapifyDown ?h1 ?sz 1 = Some h' \<and> length h' = length ?h1 \<and> heap_ord h' ?sz \<and>
           heap_entries h' ?sz = heap_entries ?h1 ?sz"
      by (rule heapifyDown_correct[OF _ _ _ _ d]) (use inv True in auto)
    then show ?thesis using True by simp
  qed
  then obtain h2 where h2: "(if ?sz > 0 then heapifyDown ?h1 ?sz 1 else Some ?h1) = Some h2"
    "length h2 = length ?h" "heap_ord h2 ?sz" "heap_entries h2 ?sz = heap_entries ?h1 ?sz"
    by blast
  let ?pq' = "pq\<lparr>heap := h2, h_size := ?sz\<rparr>"
  have res: "MinHeap_pop pq = Some (?h ! 1, ?pq')"
    using assms(2) g1 g2 s1 a h2(1) by (auto simp: MinHeap_pop_def split: if_splits)
  have inv': "heap_inv ?pq'" using inv assms(2) h2 by (simp add: heap_inv_def)
  have ent: "pq_entries pq = add_mset (?h ! 1) (pq_entries ?pq')"
    using heap_entries_pop[of ?n ?h] inv assms(2) h2(4) by (simp add: pq_entries_def)
  have mn: "pq_key (?h ! 1) \<le> pq_key e" if "e \<in># pq_entries pq" for e
  proof -
    from heap_entries_nth[of e ?h ?n] that inv obtain j where
      j: "1 \<le> j" "j \<le> ?n" "e = ?h ! nat j" by (auto simp: pq_entries_def)
    from heap_root_min[OF inv(4) j(1,2)] show ?thesis using j(3) by (simp add: hkey_def)
  qed
  show ?thesis using res inv' ent mn by auto
qed

lemma MinHeap_new_correct:
  assumes "0 \<le> cap" "cap < 1073741824"
  shows "\<exists>pq. MinHeap_new cap = Some pq \<and> heap_inv pq \<and> pq_entries pq = {#} \<and>
           capacity pq = cap \<and> h_size pq = 0"
proof -
  have "add32 cap 1 = Some (cap + 1)" using assms by (simp add: add32_def INT_MIN_def INT_MAX_def)
  moreover have "new_array (cap + 1) \<lparr>pq_vertex = 0, pq_key = 0\<rparr>
      = Some (replicate (nat (cap + 1)) \<lparr>pq_vertex = 0, pq_key = 0\<rparr>)"
    using assms by (simp add: new_array_def)
  ultimately have "MinHeap_new cap =
      Some \<lparr>heap = replicate (nat (cap + 1)) \<lparr>pq_vertex = 0, pq_key = 0\<rparr>, h_size = 0, capacity = cap\<rparr>"
    by (simp add: MinHeap_new_def)
  then show ?thesis using assms
    by (simp add: heap_inv_def pq_entries_def heap_entries_def heap_ord_def)
qed

section \<open>dijkstra with a start index out of range\<close>

text \<open>
  Claim C6, as stated, fails: in a graph of three vertices the start index 3 gives the
  text \<^verbatim>\<open>[]\<close>, not three sentinel entries.
\<close>

theorem dijkstra_invalid_start_counterexample:
  "g_n example_digraph = 3 \<and> dijkstra example_digraph 3 = Some ''[]'' \<and>
   dijkstra example_digraph 3 \<noteq> Some (seq_text (replicate 3 999999))"
proof -
  have "dijkstra example_digraph 3 = Some ''[]''"
    by (simp add: dijkstra_def example_digraph_def)
  moreover have "seq_text (replicate 3 999999) = ''[999999,999999,999999]''"
    by code_simp
  ultimately show ?thesis by (simp add: example_digraph_def)
qed

text \<open>
  Claim C6, amended.  For every graph and every start index outside \<open>[0, vertexCount)\<close>,
  \<^verbatim>\<open>dijkstra\<close> returns the text of the empty sequence, \<^verbatim>\<open>[]\<close>, whatever the vertex
  count: the guard in its first line returns before any distance is initialised.
\<close>

theorem dijkstra_invalid_start:
  assumes "start < 0 \<or> start \<ge> g_n g"
  shows "dijkstra g start = Some (seq_text [])"
  using assms by (auto simp: dijkstra_def seq_text_def)

theorem dijkstra_invalid_start_witness:
  "dijkstra example_digraph 3 = Some ''[]'' \<and> dijkstra example_digraph (- 1) = Some ''[]''"
  using dijkstra_invalid_start[of 3 example_digraph] dijkstra_invalid_start[of "- 1" example_digraph]
  by (simp add: example_digraph_def seq_text_def)

section \<open>The AVL tree keeps its invariants\<close>

fun grew :: "avl \<Rightarrow> int \<Rightarrow> bool" where
  "grew Null x = False"
| "grew (Node k h l r) x =
     ((x < k \<and> height l = height r + 1) \<or> (x > k \<and> height r = height l + 1))"

lemma keys_inorder: "keys t = set (inorder t)"
  by (induction t) auto

lemma bst_inorder: "bst t = sorted_wrt (<) (inorder t)"
proof (induction t)
  case Null
  show ?case by simp
next
  case (Node k h l r)
  have "(\<forall>x\<in>set (inorder l). \<forall>y\<in>set ([k] @ inorder r). x < y) =
        ((\<forall>x \<in> set (inorder l). x < k) \<and>
         (\<forall>x\<in>set (inorder l). \<forall>y\<in>set (inorder r). x < y))"
    by auto
  moreover have "(\<forall>x \<in> set (inorder l). x < k) \<Longrightarrow> (\<forall>y \<in> set (inorder r). k < y) \<Longrightarrow>
        (\<forall>x\<in>set (inorder l). \<forall>y\<in>set (inorder r). x < y)"
    by (meson order.strict_trans)
  ultimately show ?case using Node by (auto simp: sorted_wrt_append keys_inorder)
qed

lemma height_nonneg: "avl_ok t \<Longrightarrow> 0 \<le> height t"
  by (induction t) auto

lemma height_pos: "avl_ok t \<Longrightarrow> t \<noteq> Null \<Longrightarrow> 1 \<le> height t"
  using height_nonneg by (cases t) (auto simp: max_def)

lemma height_Null: "avl_ok t \<Longrightarrow> height t \<le> 0 \<Longrightarrow> t = Null"
  using height_pos[of t] by auto

lemma insert_rebalance_left:
  assumes "avl_ok l'" "avl_ok r" "height r - 1 \<le> height l'" "height l' \<le> height r + 2"
    and "height l' = height r + 2 \<Longrightarrow> grew l' x"
  shows "\<exists>t'. insert_rebalance (Node k h l' r) x = Some t' \<and> avl_ok t' \<and>
           inorder t' = inorder l' @ [k] @ inorder r \<and>
           height t' = (if height l' = height r + 2 then height r + 2
                        else 1 + max (height l') (height r)) \<and>
           (x < k \<and> height l' = height r + 1 \<longrightarrow> grew t' x)"
proof (cases "height l' = height r + 2")
  case False
  then show ?thesis using assms by (auto simp: max_def)
next
  case True
  have hr: "0 \<le> height r" using assms(2) by (rule height_nonneg)
  then obtain lk lh ll lr where l': "l' = Node lk lh ll lr" using True by (cases l') auto
  have g: "(x < lk \<and> height ll = height lr + 1) \<or> (x > lk \<and> height lr = height ll + 1)"
    using assms(5)[OF True] l' by simp
  have okl: "avl_ok ll" "avl_ok lr" "lh = 1 + max (height ll) (height lr)"
    using assms(1) l' by auto
  from g show ?thesis
  proof
    assume a: "x < lk \<and> height ll = height lr + 1"
    then show ?thesis using True l' okl assms(2) hr by (auto simp: max_def)
  next
    assume a: "x > lk \<and> height lr = height ll + 1"
    have "0 \<le> height ll" using okl(1) by (rule height_nonneg)
    then obtain mk mh ml mr where lr: "lr = Node mk mh ml mr" using a by (cases lr) auto
    have okm: "avl_ok ml" "avl_ok mr" "mh = 1 + max (height ml) (height mr)"
      "\<bar>height ml - height mr\<bar> \<le> 1"
      using okl(2) lr by auto
    show ?thesis using True l' lr okl okm a assms(2) hr by (auto simp: max_def Let_def split: if_splits)
  qed
qed

lemma insert_rebalance_right:
  assumes "avl_ok l" "avl_ok r'" "height l - 1 \<le> height r'" "height r' \<le> height l + 2"
    and "height r' = height l + 2 \<Longrightarrow> grew r' x"
  shows "\<exists>t'. insert_rebalance (Node k h l r') x = Some t' \<and> avl_ok t' \<and>
           inorder t' = inorder l @ [k] @ inorder r' \<and>
           height t' = (if height r' = height l + 2 then height l + 2
                        else 1 + max (height l) (height r')) \<and>
           (x > k \<and> height r' = height l + 1 \<longrightarrow> grew t' x)"
proof (cases "height r' = height l + 2")
  case False
  then show ?thesis using assms by (auto simp: max_def)
next
  case True
  have hl: "0 \<le> height l" using assms(1) by (rule height_nonneg)
  then obtain rk rh rl rr where r': "r' = Node rk rh rl rr" using True by (cases r') auto
  have g: "(x < rk \<and> height rl = height rr + 1) \<or> (x > rk \<and> height rr = height rl + 1)"
    using assms(5)[OF True] r' by simp
  have okr: "avl_ok rl" "avl_ok rr" "rh = 1 + max (height rl) (height rr)"
    using assms(2) r' by auto
  from g show ?thesis
  proof
    assume a: "x > rk \<and> height rr = height rl + 1"
    then show ?thesis using True r' okr assms(1) hl by (auto simp: max_def)
  next
    assume a: "x < rk \<and> height rl = height rr + 1"
    have "0 \<le> height rr" using okr(2) by (rule height_nonneg)
    then obtain mk mh ml mr where rl: "rl = Node mk mh ml mr" using a by (cases rl) auto
    have okm: "avl_ok ml" "avl_ok mr" "mh = 1 + max (height ml) (height mr)"
      "\<bar>height ml - height mr\<bar> \<le> 1"
      using okr(1) rl by auto
    show ?thesis using True r' rl okr okm a assms(1) hl by (auto simp: max_def Let_def split: if_splits)
  qed
qed

lemma insert_avl_correct:
  assumes "avl_ok t"
  shows "\<exists>t'. insert_avl t x = Some t' \<and> avl_ok t' \<and>
           (height t' = height t \<or> height t' = height t + 1) \<and>
           (height t' = height t + 1 \<longrightarrow> t = Null \<or> grew t' x) \<and>
           (bst t \<longrightarrow> bst t' \<and> keys t' = insert x (keys t))"
  using assms
proof (induction t)
  case Null
  show ?case by simp
next
  case (Node k h l r)
  have ok: "avl_ok l" "avl_ok r" "\<bar>height l - height r\<bar> \<le> 1" "h = 1 + max (height l) (height r)"
    using Node.prems by auto
  consider "x < k" | "x > k" | "x = k" by linarith
  then show ?case
  proof cases
    case 3
    then show ?thesis using Node.prems by auto
  next
    case 1
    from Node.IH(1)[OF ok(1)] obtain l' where
      l': "insert_avl l x = Some l'" "avl_ok l'"
        "height l' = height l \<or> height l' = height l + 1"
        "height l' = height l + 1 \<longrightarrow> l = Null \<or> grew l' x"
        "bst l \<longrightarrow> bst l' \<and> keys l' = insert x (keys l)"
      by blast
    have hr: "0 \<le> height r" using ok(2) by (rule height_nonneg)
    have g: "grew l' x" if "height l' = height r + 2"
    proof -
      have "height l' = height l + 1" "1 \<le> height l" using that l'(3) ok(3) hr by auto
      then show ?thesis using l'(4) by auto
    qed
    have "\<exists>t'. insert_rebalance (Node k h l' r) x = Some t' \<and> avl_ok t' \<and>
           inorder t' = inorder l' @ [k] @ inorder r \<and>
           height t' = (if height l' = height r + 2 then height r + 2
                        else 1 + max (height l') (height r)) \<and>
           (x < k \<and> height l' = height r + 1 \<longrightarrow> grew t' x)"
      by (rule insert_rebalance_left[OF l'(2) ok(2) _ _ g]) (use l'(3) ok(3) in auto)
    then obtain t' where
      t': "insert_rebalance (Node k h l' r) x = Some t'" "avl_ok t'"
        "inorder t' = inorder l' @ [k] @ inorder r"
        "height t' = (if height l' = height r + 2 then height r + 2
                        else 1 + max (height l') (height r))"
        "x < k \<and> height l' = height r + 1 \<longrightarrow> grew t' x"
      by blast
    have res: "insert_avl (Node k h l r) x = Some t'" using 1 l'(1) t'(1) by simp
    have hh: "height t' = h \<or> height t' = h + 1"
      using t'(4) l'(3) ok(3,4) by (auto simp: max_def split: if_splits)
    have gg: "grew t' x" if "height t' = h + 1"
    proof -
      have "height l' = height r + 1" using that t'(4) l'(3) ok(3,4) by (auto simp: max_def split: if_splits)
      then show ?thesis using t'(5) 1 by simp
    qed
    have bb: "bst t' \<and> keys t' = insert x (keys (Node k h l r))" if "bst (Node k h l r)"
    proof -
      have b: "bst l" "bst r" "\<forall>y \<in> keys l. y < k" "\<forall>y \<in> keys r. k < y" using that by auto
      then have "bst (Node k h l' r)" using l'(5) 1 by auto
      then have "bst t'" using t'(3) by (simp add: bst_inorder)
      moreover have "keys t' = keys (Node k h l' r)" using t'(3) by (simp add: keys_inorder)
      ultimately show ?thesis using l'(5) b by auto
    qed
    show ?thesis using res t'(2) hh gg bb by auto
  next
    case 2
    from Node.IH(2)[OF ok(2)] obtain r' where
      r': "insert_avl r x = Some r'" "avl_ok r'"
        "height r' = height r \<or> height r' = height r + 1"
        "height r' = height r + 1 \<longrightarrow> r = Null \<or> grew r' x"
        "bst r \<longrightarrow> bst r' \<and> keys r' = insert x (keys r)"
      by blast
    have hl: "0 \<le> height l" using ok(1) by (rule height_nonneg)
    have g: "grew r' x" if "height r' = height l + 2"
    proof -
      have "height r' = height r + 1" "1 \<le> height r" using that r'(3) ok(3) hl by auto
      then show ?thesis using r'(4) by auto
    qed
    have "\<exists>t'. insert_rebalance (Node k h l r') x = Some t' \<and> avl_ok t' \<and>
           inorder t' = inorder l @ [k] @ inorder r' \<and>
           height t' = (if height r' = height l + 2 then height l + 2
                        else 1 + max (height l) (height r')) \<and>
           (x > k \<and> height r' = height l + 1 \<longrightarrow> grew t' x)"
      by (rule insert_rebalance_right[OF ok(1) r'(2) _ _ g]) (use r'(3) ok(3) in auto)
    then obtain t' where
      t': "insert_rebalance (Node k h l r') x = Some t'" "avl_ok t'"
        "inorder t' = inorder l @ [k] @ inorder r'"
        "height t' = (if height r' = height l + 2 then height l + 2
                        else 1 + max (height l) (height r'))"
        "x > k \<and> height r' = height l + 1 \<longrightarrow> grew t' x"
      by blast
    have res: "insert_avl (Node k h l r) x = Some t'" using 2 r'(1) t'(1) by simp
    have hh: "height t' = h \<or> height t' = h + 1"
      using t'(4) r'(3) ok(3,4) by (auto simp: max_def split: if_splits)
    have gg: "grew t' x" if "height t' = h + 1"
    proof -
      have "height r' = height l + 1" using that t'(4) r'(3) ok(3,4) by (auto simp: max_def split: if_splits)
      then show ?thesis using t'(5) 2 by simp
    qed
    have bb: "bst t' \<and> keys t' = insert x (keys (Node k h l r))" if "bst (Node k h l r)"
    proof -
      have b: "bst l" "bst r" "\<forall>y \<in> keys l. y < k" "\<forall>y \<in> keys r. k < y" using that by auto
      then have "bst (Node k h l r')" using r'(5) 2 by auto
      then have "bst t'" using t'(3) by (simp add: bst_inorder)
      moreover have "keys t' = keys (Node k h l r')" using t'(3) by (simp add: keys_inorder)
      ultimately show ?thesis using r'(5) b by auto
    qed
    show ?thesis using res t'(2) hh gg bb by auto
  qed
qed

lemma remove_rebalance_correct:
  assumes "avl_ok l" "avl_ok r" "\<bar>height l - height r\<bar> \<le> 2"
  shows "\<exists>t'. remove_rebalance (Node k h l r) = Some t' \<and> avl_ok t' \<and>
           inorder t' = inorder l @ [k] @ inorder r \<and>
           (if \<bar>height l - height r\<bar> \<le> 1 then height t' = 1 + max (height l) (height r)
            else height t' = max (height l) (height r) \<or>
                 height t' = 1 + max (height l) (height r))"
proof -
  have hl: "0 \<le> height l" and hr: "0 \<le> height r" using assms height_nonneg by auto
  consider "\<bar>height l - height r\<bar> \<le> 1" | "height l = height r + 2" | "height r = height l + 2"
    using assms(3) by linarith
  then show ?thesis
  proof cases
    case 1
    then show ?thesis using assms by (auto simp: max_def)
  next
    case 2
    then obtain lk lh ll lr where l: "l = Node lk lh ll lr" using hr by (cases l) auto
    have okl: "avl_ok ll" "avl_ok lr" "lh = 1 + max (height ll) (height lr)"
      "\<bar>height ll - height lr\<bar> \<le> 1"
      using assms(1) l by auto
    show ?thesis
    proof (cases "height ll \<ge> height lr")
      case True
      then show ?thesis using 2 l okl assms(2) hr by (auto simp: max_def Let_def split: if_splits)
    next
      case False
      have "0 \<le> height ll" using okl(1) by (rule height_nonneg)
      then obtain mk mh ml mr where lr: "lr = Node mk mh ml mr" using False by (cases lr) auto
      have okm: "avl_ok ml" "avl_ok mr" "mh = 1 + max (height ml) (height mr)"
        "\<bar>height ml - height mr\<bar> \<le> 1"
        using okl(2) lr by auto
      show ?thesis using 2 l lr okl okm False assms(2) hr
        by (auto simp: max_def Let_def split: if_splits)
    qed
  next
    case 3
    then obtain rk rh rl rr where r: "r = Node rk rh rl rr" using hl by (cases r) auto
    have okr: "avl_ok rl" "avl_ok rr" "rh = 1 + max (height rl) (height rr)"
      "\<bar>height rl - height rr\<bar> \<le> 1"
      using assms(2) r by auto
    show ?thesis
    proof (cases "height rl \<le> height rr")
      case True
      then show ?thesis using 3 r okr assms(1) hl by (auto simp: max_def Let_def split: if_splits)
    next
      case False
      have "0 \<le> height rr" using okr(2) by (rule height_nonneg)
      then obtain mk mh ml mr where rl: "rl = Node mk mh ml mr" using False by (cases rl) auto
      have okm: "avl_ok ml" "avl_ok mr" "mh = 1 + max (height ml) (height mr)"
        "\<bar>height ml - height mr\<bar> \<le> 1"
        using okr(1) rl by auto
      show ?thesis using 3 r rl okr okm False assms(1) hl
        by (auto simp: max_def Let_def split: if_splits)
    qed
  qed
qed

lemma minValueNode_correct:
  assumes "t \<noteq> Null"
  shows "\<exists>m mk. minValueNode t = Some m \<and> key_of m = Some mk \<and> mk \<in> keys t \<and>
           (bst t \<longrightarrow> (\<forall>y \<in> keys t. mk \<le> y))"
  using assms
proof (induction t)
  case Null
  then show ?case by simp
next
  case (Node k h l r)
  show ?case
  proof (cases "l = Null")
    case True
    then show ?thesis by auto
  next
    case False
    from Node.IH(1)[OF False] obtain m mk where
      m: "minValueNode l = Some m" "key_of m = Some mk" "mk \<in> keys l"
        "bst l \<longrightarrow> (\<forall>y \<in> keys l. mk \<le> y)"
      by blast
    have "\<forall>y \<in> keys (Node k h l r). mk \<le> y" if "bst (Node k h l r)"
    proof -
      have "mk < k" using that m(3) by auto
      then show ?thesis using that m(4) by fastforce
    qed
    then show ?thesis using False m by auto
  qed
qed

lemma remove_rebalance_ok:
  assumes "avl_ok t"
  shows "remove_rebalance t = Some t"
  using assms by (cases t) (auto simp: max_def)

lemma remove_node_step:
  assumes "avl_ok l'" "avl_ok r'" 
    and "\<bar>height l - height r\<bar> \<le> 1"
    and "(height l' = height l \<or> height l' = height l - 1) \<and> r' = r \<or>
         (height r' = height r \<or> height r' = height r - 1) \<and> l' = l"
  shows "\<exists>t'. remove_rebalance (Node k h l' r') = Some t' \<and> avl_ok t' \<and>
           inorder t' = inorder l' @ [k] @ inorder r' \<and>
           (height t' = 1 + max (height l) (height r) \<or> height t' = max (height l) (height r))"
proof -
  have d: "\<bar>height l' - height r'\<bar> \<le> 2" using assms(3,4) by auto
  from remove_rebalance_correct[OF assms(1,2) d, of k h] obtain t' where
    t': "remove_rebalance (Node k h l' r') = Some t'" "avl_ok t'"
      "inorder t' = inorder l' @ [k] @ inorder r'"
      "if \<bar>height l' - height r'\<bar> \<le> 1 then height t' = 1 + max (height l') (height r')
       else height t' = max (height l') (height r') \<or> height t' = 1 + max (height l') (height r')"
    by blast
  have "height t' = 1 + max (height l) (height r) \<or> height t' = max (height l) (height r)"
    using t'(4) assms(3,4) by (auto simp: max_def split: if_splits)
  then show ?thesis using t' by blast
qed

lemma remove_avl_correct:
  assumes "avl_ok t"
  shows "\<exists>t'. remove_avl t x = Some t' \<and> avl_ok t' \<and>
           (height t' = height t \<or> height t' = height t - 1) \<and>
           (bst t \<longrightarrow> bst t' \<and> keys t' = keys t - {x})"
  using assms
proof (induction t arbitrary: x)
  case Null
  show ?case by simp
next
  case (Node k h l r)
  have ok: "avl_ok l" "avl_ok r" "\<bar>height l - height r\<bar> \<le> 1" "h = 1 + max (height l) (height r)"
    using Node.prems by auto
  consider "x < k" | "x > k" | "x = k" "l = Null \<or> r = Null" | "x = k" "l \<noteq> Null" "r \<noteq> Null"
    by (cases "l = Null \<or> r = Null"; cases "x < k"; cases "x > k") auto
  then show ?case
  proof cases
    case 1
    from Node.IH(1)[OF ok(1), of x] obtain l' where
      l': "remove_avl l x = Some l'" "avl_ok l'"
        "height l' = height l \<or> height l' = height l - 1"
        "bst l \<longrightarrow> bst l' \<and> keys l' = keys l - {x}"
      by blast
    from remove_node_step[OF l'(2) ok(2) ok(3), of k h] l'(3) obtain t' where
      t': "remove_rebalance (Node k h l' r) = Some t'" "avl_ok t'"
        "inorder t' = inorder l' @ [k] @ inorder r"
        "height t' = 1 + max (height l) (height r) \<or> height t' = max (height l) (height r)"
      by blast
    have res: "remove_avl (Node k h l r) x = Some t'" using 1 l'(1) t'(1) by simp
    have bb: "bst t' \<and> keys t' = keys (Node k h l r) - {x}" if "bst (Node k h l r)"
    proof -
      have b: "bst l" "bst r" "\<forall>y \<in> keys l. y < k" "\<forall>y \<in> keys r. k < y" using that by auto
      then have "bst (Node k h l' r)" using l'(4) by auto
      then have "bst t'" using t'(3) by (simp add: bst_inorder)
      moreover have "keys t' = keys (Node k h l' r)" using t'(3) by (simp add: keys_inorder)
      ultimately show ?thesis using l'(4) b 1 by auto
    qed
    show ?thesis using res t'(2,4) ok(4) bb by auto
  next
    case 2
    from Node.IH(2)[OF ok(2), of x] obtain r' where
      r': "remove_avl r x = Some r'" "avl_ok r'"
        "height r' = height r \<or> height r' = height r - 1"
        "bst r \<longrightarrow> bst r' \<and> keys r' = keys r - {x}"
      by blast
    from remove_node_step[OF ok(1) r'(2) ok(3), of k h] r'(3) obtain t' where
      t': "remove_rebalance (Node k h l r') = Some t'" "avl_ok t'"
        "inorder t' = inorder l @ [k] @ inorder r'"
        "height t' = 1 + max (height l) (height r) \<or> height t' = max (height l) (height r)"
      by blast
    have res: "remove_avl (Node k h l r) x = Some t'" using 2 r'(1) t'(1) by simp
    have bb: "bst t' \<and> keys t' = keys (Node k h l r) - {x}" if "bst (Node k h l r)"
    proof -
      have b: "bst l" "bst r" "\<forall>y \<in> keys l. y < k" "\<forall>y \<in> keys r. k < y" using that by auto
      then have "bst (Node k h l r')" using r'(4) by auto
      then have "bst t'" using t'(3) by (simp add: bst_inorder)
      moreover have "keys t' = keys (Node k h l r')" using t'(3) by (simp add: keys_inorder)
      ultimately show ?thesis using r'(4) b 2 by auto
    qed
    show ?thesis using res t'(2,4) ok(4) bb by auto
  next
    case 3
    let ?temp = "if l \<noteq> Null then l else r"
    have tok: "avl_ok ?temp" using ok by simp
    have res: "remove_avl (Node k h l r) x = Some ?temp"
      using 3 remove_rebalance_ok[OF tok] by (auto simp: Let_def)
    have hN: "height l = 0 \<or> height r = 0" using 3(2) by auto
    have hh: "height ?temp = h \<or> height ?temp = h - 1"
      using ok(3,4) hN height_nonneg[OF ok(1)] height_nonneg[OF ok(2)] 3(2)
      by (auto simp: max_def)
    have bb: "bst ?temp \<and> keys ?temp = keys (Node k h l r) - {x}" if "bst (Node k h l r)"
      using that 3 by auto
    show ?thesis using res tok hh bb by auto
  next
    case 4
    from minValueNode_correct[OF 4(3)] obtain m mk where
      m: "minValueNode r = Some m" "key_of m = Some mk" "mk \<in> keys r"
        "bst r \<longrightarrow> (\<forall>y \<in> keys r. mk \<le> y)"
      by blast
    from Node.IH(2)[OF ok(2), of mk] obtain r' where
      r': "remove_avl r mk = Some r'" "avl_ok r'"
        "height r' = height r \<or> height r' = height r - 1"
        "bst r \<longrightarrow> bst r' \<and> keys r' = keys r - {mk}"
      by blast
    from remove_node_step[OF ok(1) r'(2) ok(3), of mk h] r'(3) obtain t' where
      t': "remove_rebalance (Node mk h l r') = Some t'" "avl_ok t'"
        "inorder t' = inorder l @ [mk] @ inorder r'"
        "height t' = 1 + max (height l) (height r) \<or> height t' = max (height l) (height r)"
      by blast
    have res: "remove_avl (Node k h l r) x = Some t'"
      using 4 m(1,2) r'(1) t'(1) by simp
    have bb: "bst t' \<and> keys t' = keys (Node k h l r) - {x}" if "bst (Node k h l r)"
    proof -
      have b: "bst l" "bst r" "\<forall>y \<in> keys l. y < k" "\<forall>y \<in> keys r. k < y" using that by auto
      have kr: "keys r' = keys r - {mk}" "bst r'" using r'(4) b by auto
      have "k < mk" using b(4) m(3) by auto
      then have "\<forall>y \<in> keys l. y < mk" using b(3) by fastforce
      moreover have "\<forall>y \<in> keys r'. mk < y" using kr(1) m(4) b(2) by fastforce
      ultimately have "bst (Node mk h l r')" using b(1) kr(2) by simp
      then have "bst t'" using t'(3) by (simp add: bst_inorder)
      moreover have "keys t' = keys (Node mk h l r')" using t'(3) by (simp add: keys_inorder)
      moreover have "k \<notin> keys l" "k \<notin> keys r" using b(3,4) by auto
      ultimately show ?thesis using kr(1) m(3) 4(1) by auto
    qed
    show ?thesis using res t'(2,4) ok(4) bb by auto
  qed
qed

lemma run_ops_correct:
  assumes "avl_ok t" "bst t"
  shows "\<exists>t'. run_ops t ops = Some t' \<and> avl_ok t' \<and> bst t' \<and> keys t' = present (keys t) ops"
  using assms
proof (induction ops arbitrary: t)
  case Nil
  then show ?case by simp
next
  case (Cons op ops)
  show ?case
  proof (cases op)
    case (Insert k)
    from insert_avl_correct[OF Cons.prems(1), of k] Cons.prems(2) obtain t1 where
      t1: "insert_avl t k = Some t1" "avl_ok t1" "bst t1" "keys t1 = insert k (keys t)"
      by blast
    from Cons.IH[OF t1(2,3)] show ?thesis using Insert t1(1,4) by simp
  next
    case (Remove k)
    from remove_avl_correct[OF Cons.prems(1), of k] Cons.prems(2) obtain t1 where
      t1: "remove_avl t k = Some t1" "avl_ok t1" "bst t1" "keys t1 = keys t - {k}"
      by blast
    from Cons.IH[OF t1(2,3)] show ?thesis using Remove t1(1,4) by simp
  qed
qed

text \<open>
  Claim C1.  Every sequence of \<^verbatim>\<open>insert\<close> and \<^verbatim>\<open>remove\<close> calls from the empty tree
  returns normally, and the resulting tree is balanced with exact stored heights
  (\<open>avl_ok\<close>), is ordered as a search tree (\<open>bst\<close>), and its inorder traversal is
  strictly ascending and holds exactly the keys present after the calls.
\<close>

theorem avl_invariant:
  "\<exists>t. run_ops Null ops = Some t \<and> avl_ok t \<and> bst t \<and>
       sorted_wrt (<) (inorder t) \<and> set (inorder t) = present {} ops"
proof -
  from run_ops_correct[of Null ops] obtain t where
    t: "run_ops Null ops = Some t" "avl_ok t" "bst t" "keys t = present {} ops"
    by auto
  then show ?thesis using bst_inorder[of t] keys_inorder[of t] by auto
qed

theorem avl_invariant_witness:
  "run_ops Null [Insert 10, Insert 20, Insert 30, Remove 10] = Some (Node 20 2 Null (Node 30 1 Null Null)) \<and>
   avl_ok (Node 20 2 Null (Node 30 1 Null Null)) \<and> bst (Node 20 2 Null (Node 30 1 Null Null)) \<and>
   inorder (Node 20 2 Null (Node 30 1 Null Null)) = [20, 30] \<and>
   present {} [Insert 10, Insert 20, Insert 30, Remove 10] = {20, 30}"
proof -
  have r: "run_ops Null [Insert 10, Insert 20, Insert 30, Remove 10] = Some (Node 20 2 Null (Node 30 1 Null Null))"
    by (simp add: Let_def)
  from avl_invariant[of "[Insert 10, Insert 20, Insert 30, Remove 10]"] obtain t where
    t: "run_ops Null [Insert 10, Insert 20, Insert 30, Remove 10] = Some t" "avl_ok t" "bst t"
      "set (inorder t) = present {} [Insert 10, Insert 20, Insert 30, Remove 10]"
    by blast
  have "t = Node 20 2 Null (Node 30 1 Null Null)" using r t(1) by simp
  then show ?thesis using r t by auto
qed

lemma insert_rebalance_ok:
  assumes "avl_ok t" "t \<noteq> Null"
  shows "insert_rebalance t x = Some t"
  using assms by (cases t) (auto simp: max_def)

lemma insert_present:
  assumes "avl_ok t" "bst t" "x \<in> keys t"
  shows "insert_avl t x = Some t"
  using assms
proof (induction t)
  case Null
  then show ?case by simp
next
  case (Node k h l r)
  have ok: "avl_ok l" "avl_ok r" and b: "bst l" "bst r" "\<forall>y \<in> keys l. y < k" "\<forall>y \<in> keys r. k < y"
    using Node.prems by auto
  have rb: "insert_rebalance (Node k h l r) x = Some (Node k h l r)"
    using insert_rebalance_ok[OF Node.prems(1)] by simp
  consider "x < k" | "x > k" | "x = k" by linarith
  then show ?case
  proof cases
    case 1
    then have "x \<in> keys l" using Node.prems(3) b(4) by auto
    then have "insert_avl l x = Some l" using Node.IH(1) ok b by simp
    then show ?thesis using 1 rb by simp
  next
    case 2
    then have "x \<in> keys r" using Node.prems(3) b(3) by auto
    then have "insert_avl r x = Some r" using Node.IH(2) ok b by simp
    then show ?thesis using 2 rb by simp
  next
    case 3
    then show ?thesis by simp
  qed
qed

lemma remove_absent:
  assumes "avl_ok t" "x \<notin> keys t"
  shows "remove_avl t x = Some t"
  using assms
proof (induction t)
  case Null
  then show ?case by simp
next
  case (Node k h l r)
  have ok: "avl_ok l" "avl_ok r" using Node.prems by auto
  have rb: "remove_rebalance (Node k h l r) = Some (Node k h l r)"
    using remove_rebalance_ok[OF Node.prems(1)] .
  have ne: "x \<noteq> k" "x \<notin> keys l" "x \<notin> keys r" using Node.prems(2) by auto
  show ?case
  proof (cases "x < k")
    case True
    have "remove_avl l x = Some l" using Node.IH(1) ok ne by simp
    then show ?thesis using True rb by simp
  next
    case False
    then have gt: "x > k" using ne by simp
    have "remove_avl r x = Some r" using Node.IH(2) ok ne by simp
    then show ?thesis using False gt rb by simp
  qed
qed

text \<open>
  Claim C8.  On a tree that satisfies the AVL invariants, inserting a key that is present
  returns the very same tree (shape, keys and heights), and so does removing a key that
  is absent.
\<close>

theorem avl_idempotent:
  assumes "avl_ok t" and "bst t"
  shows "(x \<in> keys t \<longrightarrow> insert_avl t x = Some t) \<and> (x \<notin> keys t \<longrightarrow> remove_avl t x = Some t)"
  using assms insert_present remove_absent by blast

theorem avl_idempotent_witness:
  "insert_avl (Node 20 2 (Node 10 1 Null Null) (Node 30 1 Null Null)) 30
     = Some (Node 20 2 (Node 10 1 Null Null) (Node 30 1 Null Null)) \<and>
   remove_avl (Node 20 2 (Node 10 1 Null Null) (Node 30 1 Null Null)) 25
     = Some (Node 20 2 (Node 10 1 Null Null) (Node 30 1 Null Null))"
  using avl_idempotent[of "Node 20 2 (Node 10 1 Null Null) (Node 30 1 Null Null)" 30]
    avl_idempotent[of "Node 20 2 (Node 10 1 Null Null) (Node 30 1 Null Null)" 25]
  by (simp del: insert_avl.simps remove_avl.simps)

section \<open>Breadth-first and depth-first search visit the reachable vertices\<close>

definition seq_open :: "int list \<Rightarrow> string" where
  "seq_open xs = ''['' @ join_commas (map decimal xs)"

lemma join_commas_snoc:
  "xs \<noteq> [] \<Longrightarrow> join_commas (xs @ [x]) = join_commas xs @ '','' @ x"
  by (induction xs rule: join_commas.induct) auto

lemma seq_open_snoc:
  "seq_open (xs @ [x]) = (if xs = [] then seq_open xs else seq_open xs @ '','') @ decimal x"
  by (simp add: seq_open_def join_commas_snoc)

lemma seq_text_open: "seq_text xs = seq_open xs @ '']''"
  by (simp add: seq_text_def seq_open_def)

lemma reachable_refl: "s \<in> reachable g s"
  by (simp add: reachable_def)

lemma reachable_step: "u \<in> reachable g s \<Longrightarrow> edge g u v \<Longrightarrow> v \<in> reachable g s"
  by (auto simp: reachable_def)

lemma reachable_closed:
  assumes "s \<in> S" and "\<And>u v. u \<in> S \<Longrightarrow> edge g u v \<Longrightarrow> v \<in> S"
  shows "reachable g s \<subseteq> S"
proof
  fix v assume "v \<in> reachable g s"
  then have "(edge g)\<^sup>*\<^sup>* s v" by (simp add: reachable_def)
  then show "v \<in> S" by (induction rule: rtranclp_induct) (use assms in auto)
qed

text \<open>
  The invariant of the traversal loops.  \<open>out\<close> are the vertices emitted so far and
  \<open>work\<close> the work list; every edge from an emitted vertex leads into one of the two,
  except the edges of the vertex \<open>u\<close> under scan that the predicate \<open>todo\<close> still excuses.
\<close>

definition trav_inv ::
    "Graph \<Rightarrow> int \<Rightarrow> int list \<Rightarrow> int list \<Rightarrow> int \<Rightarrow> (int \<Rightarrow> bool) \<Rightarrow> bool" where
  "trav_inv g start out work u todo =
     (distinct out \<and> set out \<union> set work \<subseteq> reachable g start \<and>
      start \<in> set out \<union> set work \<and>
      (\<forall>x \<in> set out \<union> set work. 0 \<le> x \<and> x < g_n g) \<and>
      (\<forall>u' v. u' \<in> set out \<longrightarrow> edge g u' v \<longrightarrow> (u' = u \<and> todo v) \<or> v \<in> set out \<union> set work))"

definition marks :: "bool list \<Rightarrow> int \<Rightarrow> int set \<Rightarrow> bool" where
  "marks visited k S = (int (length visited) = k \<and> (\<forall>v. 0 \<le> v \<and> v < k \<longrightarrow> (visited ! nat v) = (v \<in> S)))"

lemma marks_aget: "marks visited k S \<Longrightarrow> 0 \<le> v \<Longrightarrow> v < k \<Longrightarrow> aget visited v = Some (v \<in> S)"
  by (simp add: marks_def aget_def)

lemma marks_aset:
  assumes "marks visited k S" "0 \<le> v" "v < k"
  shows "aset visited v True = Some (visited[nat v := True]) \<and> marks (visited[nat v := True]) k (insert v S)"
proof -
  have "(visited[nat v := True]) ! nat w = (w \<in> insert v S)" if "0 \<le> w" "w < k" for w
    using assms that by (cases "w = v") (auto simp: marks_def nat_eq_iff)
  then show ?thesis using assms by (simp add: marks_def aset_def)
qed

lemma trav_inv_final:
  assumes "trav_inv g start out [] u (\<lambda>v. False)"
  shows "distinct out \<and> set out = reachable g start"
proof -
  have "reachable g start \<subseteq> set out"
    by (rule reachable_closed) (use assms in \<open>auto simp: trav_inv_def\<close>)
  then show ?thesis using assms by (auto simp: trav_inv_def)
qed

lemma trav_inv_cong:
  assumes "trav_inv g start out work u todo"
    and "\<And>v. 0 \<le> v \<Longrightarrow> v < g_n g \<Longrightarrow> todo v \<Longrightarrow> todo' v"
  shows "trav_inv g start out work u todo'"
  using assms unfolding trav_inv_def edge_def by blast

lemma intToString_vertex: "0 \<le> v \<Longrightarrow> intToString v = Some (decimal v)"
  by (rule intToString_decimal) (simp add: INT_MIN_def)

lemma bfs_neighbor_step:
  assumes sq: "square (g_n g) (adjMatrix g)"
    and u: "0 \<le> u" "u < g_n g" "u \<in> set out" and j: "0 \<le> j" "j < g_n g"
    and inv: "trav_inv g start out q u (\<lambda>v. j \<le> v)"
    and dist: "distinct (out @ q)"
    and mk: "marks visited (g_n g) (set out \<union> set q)"
  shows "\<exists>visited' q'. bfs_neighbor g u j (visited, q) = Some (visited', q') \<and>
           trav_inv g start out q' u (\<lambda>v. j + 1 \<le> v) \<and> distinct (out @ q') \<and>
           marks visited' (g_n g) (set out \<union> set q')"
proof -
  have w: "mat_get (adjMatrix g) u j = Some (mcell (adjMatrix g) u j)"
    using mat_get_Some[OF sq u(1,2) j] .
  have vis: "aget visited j = Some (j \<in> set out \<union> set q)" using marks_aget[OF mk j] .
  have e: "edge g u j = (mcell (adjMatrix g) u j \<noteq> 0)" using u j by (simp add: edge_def)
  have parts: "distinct out" "set out \<union> set q \<subseteq> reachable g start" "start \<in> set out \<union> set q"
    "\<forall>x \<in> set out \<union> set q. 0 \<le> x \<and> x < g_n g"
    "\<And>u' v. u' \<in> set out \<Longrightarrow> edge g u' v \<Longrightarrow> (u' = u \<and> j \<le> v) \<or> v \<in> set out \<union> set q"
    using inv unfolding trav_inv_def by blast+
  show ?thesis
  proof (cases "edge g u j \<and> j \<notin> set out \<union> set q")
    case False
    have res: "bfs_neighbor g u j (visited, q) = Some (visited, q)"
      using False w vis e by (auto simp: bfs_neighbor_def)
    have "trav_inv g start out q u (\<lambda>v. j + 1 \<le> v)" unfolding trav_inv_def
    proof (intro conjI allI impI)
      fix u' v assume a: "u' \<in> set out" "edge g u' v"
      from parts(5)[OF a] show "(u' = u \<and> j + 1 \<le> v) \<or> v \<in> set out \<union> set q"
        using False a(2) by (cases "v = j") auto
    qed (use parts in auto)
    then show ?thesis using res dist mk by simp
  next
    case True
    from marks_aset[OF mk j] have
      s: "aset visited j True = Some (visited[nat j := True])"
      and mk': "marks (visited[nat j := True]) (g_n g) (insert j (set out \<union> set q))"
      by auto
    have res: "bfs_neighbor g u j (visited, q) = Some (visited[nat j := True], q @ [j])"
      using True w vis e s by (auto simp: bfs_neighbor_def enqueue_def)
    have jr: "j \<in> reachable g start" using parts(2) u(3) True reachable_step[of u g start j] by auto
    have "trav_inv g start out (q @ [j]) u (\<lambda>v. j + 1 \<le> v)" unfolding trav_inv_def
    proof (intro conjI allI impI)
      fix u' v assume a: "u' \<in> set out" "edge g u' v"
      from parts(5)[OF a] show "(u' = u \<and> j + 1 \<le> v) \<or> v \<in> set out \<union> set (q @ [j])"
        by (cases "v = j") auto
    qed (use parts jr j in auto)
    moreover have "distinct (out @ q @ [j])" using dist True by auto
    moreover have "marks (visited[nat j := True]) (g_n g) (set out \<union> set (q @ [j]))"
      using mk' by (simp add: insert_commute Un_commute)
    ultimately show ?thesis using res by simp
  qed
qed

lemma bfs_scan:
  assumes sq: "square (g_n g) (adjMatrix g)"
    and u: "0 \<le> u" "u < g_n g" "u \<in> set out"
    and inv: "trav_inv g start out q u (\<lambda>v. True)"
    and dist: "distinct (out @ q)"
    and mk: "marks visited (g_n g) (set out \<union> set q)"
  shows "\<exists>visited' q'. for_up 0 (g_n g) (bfs_neighbor g u) (visited, q) = Some (visited', q') \<and>
           trav_inv g start out q' u (\<lambda>v. False) \<and> distinct (out @ q') \<and>
           marks visited' (g_n g) (set out \<union> set q')"
proof -
  let ?I = "\<lambda>j s. trav_inv g start out (snd s) u (\<lambda>v. j \<le> v) \<and> distinct (out @ snd s) \<and>
                  marks (fst s) (g_n g) (set out \<union> set (snd s))"
  have "\<exists>s'. for_up 0 (g_n g) (bfs_neighbor g u) (visited, q) = Some s' \<and> ?I (g_n g) s'"
  proof (rule for_up_rule[where I = ?I])
    show "?I 0 (visited, q)" using trav_inv_cong[OF inv] dist mk by simp
    show "0 \<le> g_n g" using u by simp
    fix j s assume j: "0 \<le> j" "j < g_n g" and I: "?I j s"
    obtain vs qs where s: "s = (vs, qs)" by (cases s)
    from bfs_neighbor_step[OF sq u j, of start qs vs] I s
    show "\<exists>s'. bfs_neighbor g u j s = Some s' \<and> ?I (j + 1) s'" by auto
  qed
  then obtain visited' q' where
    r: "for_up 0 (g_n g) (bfs_neighbor g u) (visited, q) = Some (visited', q')"
    "trav_inv g start out q' u (\<lambda>v. g_n g \<le> v)" "distinct (out @ q')"
    "marks visited' (g_n g) (set out \<union> set q')"
    by auto
  have "trav_inv g start out q' u (\<lambda>v. False)" by (rule trav_inv_cong[OF r(2)]) simp
  then show ?thesis using r by blast
qed

lemma bfs_loop_correct:
  assumes "square (g_n g) (adjMatrix g)" "trav_inv g start out q u (\<lambda>v. False)"
    "distinct (out @ q)" "marks visited (g_n g) (set out \<union> set q)"
    "result = seq_open out" "first = (out = [])"
  shows "\<exists>xs. bfs_loop g visited q result first = Some (seq_open xs) \<and> distinct xs \<and>
           set xs = reachable g start"
  using assms
proof (induction g visited q result first arbitrary: out u rule: bfs_loop.induct)
  case (1 g visited q result first)
  show ?case
  proof (cases q)
    case Nil
    then have "bfs_loop g visited q result first = Some (seq_open out)"
      using "1.prems"(5) by (simp add: bfs_loop.simps[of g visited "[]"] Queue_empty_def)
    moreover have "distinct out \<and> set out = reachable g start"
      using trav_inv_final[of g start out u] "1.prems"(2) Nil by simp
    ultimately show ?thesis by blast
  next
    case (Cons node q1)
    have ne: "\<not> Queue_empty q" and fr: "node = Front q" and dq: "q1 = dequeue q"
      using Cons by (simp_all add: Queue_empty_def Front_def dequeue_def)
    have parts: "distinct out" "set out \<union> set q \<subseteq> reachable g start" "start \<in> set out \<union> set q"
      "\<forall>x \<in> set out \<union> set q. 0 \<le> x \<and> x < g_n g"
      "\<And>u' v. u' \<in> set out \<Longrightarrow> edge g u' v \<Longrightarrow> v \<in> set out \<union> set q"
      using "1.prems"(2) unfolding trav_inv_def by blast+
    have nr: "0 \<le> node" "node < g_n g" using parts(4) Cons by auto
    have str: "intToString node = Some (decimal node)" using intToString_vertex[OF nr(1)] .
    let ?out = "out @ [node]"
    let ?result1 = "if \<not> first then result @ '','' else result"
    have inv0: "trav_inv g start ?out q1 node (\<lambda>v. True)" unfolding trav_inv_def
    proof (intro conjI allI impI)
      show "distinct ?out" using "1.prems"(3) Cons by auto
      fix u' v assume a: "u' \<in> set ?out" "edge g u' v"
      show "(u' = node \<and> True) \<or> v \<in> set ?out \<union> set q1"
      proof (cases "u' = node")
        case False
        then show ?thesis using parts(5)[of u' v] a Cons by auto
      qed simp
    qed (use parts Cons in auto)
    have d0: "distinct (?out @ q1)" using "1.prems"(3) Cons by auto
    have m0: "marks visited (g_n g) (set ?out \<union> set q1)"
    proof -
      have "set ?out \<union> set q1 = set out \<union> set q" using Cons by auto
      then show ?thesis using "1.prems"(4) by simp
    qed
    from bfs_scan[OF "1.prems"(1) nr _ inv0 d0 m0] obtain visited' q' where
      sc: "for_up 0 (g_n g) (bfs_neighbor g node) (visited, q1) = Some (visited', q')"
        "trav_inv g start ?out q' node (\<lambda>v. False)" "distinct (?out @ q')"
        "marks visited' (g_n g) (set ?out \<union> set q')"
      by auto
    have r1: "?result1 @ decimal node = seq_open ?out"
      using "1.prems"(5,6) by (simp add: seq_open_snoc)
    have step: "bfs_loop g visited q result first = bfs_loop g visited' q' (?result1 @ decimal node) False"
      using ne fr dq str sc(1) by (simp add: bfs_loop.simps[of g visited q] Let_def)
    have "\<exists>xs. bfs_loop g visited' q' (?result1 @ decimal node) False = Some (seq_open xs) \<and>
            distinct xs \<and> set xs = reachable g start"
    proof (rule "1.IH"[OF ne fr dq refl _ _ _ "1.prems"(1) sc(2) sc(3) sc(4) r1])
      show "intToString node = Some (decimal node)" by (rule str)
      show "for_up 0 (g_n g) (bfs_neighbor g node) (visited, q1) = Some (visited', q')" by (rule sc(1))
      show "(visited', q') = (visited', q')" by simp
      show "False = (?out = [])" by simp
    qed
    then show ?thesis using step by simp
  qed
qed

lemma bfs_correct_lemma:
  assumes "square (g_n g) (adjMatrix g)" "0 \<le> start" "start < g_n g"
  shows "\<exists>xs. bfs g start = Some (seq_text xs) \<and> distinct xs \<and> set xs = reachable g start"
proof -
  let ?v0 = "replicate (nat (g_n g)) False"
  have na: "new_array (g_n g) False = Some ?v0" using assms by (simp add: new_array_def)
  have m0: "marks ?v0 (g_n g) {}" using assms by (simp add: marks_def)
  from marks_aset[OF m0 assms(2,3)] have
    s: "aset ?v0 start True = Some (?v0[nat start := True])"
    and m1: "marks (?v0[nat start := True]) (g_n g) {start}" by auto
  have inv: "trav_inv g start [] [start] 0 (\<lambda>v. False)"
    using assms by (simp add: trav_inv_def reachable_refl)
  from bfs_loop_correct[OF assms(1) inv, of "?v0[nat start := True]" "''[''" True] m1
  obtain xs where xs: "bfs_loop g (?v0[nat start := True]) [start] ''['' True = Some (seq_open xs)"
    "distinct xs" "set xs = reachable g start"
    by (auto simp: seq_open_def)
  have "bfs g start = Some (seq_open xs @ '']'')"
    using assms na s xs(1) by (simp add: bfs_def enqueue_def)
  then show ?thesis using xs(2,3) by (auto simp: seq_text_open)
qed

lemma dfs_neighbor_step:
  assumes sq: "square (g_n g) (adjMatrix g)"
    and u: "0 \<le> u" "u < g_n g" "u \<in> set out" and j: "0 \<le> j" "j < g_n g"
    and inv: "trav_inv g start out s u (\<lambda>v. v \<le> j)"
    and mk: "marks visited (g_n g) (set out)"
  shows "\<exists>s'. dfs_neighbor g visited u j s = Some s' \<and>
           trav_inv g start out s' u (\<lambda>v. v \<le> j - 1)"
proof -
  have w: "mat_get (adjMatrix g) u j = Some (mcell (adjMatrix g) u j)"
    using mat_get_Some[OF sq u(1,2) j] .
  have vis: "aget visited j = Some (j \<in> set out)" using marks_aget[OF mk j] .
  have e: "edge g u j = (mcell (adjMatrix g) u j \<noteq> 0)" using u j by (simp add: edge_def)
  have parts: "distinct out" "set out \<union> set s \<subseteq> reachable g start" "start \<in> set out \<union> set s"
    "\<forall>x \<in> set out \<union> set s. 0 \<le> x \<and> x < g_n g"
    "\<And>u' v. u' \<in> set out \<Longrightarrow> edge g u' v \<Longrightarrow> (u' = u \<and> v \<le> j) \<or> v \<in> set out \<union> set s"
    using inv unfolding trav_inv_def by blast+
  show ?thesis
  proof (cases "edge g u j \<and> j \<notin> set out")
    case False
    have res: "dfs_neighbor g visited u j s = Some s"
      using False w vis e by (auto simp: dfs_neighbor_def)
    have "trav_inv g start out s u (\<lambda>v. v \<le> j - 1)" unfolding trav_inv_def
    proof (intro conjI allI impI)
      fix u' v assume a: "u' \<in> set out" "edge g u' v"
      from parts(5)[OF a] show "(u' = u \<and> v \<le> j - 1) \<or> v \<in> set out \<union> set s"
        using False a(2) by (cases "v = j") auto
    qed (use parts in auto)
    then show ?thesis using res by simp
  next
    case True
    have res: "dfs_neighbor g visited u j s = Some (j # s)"
      using True w vis e by (auto simp: dfs_neighbor_def Stack_push_def)
    have jr: "j \<in> reachable g start" using parts(2) u(3) True reachable_step[of u g start j] by auto
    have "trav_inv g start out (j # s) u (\<lambda>v. v \<le> j - 1)" unfolding trav_inv_def
    proof (intro conjI allI impI)
      fix u' v assume a: "u' \<in> set out" "edge g u' v"
      from parts(5)[OF a] show "(u' = u \<and> v \<le> j - 1) \<or> v \<in> set out \<union> set (j # s)"
        by (cases "v = j") auto
    qed (use parts jr j in auto)
    then show ?thesis using res by simp
  qed
qed

lemma dfs_scan:
  assumes sq: "square (g_n g) (adjMatrix g)"
    and u: "0 \<le> u" "u < g_n g" "u \<in> set out"
    and inv: "trav_inv g start out s u (\<lambda>v. True)"
    and mk: "marks visited (g_n g) (set out)"
  shows "\<exists>s'. for_down (g_n g - 1) (dfs_neighbor g visited u) s = Some s' \<and>
           trav_inv g start out s' u (\<lambda>v. False)"
proof -
  let ?I = "\<lambda>j s. trav_inv g start out s u (\<lambda>v. v \<le> j)"
  have "\<exists>s'. for_down (g_n g - 1) (dfs_neighbor g visited u) s = Some s' \<and> ?I (- 1) s'"
  proof (rule for_down_rule[where I = ?I])
    show "?I (g_n g - 1) s" using trav_inv_cong[OF inv] by simp
    show "- 1 \<le> g_n g - 1" using u by simp
    fix j t assume j: "0 \<le> j" "j \<le> g_n g - 1" and I: "?I j t"
    have j2: "j < g_n g" using j by simp
    from dfs_neighbor_step[OF sq u j(1) j2 I mk]
    show "\<exists>s'. dfs_neighbor g visited u j t = Some s' \<and> ?I (j - 1) s'" .
  qed
  then obtain s' where
    r: "for_down (g_n g - 1) (dfs_neighbor g visited u) s = Some s'"
    "trav_inv g start out s' u (\<lambda>v. v \<le> - 1)"
    by auto
  have "trav_inv g start out s' u (\<lambda>v. False)" by (rule trav_inv_cong[OF r(2)]) simp
  then show ?thesis using r by blast
qed

lemma dfs_loop_correct:
  assumes "square (g_n g) (adjMatrix g)" "trav_inv g start out s u (\<lambda>v. False)"
    "marks visited (g_n g) (set out)"
    "result = seq_open out" "first = (out = [])"
  shows "\<exists>xs. dfs_loop g visited s result first = Some (seq_open xs) \<and> distinct xs \<and>
           set xs = reachable g start"
  using assms
proof (induction g visited s result first arbitrary: out u rule: dfs_loop.induct)
  case (1 g visited s result first)
  show ?case
  proof (cases s)
    case Nil
    then have "dfs_loop g visited s result first = Some (seq_open out)"
      using "1.prems"(4) by (simp add: dfs_loop.simps[of g visited "[]"] Stack_empty_def)
    moreover have "distinct out \<and> set out = reachable g start"
      using trav_inv_final[of g start out u] "1.prems"(2) Nil by simp
    ultimately show ?thesis by blast
  next
    case (Cons node s1)
    have ne: "\<not> Stack_empty s" and tp: "node = Top s" and pp: "s1 = Stack_pop s"
      using Cons by (simp_all add: Stack_empty_def Top_def Stack_pop_def)
    have parts: "distinct out" "set out \<union> set s \<subseteq> reachable g start" "start \<in> set out \<union> set s"
      "\<forall>x \<in> set out \<union> set s. 0 \<le> x \<and> x < g_n g"
      "\<And>u' v. u' \<in> set out \<Longrightarrow> edge g u' v \<Longrightarrow> v \<in> set out \<union> set s"
      using "1.prems"(2) unfolding trav_inv_def by blast+
    have nr: "0 \<le> node" "node < g_n g" using parts(4) Cons by auto
    have vis: "aget visited node = Some (node \<in> set out)" using marks_aget[OF "1.prems"(3) nr] .
    show ?thesis
    proof (cases "node \<in> set out")
      case True
      have inv1: "trav_inv g start out s1 u (\<lambda>v. False)" unfolding trav_inv_def
      proof (intro conjI allI impI)
        fix u' v assume a: "u' \<in> set out" "edge g u' v"
        show "(u' = u \<and> False) \<or> v \<in> set out \<union> set s1"
          using parts(5)[OF a] Cons True by auto
      qed (use parts Cons True in auto)
      have step: "dfs_loop g visited s result first = dfs_loop g visited s1 result first"
        using ne tp pp vis True by (simp add: dfs_loop.simps[of g visited s] Let_def)
      have "\<exists>xs. dfs_loop g visited s1 result first = Some (seq_open xs) \<and> distinct xs \<and>
              set xs = reachable g start"
        by (rule "1.IH"(2)[OF ne tp pp vis _ "1.prems"(1) inv1 "1.prems"(3,4,5)]) (use True in simp)
      then show ?thesis using step by simp
    next
      case False
      let ?out = "out @ [node]"
      let ?visited1 = "visited[nat node := True]"
      let ?result1 = "if \<not> first then result @ '','' else result"
      from marks_aset[OF "1.prems"(3) nr] have
        st: "aset visited node True = Some ?visited1"
        and m1: "marks ?visited1 (g_n g) (set ?out)" by auto
      have str: "intToString node = Some (decimal node)" using intToString_vertex[OF nr(1)] .
      have inv0: "trav_inv g start ?out s1 node (\<lambda>v. True)" unfolding trav_inv_def
      proof (intro conjI allI impI)
        show "distinct ?out" using parts(1) False by auto
        fix u' v assume a: "u' \<in> set ?out" "edge g u' v"
        show "(u' = node \<and> True) \<or> v \<in> set ?out \<union> set s1"
        proof (cases "u' = node")
          case False
          then show ?thesis using parts(5)[of u' v] a Cons by auto
        qed simp
      qed (use parts Cons in auto)
      from dfs_scan[OF "1.prems"(1) nr _ inv0 m1] obtain s2 where
        sc: "for_down (g_n g - 1) (dfs_neighbor g ?visited1 node) s1 = Some s2"
          "trav_inv g start ?out s2 node (\<lambda>v. False)"
        by auto
      have r1: "?result1 @ decimal node = seq_open ?out"
        using "1.prems"(4,5) by (simp add: seq_open_snoc)
      have step: "dfs_loop g visited s result first = dfs_loop g ?visited1 s2 (?result1 @ decimal node) False"
        using ne tp pp vis False st str sc(1) by (simp add: dfs_loop.simps[of g visited s] Let_def)
      have "\<exists>xs. dfs_loop g ?visited1 s2 (?result1 @ decimal node) False = Some (seq_open xs) \<and>
              distinct xs \<and> set xs = reachable g start"
        by (rule "1.IH"(1)[OF ne tp pp vis _ st refl str sc(1) "1.prems"(1) sc(2) m1 r1])
          (use False in simp_all)
      then show ?thesis using step by simp
    qed
  qed
qed

lemma dfs_correct_lemma:
  assumes "square (g_n g) (adjMatrix g)" "0 \<le> start" "start < g_n g"
  shows "\<exists>xs. dfs g start = Some (seq_text xs) \<and> distinct xs \<and> set xs = reachable g start"
proof -
  let ?v0 = "replicate (nat (g_n g)) False"
  have na: "new_array (g_n g) False = Some ?v0" using assms by (simp add: new_array_def)
  have m0: "marks ?v0 (g_n g) (set [])" using assms by (simp add: marks_def)
  have inv: "trav_inv g start [] [start] 0 (\<lambda>v. False)"
    using assms by (simp add: trav_inv_def reachable_refl)
  from dfs_loop_correct[OF assms(1) inv m0, of "''[''" True]
  obtain xs where xs: "dfs_loop g ?v0 [start] ''['' True = Some (seq_open xs)"
    "distinct xs" "set xs = reachable g start"
    by (auto simp: seq_open_def)
  have "dfs g start = Some (seq_open xs @ '']'')"
    using assms na xs(1) by (simp add: dfs_def Stack_push_def)
  then show ?thesis using xs(2,3) by (auto simp: seq_text_open)
qed

text \<open>
  Claim C4.  For a graph with a square matrix and a start index in range, \<^verbatim>\<open>bfs\<close> and
  \<^verbatim>\<open>dfs\<close> each return the text of a sequence without repetition whose members are
  exactly the vertices reachable from the start along nonzero cells.
\<close>

theorem traversal_reachable:
  assumes "square (g_n g) (adjMatrix g)" and "0 \<le> start" and "start < g_n g"
  shows "(\<exists>xs. bfs g start = Some (seq_text xs) \<and> distinct xs \<and> set xs = reachable g start) \<and>
         (\<exists>ys. dfs g start = Some (seq_text ys) \<and> distinct ys \<and> set ys = reachable g start)"
  using bfs_correct_lemma[OF assms] dfs_correct_lemma[OF assms] by blast

theorem traversal_reachable_witness:
  "\<exists>xs ys. bfs spec_graph 0 = Some (seq_text xs) \<and> dfs spec_graph 0 = Some (seq_text ys) \<and>
           distinct xs \<and> distinct ys \<and> set xs = set ys \<and> 0 \<in> set xs"
proof -
  have sq: "square (g_n spec_graph) (adjMatrix spec_graph)"
    by (simp add: spec_graph_def square_def)
  have r: "(0::int) \<le> 0" "0 < g_n spec_graph" by (simp_all add: spec_graph_def)
  from traversal_reachable[OF sq r] reachable_refl[of 0 spec_graph] show ?thesis by auto
qed

section \<open>Dijkstra computes least path weights below the sentinel\<close>

lemma weights_in_cell:
  assumes "weights_in g lo hi" "square (g_n g) (adjMatrix g)"
    and "0 \<le> u" "u < g_n g" "0 \<le> v" "v < g_n g"
  shows "lo \<le> mcell (adjMatrix g) u v \<and> mcell (adjMatrix g) u v \<le> hi"
proof -
  have l: "nat u < length (adjMatrix g)" using assms by (auto simp: square_def)
  then have "int (length (adjMatrix g ! nat u)) = g_n g"
    using assms(2) by (auto simp: square_def list_all_length)
  then have "nat v < length (adjMatrix g ! nat u)" using assms by auto
  then show ?thesis using assms(1) l by (simp add: weights_in_def list_all_length mcell_def)
qed

definition ival :: "int list \<Rightarrow> int \<Rightarrow> int" where
  "ival xs i = xs ! nat i"

definition dj_inv ::
    "Graph \<Rightarrow> int \<Rightarrow> int list \<Rightarrow> int set \<Rightarrow> PQNode multiset \<Rightarrow> int \<Rightarrow> (int \<Rightarrow> bool) \<Rightarrow> bool" where
  "dj_inv g s dist S E u todo =
     (int (length dist) = g_n g \<and> (\<forall>v \<in> S. 0 \<le> v \<and> v < g_n g) \<and>
      0 \<le> s \<and> s < g_n g \<and> ival dist s = 0 \<and>
      (\<forall>v. 0 \<le> v \<and> v < g_n g \<longrightarrow>
         ival dist v = 999999 \<or> (0 \<le> ival dist v \<and> ival dist v < 999999 \<and> walk g s v (ival dist v))) \<and>
      (\<forall>v \<in> S. ival dist v < 999999 \<and> (\<forall>c. walk g s v c \<longrightarrow> ival dist v \<le> c)) \<and>
      (\<forall>x y. x \<in> S \<longrightarrow> y \<notin> S \<longrightarrow> edge g x y \<longrightarrow>
         (x = u \<and> todo y) \<or> ival dist y \<le> ival dist x + mcell (adjMatrix g) x y) \<and>
      (\<forall>e. e \<in># E \<longrightarrow> 0 \<le> pq_vertex e \<and> pq_vertex e < g_n g \<and>
         ival dist (pq_vertex e) \<le> pq_key e \<and> pq_key e < 999999) \<and>
      (\<forall>v. 0 \<le> v \<and> v < g_n g \<and> v \<notin> S \<and> ival dist v < 999999 \<longrightarrow>
         \<lparr>pq_vertex = v, pq_key = ival dist v\<rparr> \<in># E))"

lemma walk_range: "walk g s v c \<Longrightarrow> 0 \<le> v \<and> v < g_n g"
  by (induction rule: walk.induct) (auto simp: edge_def)

lemma dj_lower:
  assumes inv: "dj_inv g s dist S E u (\<lambda>y. False)"
    and w: "weights_in g 0 hi" "square (g_n g) (adjMatrix g)"
    and wk: "walk g s y c"
  shows "(y \<in> S \<and> ival dist y \<le> c) \<or> (\<exists>z. 0 \<le> z \<and> z < g_n g \<and> z \<notin> S \<and> ival dist z \<le> c)"
  using wk
proof (induction rule: walk.induct)
  case walk_start
  have "ival dist s = 0" using inv by (simp add: dj_inv_def)
  then show ?case using walk_start by (cases "s \<in> S") auto
next
  case (walk_edge x c y)
  have r: "0 \<le> x" "x < g_n g" "0 \<le> y" "y < g_n g" using walk_edge(2) by (auto simp: edge_def)
  have w0: "0 \<le> mcell (adjMatrix g) x y" using weights_in_cell[OF w r] by simp
  from walk_edge.IH show ?case
  proof
    assume "\<exists>z. 0 \<le> z \<and> z < g_n g \<and> z \<notin> S \<and> ival dist z \<le> c"
    then show ?thesis using w0 by (meson add_increasing2 order.trans)
  next
    assume a: "x \<in> S \<and> ival dist x \<le> c"
    show ?thesis
    proof (cases "y \<in> S")
      case True
      have "walk g s y (c + mcell (adjMatrix g) x y)" using walk.walk_edge[OF walk_edge(1,2)] .
      then have "ival dist y \<le> c + mcell (adjMatrix g) x y"
        using inv True unfolding dj_inv_def by blast
      then show ?thesis using True by simp
    next
      case False
      have "ival dist y \<le> ival dist x + mcell (adjMatrix g) x y"
        using inv a False walk_edge(2) unfolding dj_inv_def by blast
      then have "ival dist y \<le> c + mcell (adjMatrix g) x y" using a by simp
      then show ?thesis using False r by blast
    qed
  qed
qed

definition pushes_bound :: "int \<Rightarrow> int \<Rightarrow> int" where
  "pushes_bound u j = (if j \<le> u then j else j - 1)"

lemma aget_ival: "0 \<le> i \<Longrightarrow> i < int (length xs) \<Longrightarrow> aget xs i = Some (ival xs i)"
  by (simp add: aget_def ival_def)

lemma ival_update:
  "0 \<le> i \<Longrightarrow> i < int (length xs) \<Longrightarrow> 0 \<le> k \<Longrightarrow>
   ival (xs[nat i := x]) k = (if k = i then x else ival xs k)"
  by (auto simp: ival_def nat_eq_iff)

lemma dijkstra_relax_step:
  assumes sq: "square (g_n g) (adjMatrix g)"
    and w: "weights_in g 0 (INT_MAX - 999999)"
    and u: "0 \<le> u" "u < g_n g" "u \<in> S" and j: "0 \<le> j" "j < g_n g"
    and inv: "dj_inv g s dist S (pq_entries pq) u (\<lambda>y. j \<le> y)"
    and mk: "marks visited (g_n g) S"
    and hp: "heap_inv pq"
    and acc: "h_size pq \<le> B + pushes_bound u j" "B + (g_n g - 2) < capacity pq"
  shows "\<exists>dist' pq'. dijkstra_relax g visited u j (dist, pq) = Some (dist', pq') \<and>
           dj_inv g s dist' S (pq_entries pq') u (\<lambda>y. j + 1 \<le> y) \<and>
           heap_inv pq' \<and> capacity pq' = capacity pq \<and>
           h_size pq' \<le> B + pushes_bound u (j + 1)"
proof -
  let ?E = "pq_entries pq" and ?w = "mcell (adjMatrix g) u j"
  have len: "int (length dist) = g_n g" and Sr: "\<forall>v \<in> S. 0 \<le> v \<and> v < g_n g"
    and s0: "0 \<le> s" "s < g_n g" and i2: "ival dist s = 0"
    and i3: "\<And>v. 0 \<le> v \<Longrightarrow> v < g_n g \<Longrightarrow>
         ival dist v = 999999 \<or> (0 \<le> ival dist v \<and> ival dist v < 999999 \<and> walk g s v (ival dist v))"
    and i4: "\<And>v. v \<in> S \<Longrightarrow> ival dist v < 999999 \<and> (\<forall>c. walk g s v c \<longrightarrow> ival dist v \<le> c)"
    and i5: "\<And>x y. x \<in> S \<Longrightarrow> y \<notin> S \<Longrightarrow> edge g x y \<Longrightarrow>
         (x = u \<and> j \<le> y) \<or> ival dist y \<le> ival dist x + mcell (adjMatrix g) x y"
    and i6: "\<And>e. e \<in># ?E \<Longrightarrow> 0 \<le> pq_vertex e \<and> pq_vertex e < g_n g \<and>
         ival dist (pq_vertex e) \<le> pq_key e \<and> pq_key e < 999999"
    and i7: "\<And>v. 0 \<le> v \<Longrightarrow> v < g_n g \<Longrightarrow> v \<notin> S \<Longrightarrow> ival dist v < 999999 \<Longrightarrow>
         \<lparr>pq_vertex = v, pq_key = ival dist v\<rparr> \<in># ?E"
    using inv unfolding dj_inv_def by blast+
  have gw: "mat_get (adjMatrix g) u j = Some ?w" using mat_get_Some[OF sq u(1,2) j] .
  have vis: "aget visited j = Some (j \<in> S)" using marks_aget[OF mk j] .
  have e: "edge g u j = (?w \<noteq> 0)" using u j by (simp add: edge_def)
  have pbm: "pushes_bound u j \<le> pushes_bound u (j + 1)" by (simp add: pushes_bound_def)
  have keep: "dj_inv g s dist S ?E u (\<lambda>y. j + 1 \<le> y)"
    if k: "edge g u j \<Longrightarrow> j \<notin> S \<Longrightarrow> ival dist j \<le> ival dist u + ?w"
    unfolding dj_inv_def
  proof (intro conjI allI impI ballI)
    fix x y assume a: "x \<in> S" "y \<notin> S" "edge g x y"
    show "(x = u \<and> j + 1 \<le> y) \<or> ival dist y \<le> ival dist x + mcell (adjMatrix g) x y"
    proof (cases "x = u \<and> y = j")
      case True
      then show ?thesis using k a by simp
    next
      case False
      then show ?thesis using i5[OF a] by auto
    qed
  qed (use len Sr s0 i2 i3 i4 i6 i7 in auto)
  show ?thesis
  proof (cases "edge g u j \<and> j \<notin> S")
    case False
    have res: "dijkstra_relax g visited u j (dist, pq) = Some (dist, pq)"
      using False gw vis e by (auto simp: dijkstra_relax_def)
    show ?thesis using res keep False hp acc(1) pbm by auto
  next
    case True
    have ju: "j \<noteq> u" using True u(3) by auto
    have du: "0 \<le> ival dist u" "ival dist u < 999999" "walk g s u (ival dist u)"
      using i3[OF u(1,2)] i4[OF u(3)] by auto
    have wr: "0 \<le> ?w" "?w \<le> INT_MAX - 999999" using weights_in_cell[OF w sq u(1,2) j] by auto
    let ?sum = "ival dist u + ?w"
    have gu: "aget dist u = Some (ival dist u)" using aget_ival u len by simp
    have gj: "aget dist j = Some (ival dist j)" using aget_ival j len by simp
    have ad: "add32 (ival dist u) ?w = Some ?sum"
      using du wr by (simp add: add32_def INT_MIN_def INT_MAX_def)
    show ?thesis
    proof (cases "?sum < ival dist j")
      case False
      have res: "dijkstra_relax g visited u j (dist, pq) = Some (dist, pq)"
        using True False gw vis e gu gj ad by (auto simp: dijkstra_relax_def)
      show ?thesis using res keep False hp acc(1) pbm by auto
    next
      case lt: True
      let ?dist' = "dist[nat j := ?sum]"
      let ?x = "\<lparr>pq_vertex = j, pq_key = ?sum\<rparr>"
      have upd: "\<And>k. 0 \<le> k \<Longrightarrow> ival ?dist' k = (if k = j then ?sum else ival dist k)"
        using ival_update[of j dist] j len by simp
      have dj': "ival ?dist' j = ?sum" using upd[of j] j by simp
      have dk: "\<And>k. 0 \<le> k \<Longrightarrow> k \<noteq> j \<Longrightarrow> ival ?dist' k = ival dist k" using upd by simp
      have le: "\<And>k. 0 \<le> k \<Longrightarrow> ival ?dist' k \<le> ival dist k" using upd lt by simp
      have st: "aset dist j ?sum = Some ?dist'" using j len by (simp add: aset_def)
      have gj': "aget ?dist' j = Some ?sum" using aget_ival[of j ?dist'] j len dj' by simp
      have sz: "h_size pq < capacity pq"
      proof -
        have "pushes_bound u j \<le> g_n g - 2" using ju u j by (auto simp: pushes_bound_def)
        then show ?thesis using acc by linarith
      qed
      from MinHeap_push_correct[OF hp sz, of j ?sum] obtain pq' where
        pq': "MinHeap_push pq j ?sum = Some pq'" "heap_inv pq'"
          "pq_entries pq' = add_mset ?x ?E" "capacity pq' = capacity pq" "h_size pq' = h_size pq + 1"
        by blast
      have res: "dijkstra_relax g visited u j (dist, pq) = Some (?dist', pq')"
        using True lt gw vis e gu gj ad st gj' pq'(1) by (auto simp: dijkstra_relax_def)
      have dj999: "ival dist j \<le> 999999" using i3[OF j] by auto
      have sj: "s \<noteq> j" using i2 lt du(1) wr(1) by auto
      have inv': "dj_inv g s ?dist' S (pq_entries pq') u (\<lambda>y. j + 1 \<le> y)"
        unfolding dj_inv_def pq'(3)
      proof (intro conjI allI impI ballI)
        show "int (length ?dist') = g_n g" using len by simp
        show "ival ?dist' s = 0" using dk[OF s0(1) sj] i2 by simp
        show "0 \<le> s" "s < g_n g" using s0 by auto
      next
        fix v assume v: "0 \<le> v \<and> v < g_n g"
        show "ival ?dist' v = 999999 \<or>
              (0 \<le> ival ?dist' v \<and> ival ?dist' v < 999999 \<and> walk g s v (ival ?dist' v))"
        proof (cases "v = j")
          case True
          have "walk g s j ?sum" using walk_edge[OF du(3)] \<open>edge g u j \<and> j \<notin> S\<close> by simp
          then show ?thesis using True dj' lt dj999 du(1) wr(1) by simp
        next
          case False
          then show ?thesis using dk[of v] v i3[of v] by simp
        qed
      next
        fix v assume v: "v \<in> S"
        then have "v \<noteq> j" "0 \<le> v" using True Sr by auto
        then show "ival ?dist' v < 999999" "\<And>c. walk g s v c \<Longrightarrow> ival ?dist' v \<le> c"
          using dk[of v] i4[OF v] by auto
      next
        fix x y assume a: "x \<in> S" "y \<notin> S" "edge g x y"
        have x0: "0 \<le> x" "x \<noteq> j" using a(1) Sr True by auto
        have y0: "0 \<le> y" using a(3) by (simp add: edge_def)
        have dx: "ival ?dist' x = ival dist x" using dk[OF x0] .
        show "(x = u \<and> j + 1 \<le> y) \<or> ival ?dist' y \<le> ival ?dist' x + mcell (adjMatrix g) x y"
        proof (cases "y = j")
          case yj: True
          show ?thesis
          proof (cases "x = u")
            case True
            then show ?thesis using yj dj' dx by simp
          next
            case False
            then have "ival dist j \<le> ival dist x + mcell (adjMatrix g) x j" using i5[OF a] yj by simp
            then show ?thesis using yj dj' dx lt by simp
          qed
        next
          case False
          then show ?thesis using i5[OF a] dk[OF y0 False] dx by auto
        qed
      next
        fix e assume e: "e \<in># add_mset ?x ?E"
        show "0 \<le> pq_vertex e" "pq_vertex e < g_n g" "ival ?dist' (pq_vertex e) \<le> pq_key e"
          "pq_key e < 999999"
        proof -
          have "0 \<le> pq_vertex e \<and> pq_vertex e < g_n g \<and> ival ?dist' (pq_vertex e) \<le> pq_key e \<and>
                pq_key e < 999999"
          proof (cases "e = ?x")
            case True
            then show ?thesis using j dj' lt dj999 by simp
          next
            case False
            then have "e \<in># ?E" using e by simp
            then show ?thesis using i6[of e] le[of "pq_vertex e"] by auto
          qed
          then show "0 \<le> pq_vertex e" "pq_vertex e < g_n g" "ival ?dist' (pq_vertex e) \<le> pq_key e"
            "pq_key e < 999999" by auto
        qed
      next
        fix v assume v: "0 \<le> v \<and> v < g_n g \<and> v \<notin> S \<and> ival ?dist' v < 999999"
        show "\<lparr>pq_vertex = v, pq_key = ival ?dist' v\<rparr> \<in># add_mset ?x ?E"
        proof (cases "v = j")
          case True
          then show ?thesis using dj' by simp
        next
          case False
          then show ?thesis using dk[of v] v i7[of v] by simp
        qed
      qed (use Sr in auto)
      have "h_size pq' \<le> B + pushes_bound u (j + 1)"
        using pq'(5) acc(1) ju by (auto simp: pushes_bound_def)
      then show ?thesis using res inv' pq'(2,4) by blast
    qed
  qed
qed

lemma dj_inv_cong:
  assumes "dj_inv g s dist S E u todo"
    and "\<And>v. 0 \<le> v \<Longrightarrow> v < g_n g \<Longrightarrow> todo v \<Longrightarrow> todo' v"
  shows "dj_inv g s dist S E u todo'"
proof -
  have "(x = u \<and> todo' y) \<or> ival dist y \<le> ival dist x + mcell (adjMatrix g) x y"
    if "x \<in> S" "y \<notin> S" "edge g x y" for x y
  proof -
    have "(x = u \<and> todo y) \<or> ival dist y \<le> ival dist x + mcell (adjMatrix g) x y"
      using assms(1) that unfolding dj_inv_def by blast
    moreover have "0 \<le> y" "y < g_n g" using that(3) by (auto simp: edge_def)
    ultimately show ?thesis using assms(2)[of y] by blast
  qed
  then show ?thesis using assms(1) unfolding dj_inv_def by blast
qed

lemma dijkstra_scan:
  assumes sq: "square (g_n g) (adjMatrix g)"
    and w: "weights_in g 0 (INT_MAX - 999999)"
    and u: "0 \<le> u" "u < g_n g" "u \<in> S"
    and inv: "dj_inv g s dist S (pq_entries pq) u (\<lambda>y. True)"
    and mk: "marks visited (g_n g) S"
    and hp: "heap_inv pq"
    and acc: "h_size pq \<le> B" "B + (g_n g - 2) < capacity pq"
  shows "\<exists>dist' pq'. for_up 0 (g_n g) (dijkstra_relax g visited u) (dist, pq) = Some (dist', pq') \<and>
           dj_inv g s dist' S (pq_entries pq') u (\<lambda>y. False) \<and>
           heap_inv pq' \<and> capacity pq' = capacity pq \<and> h_size pq' \<le> B + (g_n g - 1)"
proof -
  let ?I = "\<lambda>j t. dj_inv g s (fst t) S (pq_entries (snd t)) u (\<lambda>y. j \<le> y) \<and>
                  heap_inv (snd t) \<and> capacity (snd t) = capacity pq \<and>
                  h_size (snd t) \<le> B + pushes_bound u j"
  have "\<exists>t. for_up 0 (g_n g) (dijkstra_relax g visited u) (dist, pq) = Some t \<and> ?I (g_n g) t"
  proof (rule for_up_rule[where I = ?I])
    show "?I 0 (dist, pq)"
      using dj_inv_cong[OF inv] hp acc(1) u(1) by (simp add: pushes_bound_def)
    show "0 \<le> g_n g" using u by simp
    fix j t assume j: "0 \<le> j" "j < g_n g" and I: "?I j t"
    obtain d p where t: "t = (d, p)" by (cases t)
    have a2: "B + (g_n g - 2) < capacity p" using I t acc(2) by simp
    from dijkstra_relax_step[OF sq w u j _ mk _ _ a2, of s d] I t
    show "\<exists>t'. dijkstra_relax g visited u j t = Some t' \<and> ?I (j + 1) t'" by auto
  qed
  then obtain dist' pq' where
    r: "for_up 0 (g_n g) (dijkstra_relax g visited u) (dist, pq) = Some (dist', pq')"
      "dj_inv g s dist' S (pq_entries pq') u (\<lambda>y. g_n g \<le> y)"
      "heap_inv pq'" "capacity pq' = capacity pq" "h_size pq' \<le> B + pushes_bound u (g_n g)"
    by auto
  have "dj_inv g s dist' S (pq_entries pq') u (\<lambda>y. False)"
    by (rule dj_inv_cong[OF r(2)]) simp
  moreover have "pushes_bound u (g_n g) = g_n g - 1" using u by (simp add: pushes_bound_def)
  ultimately show ?thesis using r by auto
qed

definition dj_final :: "Graph \<Rightarrow> int \<Rightarrow> int list \<Rightarrow> bool" where
  "dj_final g s dist =
     (int (length dist) = g_n g \<and> ival dist s = 0 \<and>
      (\<forall>v. 0 \<le> v \<and> v < g_n g \<longrightarrow>
         (0 \<le> ival dist v \<and> ival dist v < 999999 \<and> walk g s v (ival dist v) \<and>
          (\<forall>c. walk g s v c \<longrightarrow> ival dist v \<le> c)) \<or>
         (ival dist v = 999999 \<and> (\<forall>c. walk g s v c \<longrightarrow> 999999 \<le> c))))"

lemma dj_inv_final:
  assumes inv: "dj_inv g s dist S {#} u (\<lambda>y. False)"
    and w: "weights_in g 0 hi" "square (g_n g) (adjMatrix g)"
  shows "dj_final g s dist"
  unfolding dj_final_def
proof (intro conjI allI impI)
  show "int (length dist) = g_n g" "ival dist s = 0" using inv by (auto simp: dj_inv_def)
  fix v assume v: "0 \<le> v \<and> v < g_n g"
  have i3: "ival dist v = 999999 \<or> (0 \<le> ival dist v \<and> ival dist v < 999999 \<and> walk g s v (ival dist v))"
    using inv v unfolding dj_inv_def by blast
  have far: "ival dist z = 999999" if "0 \<le> z" "z < g_n g" "z \<notin> S" for z
  proof (rule ccontr)
    assume "ival dist z \<noteq> 999999"
    then have "ival dist z < 999999" using inv that unfolding dj_inv_def by force
    then have "\<lparr>pq_vertex = z, pq_key = ival dist z\<rparr> \<in># {#}"
      using inv that unfolding dj_inv_def by blast
    then show False by simp
  qed
  show "(0 \<le> ival dist v \<and> ival dist v < 999999 \<and> walk g s v (ival dist v) \<and>
          (\<forall>c. walk g s v c \<longrightarrow> ival dist v \<le> c)) \<or>
         (ival dist v = 999999 \<and> (\<forall>c. walk g s v c \<longrightarrow> 999999 \<le> c))"
  proof (cases "v \<in> S")
    case True
    then have "ival dist v < 999999 \<and> (\<forall>c. walk g s v c \<longrightarrow> ival dist v \<le> c)"
      using inv unfolding dj_inv_def by blast
    then show ?thesis using i3 by auto
  next
    case False
    have "999999 \<le> c" if "walk g s v c" for c
    proof -
      from dj_lower[OF inv w that] False obtain z where
        "0 \<le> z" "z < g_n g" "z \<notin> S" "ival dist z \<le> c" by blast
      then show ?thesis using far[of z] by simp
    qed
    then show ?thesis using far[of v] v False by blast
  qed
qed

lemma pq_entries_empty: "h_size pq = 0 \<Longrightarrow> pq_entries pq = {#}"
  by (simp add: pq_entries_def heap_entries_def)

lemma dj_pop_stale:
  assumes inv: "dj_inv g s dist S (add_mset tp E1) u0 (\<lambda>y. False)" and "pq_vertex tp \<in> S"
  shows "dj_inv g s dist S E1 u0 (\<lambda>y. False)"
proof -
  have "\<lparr>pq_vertex = v, pq_key = ival dist v\<rparr> \<in># E1"
    if "0 \<le> v \<and> v < g_n g \<and> v \<notin> S \<and> ival dist v < 999999" for v
  proof -
    have "\<lparr>pq_vertex = v, pq_key = ival dist v\<rparr> \<in># add_mset tp E1"
      using inv that unfolding dj_inv_def by blast
    moreover have "\<lparr>pq_vertex = v, pq_key = ival dist v\<rparr> \<noteq> tp" using assms(2) that by auto
    ultimately show ?thesis by simp
  qed
  moreover have "\<And>e. e \<in># E1 \<Longrightarrow> e \<in># add_mset tp E1" by simp
  ultimately show ?thesis using inv unfolding dj_inv_def by blast
qed

lemma dj_pop_fresh:
  assumes inv: "dj_inv g s dist S (add_mset tp E1) u0 (\<lambda>y. False)"
    and w: "weights_in g 0 hi" "square (g_n g) (adjMatrix g)"
    and fresh: "pq_vertex tp \<notin> S"
    and mn: "\<And>e. e \<in># add_mset tp E1 \<Longrightarrow> pq_key tp \<le> pq_key e"
  shows "dj_inv g s dist (insert (pq_vertex tp) S) E1 (pq_vertex tp) (\<lambda>y. True)"
proof -
  let ?u = "pq_vertex tp" and ?E = "add_mset tp E1"
  have len: "int (length dist) = g_n g" and Sr: "\<forall>v \<in> S. 0 \<le> v \<and> v < g_n g"
    and s0: "0 \<le> s" "s < g_n g" and i2: "ival dist s = 0"
    and i3: "\<And>v. 0 \<le> v \<Longrightarrow> v < g_n g \<Longrightarrow>
         ival dist v = 999999 \<or> (0 \<le> ival dist v \<and> ival dist v < 999999 \<and> walk g s v (ival dist v))"
    and i4: "\<And>v. v \<in> S \<Longrightarrow> ival dist v < 999999 \<and> (\<forall>c. walk g s v c \<longrightarrow> ival dist v \<le> c)"
    and i5: "\<And>x y. x \<in> S \<Longrightarrow> y \<notin> S \<Longrightarrow> edge g x y \<Longrightarrow>
         ival dist y \<le> ival dist x + mcell (adjMatrix g) x y"
    and i6: "\<And>e. e \<in># ?E \<Longrightarrow> 0 \<le> pq_vertex e \<and> pq_vertex e < g_n g \<and>
         ival dist (pq_vertex e) \<le> pq_key e \<and> pq_key e < 999999"
    and i7: "\<And>v. 0 \<le> v \<Longrightarrow> v < g_n g \<Longrightarrow> v \<notin> S \<Longrightarrow> ival dist v < 999999 \<Longrightarrow>
         \<lparr>pq_vertex = v, pq_key = ival dist v\<rparr> \<in># ?E"
    using inv unfolding dj_inv_def by blast+
  have ur: "0 \<le> ?u" "?u < g_n g" "ival dist ?u \<le> pq_key tp" "pq_key tp < 999999"
    using i6[of tp] by auto
  have du: "ival dist ?u < 999999" using ur by simp
  have least: "ival dist ?u \<le> ival dist z" if z: "0 \<le> z" "z < g_n g" "z \<notin> S" for z
  proof (cases "ival dist z < 999999")
    case True
    from mn[OF i7[OF z True]] show ?thesis using ur by simp
  next
    case False
    then show ?thesis using i3[OF z(1,2)] du by auto
  qed
  have opt: "ival dist ?u \<le> c" if "walk g s ?u c" for c
  proof -
    from dj_lower[OF inv w that] fresh obtain z where
      z: "0 \<le> z" "z < g_n g" "z \<notin> S" "ival dist z \<le> c" by blast
    then show ?thesis using least[of z] by simp
  qed
  show ?thesis unfolding dj_inv_def
  proof (intro conjI allI impI ballI)
    fix v assume "v \<in> insert ?u S"
    then show "0 \<le> v" "v < g_n g" using Sr ur by auto
  next
    fix v assume v: "v \<in> insert ?u S"
    show "ival dist v < 999999" using v du i4 by auto
    fix c assume "walk g s v c"
    then show "ival dist v \<le> c" using v opt i4 by auto
  next
    fix x y assume a: "x \<in> insert ?u S" "y \<notin> insert ?u S" "edge g x y"
    show "(x = ?u \<and> True) \<or> ival dist y \<le> ival dist x + mcell (adjMatrix g) x y"
    proof (cases "x = ?u")
      case False
      then show ?thesis using i5[of x y] a by auto
    qed simp
  next
    fix e assume "e \<in># E1"
    then have "e \<in># ?E" by simp
    from i6[OF this] show "0 \<le> pq_vertex e" "pq_vertex e < g_n g"
      "ival dist (pq_vertex e) \<le> pq_key e" "pq_key e < 999999" by auto
  next
    fix v assume v: "0 \<le> v \<and> v < g_n g \<and> v \<notin> insert ?u S \<and> ival dist v < 999999"
    then have "\<lparr>pq_vertex = v, pq_key = ival dist v\<rparr> \<in># ?E" using i7[of v] by simp
    moreover have "\<lparr>pq_vertex = v, pq_key = ival dist v\<rparr> \<noteq> tp" using v by auto
    ultimately show "\<lparr>pq_vertex = v, pq_key = ival dist v\<rparr> \<in># E1" by simp
  qed (use len s0 i2 i3 in auto)
qed

lemma unvisited_pos:
  assumes "marks visited k S" "0 \<le> u" "u < k" "u \<notin> S"
  shows "1 \<le> int (unvisited visited) \<and>
         int (unvisited (visited[nat u := True])) = int (unvisited visited) - 1"
proof -
  have "nat u < length visited" "\<not> visited ! nat u" using assms by (auto simp: marks_def)
  from unvisited_mark_Suc[OF this] show ?thesis by linarith
qed

lemma dijkstra_loop_correct:
  assumes sq: "square (g_n g) (adjMatrix g)"
    and w: "weights_in g 0 (INT_MAX - 999999)"
    and inv: "dj_inv g s dist S (pq_entries pq) u0 (\<lambda>y. False)"
    and mk: "marks visited (g_n g) S"
    and hp: "heap_inv pq" and cap: "capacity pq = g_n g * g_n g"
    and acc: "h_size pq + (g_n g - 1) * int (unvisited visited) \<le> 1 + (g_n g - 1) * g_n g"
  shows "\<exists>dist'. dijkstra_loop g dist visited pq = Some dist' \<and> dj_final g s dist'"
  using assms
proof (induction g dist visited pq arbitrary: S u0 rule: dijkstra_loop.induct)
  case (1 g dist visited pq)
  note sq = "1.prems"(1) and w = "1.prems"(2) and inv = "1.prems"(3) and mk = "1.prems"(4)
    and hp = "1.prems"(5) and cap = "1.prems"(6) and acc = "1.prems"(7)
  let ?n = "g_n g"
  show ?case
  proof (cases "h_size pq = 0")
    case True
    have "dijkstra_loop g dist visited pq = Some dist"
      using True by (simp add: dijkstra_loop.simps[of g dist visited pq] MinHeap_empty_def)
    moreover have "dj_final g s dist"
      using dj_inv_final[OF _ w sq] inv pq_entries_empty[OF True] by simp
    ultimately show ?thesis by blast
  next
    case False
    then have pos: "0 < h_size pq" using hp by (simp add: heap_inv_def)
    have ne: "\<not> MinHeap_empty pq" using False by (simp add: MinHeap_empty_def)
    from MinHeap_pop_correct[OF hp pos] obtain tp pq1 where
      pop: "MinHeap_pop pq = Some (tp, pq1)" "heap_inv pq1"
        "pq_entries pq = add_mset tp (pq_entries pq1)"
        "\<And>e. e \<in># pq_entries pq \<Longrightarrow> pq_key tp \<le> pq_key e"
        "capacity pq1 = capacity pq" "h_size pq1 = h_size pq - 1"
      by blast
    let ?u = "pq_vertex tp"
    have inv1: "dj_inv g s dist S (add_mset tp (pq_entries pq1)) u0 (\<lambda>y. False)"
      using inv pop(3) by simp
    have ur: "0 \<le> ?u" "?u < ?n" using inv1 unfolding dj_inv_def by auto
    have vis: "aget visited ?u = Some (?u \<in> S)" using marks_aget[OF mk ur] .
    have n1: "1 \<le> ?n" using ur by simp
    show ?thesis
    proof (cases "?u \<in> S")
      case True
      have inv2: "dj_inv g s dist S (pq_entries pq1) u0 (\<lambda>y. False)"
        using dj_pop_stale[OF inv1 True] .
      have acc2: "h_size pq1 + (?n - 1) * int (unvisited visited) \<le> 1 + (?n - 1) * ?n"
        using acc pop(6) by simp
      have step: "dijkstra_loop g dist visited pq = dijkstra_loop g dist visited pq1"
        using ne pop(1) vis True by (simp add: dijkstra_loop.simps[of g dist visited pq])
      have "\<exists>dist'. dijkstra_loop g dist visited pq1 = Some dist' \<and> dj_final g s dist'"
        by (rule "1.IH"(1)[OF ne pop(1) refl refl vis True sq w inv2 mk pop(2) _ acc2])
          (use pop(5) cap in simp)
      then show ?thesis using step by simp
    next
      case False
      let ?S = "insert ?u S" and ?visited1 = "visited[nat ?u := True]"
      from marks_aset[OF mk ur] have
        st: "aset visited ?u True = Some ?visited1" and mk1: "marks ?visited1 ?n ?S" by auto
      have inv2: "dj_inv g s dist ?S (pq_entries pq1) ?u (\<lambda>y. True)"
        by (rule dj_pop_fresh[OF inv1 w sq False]) (use pop(3,4) in auto)
      from unvisited_pos[OF mk ur False] have
        c1: "1 \<le> int (unvisited visited)"
        and c2: "int (unvisited ?visited1) = int (unvisited visited) - 1" by auto
      define K where "K = ?n - 1"
      define c where "c = int (unvisited visited)"
      have K0: "0 \<le> K" using n1 by (simp add: K_def)
      have Kc: "K \<le> K * c" using K0 c1 unfolding c_def by (simp add: mult_le_cancel_left1)
      have acc': "h_size pq + K * c \<le> 1 + K * ?n" using acc by (simp add: K_def c_def)
      have capK: "capacity pq1 = K * ?n + ?n" using pop(5) cap by (simp add: K_def algebra_simps)
      have a2: "h_size pq1 + (?n - 2) < capacity pq1"
        using acc' Kc capK pop(6) K0 by linarith
      from dijkstra_scan[OF sq w ur _ inv2 mk1 pop(2) order.refl a2]
      obtain dist' pq' where
        sc: "for_up 0 ?n (dijkstra_relax g ?visited1 ?u) (dist, pq1) = Some (dist', pq')"
          "dj_inv g s dist' ?S (pq_entries pq') ?u (\<lambda>y. False)"
          "heap_inv pq'" "capacity pq' = capacity pq1" "h_size pq' \<le> h_size pq1 + (?n - 1)"
        by auto
      have "K * (c - 1) = K * c - K" by (simp add: algebra_simps)
      then have acc3: "h_size pq' + (?n - 1) * int (unvisited ?visited1) \<le> 1 + (?n - 1) * ?n"
        using sc(5) pop(6) acc' c2 by (simp add: K_def[symmetric] c_def[symmetric])
      have step: "dijkstra_loop g dist visited pq = dijkstra_loop g dist' ?visited1 pq'"
        using ne pop(1) vis False st sc(1) by (simp add: dijkstra_loop.simps[of g dist visited pq])
      have "\<exists>d. dijkstra_loop g dist' ?visited1 pq' = Some d \<and> dj_final g s d"
        by (rule "1.IH"(2)[OF ne pop(1) refl refl vis False st sc(1) refl sq w sc(2) mk1 sc(3) _ acc3])
          (use sc(4) pop(5) cap in simp)
      then show ?thesis using step by simp
    qed
  qed
qed

lemma unvisited_replicate: "unvisited (replicate k False) = k"
  by (simp add: unvisited_def)

lemma dijkstra_render_loop:
  assumes len: "int (length dist) = n" and pos: "\<And>v. 0 \<le> v \<Longrightarrow> v < n \<Longrightarrow> 0 \<le> ival dist v"
  shows "for_up 0 n (dijkstra_render n dist) ''['' = Some (seq_open dist)"
proof -
  let ?I = "\<lambda>i r. r = seq_open (take (nat i) dist) @ (if 0 < i \<and> i < n then '','' else [])"
  have n0: "0 \<le> n" using len by auto
  have "\<exists>r. for_up 0 n (dijkstra_render n dist) ''['' = Some r \<and> ?I n r"
  proof (rule for_up_rule[where I = ?I])
    show "?I 0 ''[''" by (simp add: seq_open_def)
    show "0 \<le> n" by (rule n0)
    fix i r assume i: "0 \<le> i" "i < n" and I: "?I i r"
    have g: "aget dist i = Some (ival dist i)" using aget_ival i len by simp
    have s: "intToString (ival dist i) = Some (decimal (ival dist i))"
      using intToString_vertex[OF pos[OF i]] .
    have tk: "take (nat (i + 1)) dist = take (nat i) dist @ [ival dist i]"
      using i len by (simp add: nat_add_distrib take_Suc_conv_app_nth ival_def)
    have e: "(take (nat i) dist = []) = (i = 0)" using i len by auto
    have "dijkstra_render n dist i r =
          Some (if i < n - 1 then r @ decimal (ival dist i) @ '','' else r @ decimal (ival dist i))"
      using g s by (simp add: dijkstra_render_def)
    moreover have "?I (i + 1)
          (if i < n - 1 then r @ decimal (ival dist i) @ '','' else r @ decimal (ival dist i))"
      using I i e unfolding tk seq_open_snoc by auto
    ultimately show "\<exists>r'. dijkstra_render n dist i r = Some r' \<and> ?I (i + 1) r'" by simp
  qed
  then show ?thesis using len by auto
qed

lemma dijkstra_correct:
  assumes sq: "square (g_n g) (adjMatrix g)" and nb: "g_n g \<le> 32767"
    and w: "weights_in g 0 (INT_MAX - 999999)"
    and st: "0 \<le> start" "start < g_n g"
  shows "\<exists>ds. dijkstra g start = Some (seq_text ds) \<and> dj_final g start ds"
proof -
  let ?n = "g_n g"
  let ?d0 = "replicate (nat ?n) (999999::int)" and ?v0 = "replicate (nat ?n) False"
  let ?d1 = "?d0[nat start := 0]"
  have na1: "new_array ?n (999999::int) = Some ?d0" using st by (simp add: new_array_def)
  have na2: "new_array ?n False = Some ?v0" using st by (simp add: new_array_def)
  have as: "aset ?d0 start 0 = Some ?d1" using st by (simp add: aset_def)
  have nn: "?n * ?n \<le> 32767 * 32767" using st nb by (intro mult_mono) auto
  have cap0: "0 \<le> ?n * ?n" "?n * ?n < 1073741824" using nn by auto
  have "INT_MIN \<le> ?n * ?n \<and> ?n * ?n \<le> INT_MAX"
    using cap0 unfolding INT_MIN_def INT_MAX_def by linarith
  then have ml: "mul32 ?n ?n = Some (?n * ?n)" by (simp add: mul32_def)
  from MinHeap_new_correct[OF cap0] obtain pq0 where
    pq0: "MinHeap_new (?n * ?n) = Some pq0" "heap_inv pq0" "pq_entries pq0 = {#}"
      "capacity pq0 = ?n * ?n" "h_size pq0 = 0"
    by blast
  have "0 < ?n * ?n" using st by (simp add: zero_less_mult_iff)
  then have "h_size pq0 < capacity pq0" using pq0 by simp
  from MinHeap_push_correct[OF pq0(2) this, of start 0] obtain pq where
    pq: "MinHeap_push pq0 start 0 = Some pq" "heap_inv pq"
      "pq_entries pq = {#\<lparr>pq_vertex = start, pq_key = 0\<rparr>#}" "capacity pq = ?n * ?n" "h_size pq = 1"
    using pq0 by auto
  have d1: "\<And>v. 0 \<le> v \<Longrightarrow> v < ?n \<Longrightarrow> ival ?d1 v = (if v = start then 0 else 999999)"
    using st by (auto simp: ival_def nat_eq_iff)
  have inv: "dj_inv g start ?d1 {} (pq_entries pq) 0 (\<lambda>y. False)"
    unfolding dj_inv_def pq(3)
    using st d1 walk_start[of start g] by auto
  have mk: "marks ?v0 ?n {}" using st by (simp add: marks_def)
  have acc: "h_size pq + (?n - 1) * int (unvisited ?v0) \<le> 1 + (?n - 1) * ?n"
    using pq(5) st by (simp add: unvisited_replicate)
  from dijkstra_loop_correct[OF sq w inv mk pq(2,4) acc] obtain ds where
    ds: "dijkstra_loop g ?d1 ?v0 pq = Some ds" "dj_final g start ds" by blast
  have len: "int (length ds) = ?n" using ds(2) by (simp add: dj_final_def)
  have pos: "0 \<le> ival ds v" if "0 \<le> v" "v < ?n" for v
    using ds(2) that unfolding dj_final_def by force
  have rn: "for_up 0 ?n (dijkstra_render ?n ds) ''['' = Some (seq_open ds)"
    using dijkstra_render_loop[OF len pos] by simp
  have "dijkstra g start = Some (seq_open ds @ '']'')"
    using st na1 na2 as ml pq0(1) pq(1) ds(1) rn by (simp add: dijkstra_def)
  then show ?thesis using ds(2) by (auto simp: seq_text_open)
qed

lemma far_graph_run: "dijkstra far_graph 0 = Some ''[0,999999]''"
  by code_simp

lemma far_graph_text: "seq_text [0, 999999] = ''[0,999999]''"
  by code_simp

lemma far_graph_edge: "edge far_graph u v \<Longrightarrow> mcell (adjMatrix far_graph) u v = 1000000"
proof -
  assume e: "edge far_graph u v"
  then have "u = 0 \<or> u = 1" "v = 0 \<or> v = 1" by (auto simp: edge_def far_graph_def)
  then show ?thesis using e by (auto simp: edge_def far_graph_def mcell_def)
qed

lemma far_graph_walk: "walk far_graph s v c \<Longrightarrow> c mod 1000000 = 0"
  by (induction rule: walk.induct) (auto simp: far_graph_edge)

text \<open>
  Claim C2, as stated, fails: in \<open>far_graph\<close> all weights are nonnegative and vertex 1 is
  reachable from vertex 0, its only paths weigh multiples of 1000000, and \<^verbatim>\<open>dijkstra(0)\<close>
  reports 999999 for it, the weight of no path.
\<close>

theorem dijkstra_sentinel_counterexample:
  "weights_in far_graph 0 1000000 \<and> edge far_graph 0 1 \<and> walk far_graph 0 1 1000000 \<and>
   dijkstra far_graph 0 = Some (seq_text [0, 999999]) \<and> \<not> walk far_graph 0 1 999999"
proof -
  have e: "edge far_graph 0 1" by (simp add: edge_def far_graph_def mcell_def)
  have "walk far_graph 0 0 0" by (rule walk_start) (simp_all add: far_graph_def)
  from walk_edge[OF this e] have w: "walk far_graph 0 1 1000000"
    by (simp add: far_graph_def mcell_def)
  have "\<not> walk far_graph 0 1 999999" using far_graph_walk[of 0 1 999999] by auto
  moreover have "weights_in far_graph 0 1000000" by (simp add: weights_in_def far_graph_def)
  ultimately show ?thesis using e w far_graph_run far_graph_text by simp
qed

text \<open>
  Claim C2, amended.  For a graph with a square matrix, at most 32767 vertices and all
  weights between 0 and 2146483648 (\<^verbatim>\<open>INT_MAX\<close> - 999999), and a start index in range,
  \<^verbatim>\<open>dijkstra\<close> returns the text of a sequence \<open>ds\<close> of length \<open>vertexCount\<close> with
  \<open>ds[start] = 0\<close>; for every vertex \<open>v\<close>, either \<open>ds[v]\<close> is below 999999 and is the least
  total weight of a path from the start to \<open>v\<close>, or \<open>ds[v]\<close> is the sentinel 999999 and
  every path from the start to \<open>v\<close> (if there is one) weighs at least 999999.
\<close>

theorem dijkstra_shortest:
  assumes "square (g_n g) (adjMatrix g)" and "g_n g \<le> 32767"
    and "weights_in g 0 2146483648"
    and "0 \<le> start" and "start < g_n g"
  shows "\<exists>ds. dijkstra g start = Some (seq_text ds) \<and> int (length ds) = g_n g \<and>
           ds ! nat start = 0 \<and>
           (\<forall>v. 0 \<le> v \<and> v < g_n g \<longrightarrow>
              (0 \<le> ds ! nat v \<and> ds ! nat v < 999999 \<and> walk g start v (ds ! nat v) \<and>
               (\<forall>c. walk g start v c \<longrightarrow> ds ! nat v \<le> c)) \<or>
              (ds ! nat v = 999999 \<and> (\<forall>c. walk g start v c \<longrightarrow> 999999 \<le> c)))"
proof -
  have w: "weights_in g 0 (INT_MAX - 999999)" using assms(3) by (simp add: INT_MAX_def)
  from dijkstra_correct[OF assms(1,2) w assms(4,5)] obtain ds where
    "dijkstra g start = Some (seq_text ds)" "dj_final g start ds" by blast
  then show ?thesis unfolding dj_final_def ival_def by blast
qed

theorem dijkstra_shortest_witness:
  "\<exists>ds. dijkstra spec_graph 0 = Some (seq_text ds) \<and> length ds = 4 \<and> ds ! 0 = 0 \<and>
        0 \<le> ds ! 1 \<and> ds ! 1 \<le> 1"
proof -
  have sq: "square (g_n spec_graph) (adjMatrix spec_graph)"
    by (simp add: spec_graph_def square_def)
  have nb: "g_n spec_graph \<le> 32767" by (simp add: spec_graph_def)
  have w: "weights_in spec_graph 0 2146483648" by (simp add: weights_in_def spec_graph_def)
  have r: "(0::int) \<le> 0" "0 < g_n spec_graph" by (simp_all add: spec_graph_def)
  from dijkstra_shortest[OF sq nb w r] obtain ds where
    ds: "dijkstra spec_graph 0 = Some (seq_text ds)" "int (length ds) = g_n spec_graph"
      "ds ! nat 0 = 0"
      "\<And>v. 0 \<le> v \<and> v < g_n spec_graph \<Longrightarrow>
              (0 \<le> ds ! nat v \<and> ds ! nat v < 999999 \<and> walk spec_graph 0 v (ds ! nat v) \<and>
               (\<forall>c. walk spec_graph 0 v c \<longrightarrow> ds ! nat v \<le> c)) \<or>
              (ds ! nat v = 999999 \<and> (\<forall>c. walk spec_graph 0 v c \<longrightarrow> 999999 \<le> c))"
    by blast
  have e: "edge spec_graph 0 1" by (simp add: edge_def spec_graph_def mcell_def)
  have "walk spec_graph 0 0 0" by (rule walk_start) (simp_all add: spec_graph_def)
  from walk_edge[OF this e] have wk: "walk spec_graph 0 1 1"
    by (simp add: spec_graph_def mcell_def)
  have "0 \<le> ds ! nat 1 \<and> ds ! nat 1 \<le> 1" using ds(4)[of 1] wk by (auto simp: spec_graph_def)
  then show ?thesis using ds(1,2,3) by (auto simp: spec_graph_def)
qed

section \<open>Bounds of the array accesses of primMST\<close>

text \<open>
  The safety invariant of the loop of \<^verbatim>\<open>primMST\<close>: the three arrays have \<open>vertexCount\<close>
  cells, every parent is \<open>-1\<close> or a vertex, the heap is well formed and holds vertices only.
\<close>

definition prim_safe :: "Graph \<Rightarrow> int list \<Rightarrow> int list \<Rightarrow> bool list \<Rightarrow> MinHeap \<Rightarrow> bool" where
  "prim_safe g key parent inMST pq =
     (int (length key) = g_n g \<and> int (length parent) = g_n g \<and> int (length inMST) = g_n g \<and>
      (\<forall>v. 0 \<le> v \<and> v < g_n g \<longrightarrow> ival parent v = - 1 \<or> (0 \<le> ival parent v \<and> ival parent v < g_n g)) \<and>
      heap_inv pq \<and> (\<forall>e. e \<in># pq_entries pq \<longrightarrow> 0 \<le> pq_vertex e \<and> pq_vertex e < g_n g))"

lemma MinHeap_push_safe:
  assumes "heap_inv pq"
  shows "\<exists>pq'. MinHeap_push pq v k = Some pq' \<and> heap_inv pq' \<and>
           (\<forall>e. e \<in># pq_entries pq' \<longrightarrow> e \<in># pq_entries pq \<or> pq_vertex e = v)"
proof (cases "h_size pq < capacity pq")
  case True
  from MinHeap_push_correct[OF assms True, of v k] show ?thesis by auto
next
  case False
  then show ?thesis using assms by (simp add: MinHeap_push_full)
qed

lemma prim_relax_safe:
  assumes sq: "square (g_n g) (adjMatrix g)"
    and u: "0 \<le> u" "u < g_n g" and j: "0 \<le> j" "j < g_n g"
    and inv: "prim_safe g key parent inMST pq"
  shows "\<exists>key' parent' pq'. prim_relax g inMST u j (key, parent, pq) = Some (key', parent', pq') \<and>
           prim_safe g key' parent' inMST pq'"
proof -
  let ?w = "mcell (adjMatrix g) u j"
  have lens: "int (length key) = g_n g" "int (length parent) = g_n g" "int (length inMST) = g_n g"
    and par: "\<And>v. 0 \<le> v \<Longrightarrow> v < g_n g \<Longrightarrow>
         ival parent v = - 1 \<or> (0 \<le> ival parent v \<and> ival parent v < g_n g)"
    and hp: "heap_inv pq"
    and ent: "\<And>e. e \<in># pq_entries pq \<Longrightarrow> 0 \<le> pq_vertex e \<and> pq_vertex e < g_n g"
    using inv unfolding prim_safe_def by blast+
  have gw: "mat_get (adjMatrix g) u j = Some ?w" using mat_get_Some[OF sq u j] .
  have gi: "aget inMST j = Some (inMST ! nat j)" using j lens by (simp add: aget_def)
  have gk: "aget key j = Some (ival key j)" using aget_ival j lens by simp
  show ?thesis
  proof (cases "?w \<noteq> 0 \<and> \<not> inMST ! nat j \<and> ?w < ival key j")
    case False
    then have "prim_relax g inMST u j (key, parent, pq) = Some (key, parent, pq)"
      using gw gi gk by (auto simp: prim_relax_def)
    then show ?thesis using inv by simp
  next
    case True
    let ?key' = "key[nat j := ?w]" and ?parent' = "parent[nat j := u]"
    have sk: "aset key j ?w = Some ?key'" using j lens by (simp add: aset_def)
    have sp: "aset parent j u = Some ?parent'" using j lens by (simp add: aset_def)
    have gk': "aget ?key' j = Some ?w" using j lens by (simp add: aget_def)
    from MinHeap_push_safe[OF hp, of j ?w] obtain pq' where
      pq': "MinHeap_push pq j ?w = Some pq'" "heap_inv pq'"
        "\<And>e. e \<in># pq_entries pq' \<Longrightarrow> e \<in># pq_entries pq \<or> pq_vertex e = j"
      by blast
    have res: "prim_relax g inMST u j (key, parent, pq) = Some (?key', ?parent', pq')"
      using True gw gi gk sk sp gk' pq'(1) by (auto simp: prim_relax_def)
    have "ival ?parent' v = - 1 \<or> (0 \<le> ival ?parent' v \<and> ival ?parent' v < g_n g)"
      if "0 \<le> v" "v < g_n g" for v
      using ival_update[of j parent v u] j lens that par[of v] u by auto
    moreover have "0 \<le> pq_vertex e \<and> pq_vertex e < g_n g" if "e \<in># pq_entries pq'" for e
      using pq'(3)[OF that] ent[of e] j by auto
    ultimately have "prim_safe g ?key' ?parent' inMST pq'"
      unfolding prim_safe_def using lens pq'(2) by simp
    then show ?thesis using res by blast
  qed
qed

lemma prim_scan_safe:
  assumes sq: "square (g_n g) (adjMatrix g)"
    and u: "0 \<le> u" "u < g_n g"
    and inv: "prim_safe g key parent inMST pq"
  shows "\<exists>key' parent' pq'. for_up 0 (g_n g) (prim_relax g inMST u) (key, parent, pq)
              = Some (key', parent', pq') \<and> prim_safe g key' parent' inMST pq'"
proof -
  let ?I = "\<lambda>(j::int) t. prim_safe g (fst t) (fst (snd t)) inMST (snd (snd t))"
  have "\<exists>t. for_up 0 (g_n g) (prim_relax g inMST u) (key, parent, pq) = Some t \<and> ?I (g_n g) t"
  proof (rule for_up_rule[where I = ?I])
    show "?I 0 (key, parent, pq)" using inv by simp
    show "0 \<le> g_n g" using u by simp
    fix j t assume j: "0 \<le> j" "j < g_n g" and I: "?I j t"
    obtain k p q where t: "t = (k, p, q)" by (cases t)
    from prim_relax_safe[OF sq u j, of k p inMST q] I t
    show "\<exists>t'. prim_relax g inMST u j t = Some t' \<and> ?I (j + 1) t'" by auto
  qed
  then show ?thesis by auto
qed

lemma prim_emit_safe:
  assumes sq: "square (g_n g) (adjMatrix g)"
    and w: "weights_in g (INT_MIN + 1) hi"
    and u: "0 \<le> u" "u < g_n g"
    and inv: "prim_safe g key parent inMST pq"
  shows "\<exists>r. prim_emit g parent u (result, first) = Some r"
proof -
  have lens: "int (length parent) = g_n g"
    and par: "ival parent u = - 1 \<or> (0 \<le> ival parent u \<and> ival parent u < g_n g)"
    using inv u unfolding prim_safe_def by blast+
  have gp: "aget parent u = Some (ival parent u)" using aget_ival u lens by simp
  show ?thesis
  proof (cases "ival parent u = - 1")
    case True
    then show ?thesis using gp by (simp add: prim_emit_def)
  next
    case False
    then have p: "0 \<le> ival parent u" "ival parent u < g_n g" using par by auto
    have gw: "mat_get (adjMatrix g) (ival parent u) u = Some (mcell (adjMatrix g) (ival parent u) u)"
      using mat_get_Some[OF sq p u] .
    have "INT_MIN < mcell (adjMatrix g) (ival parent u) u"
      using weights_in_cell[OF w sq p u] by simp
    then have sw: "intToString (mcell (adjMatrix g) (ival parent u) u)
        = Some (decimal (mcell (adjMatrix g) (ival parent u) u))"
      by (rule intToString_decimal)
    show ?thesis
      using False gp gw sw intToString_vertex[OF p(1)] intToString_vertex[OF u(1)]
      by (auto simp: prim_emit_def Let_def)
  qed
qed

lemma prim_loop_safe:
  assumes "square (g_n g) (adjMatrix g)" "weights_in g (INT_MIN + 1) hi"
    "prim_safe g key parent inMST pq"
  shows "\<exists>r. prim_loop g key parent inMST pq result first = Some r"
  using assms
proof (induction g key parent inMST pq result first rule: prim_loop.induct)
  case (1 g key parent inMST pq result first)
  note sq = "1.prems"(1) and w = "1.prems"(2) and inv = "1.prems"(3)
  have hp: "heap_inv pq" and lens: "int (length inMST) = g_n g"
    using inv by (auto simp: prim_safe_def)
  show ?case
  proof (cases "h_size pq = 0")
    case True
    then show ?thesis by (simp add: prim_loop.simps[of g key parent inMST pq] MinHeap_empty_def)
  next
    case False
    then have pos: "0 < h_size pq" using hp by (simp add: heap_inv_def)
    have ne: "\<not> MinHeap_empty pq" using False by (simp add: MinHeap_empty_def)
    from MinHeap_pop_correct[OF hp pos] obtain tp pq1 where
      pop: "MinHeap_pop pq = Some (tp, pq1)" "heap_inv pq1"
        "pq_entries pq = add_mset tp (pq_entries pq1)"
      by blast
    let ?u = "pq_vertex tp"
    have ur: "0 \<le> ?u" "?u < g_n g" using inv pop(3) unfolding prim_safe_def by auto
    have inv1: "prim_safe g key parent inMST pq1"
      using inv pop(2,3) unfolding prim_safe_def by auto
    have gi: "aget inMST ?u = Some (inMST ! nat ?u)" using ur lens by (simp add: aget_def)
    show ?thesis
    proof (cases "inMST ! nat ?u")
      case True
      have step: "prim_loop g key parent inMST pq result first
                = prim_loop g key parent inMST pq1 result first"
        using ne pop(1) gi True by (simp add: prim_loop.simps[of g key parent inMST pq])
      have "\<exists>r. prim_loop g key parent inMST pq1 result first = Some r"
        by (rule "1.IH"(1)[OF ne pop(1) refl refl gi True sq w inv1])
      then show ?thesis using step by simp
    next
      case False
      let ?inMST1 = "inMST[nat ?u := True]"
      have st: "aset inMST ?u True = Some ?inMST1" using ur lens by (simp add: aset_def)
      have inv2: "prim_safe g key parent ?inMST1 pq1" using inv1 by (simp add: prim_safe_def)
      from prim_emit_safe[OF sq w ur inv, of result first] obtain result1 first1 where
        em: "prim_emit g parent ?u (result, first) = Some (result1, first1)" by force
      from prim_scan_safe[OF sq ur inv2] obtain key' parent' pq' where
        sc: "for_up 0 (g_n g) (prim_relax g ?inMST1 ?u) (key, parent, pq1) = Some (key', parent', pq')"
          "prim_safe g key' parent' ?inMST1 pq'"
        by blast
      have step: "prim_loop g key parent inMST pq result first
                = prim_loop g key' parent' ?inMST1 pq' result1 first1"
        using ne pop(1) gi False st em sc(1) by (simp add: prim_loop.simps[of g key parent inMST pq])
      have "\<exists>r. prim_loop g key' parent' ?inMST1 pq' result1 first1 = Some r"
        by (rule "1.IH"(2)[OF ne pop(1) refl refl gi False st em refl sc(1) refl refl sq w sc(2)])
      then show ?thesis using step by simp
    qed
  qed
qed

definition empty_graph :: Graph where
  "empty_graph = \<lparr>g_n = 0, adjMatrix = [], isDirected = False\<rparr>"

lemma primMST_safe:
  assumes sq: "square (g_n g) (adjMatrix g)" and n1: "1 \<le> g_n g" and nb: "g_n g \<le> 32767"
    and w: "weights_in g (INT_MIN + 1) hi"
  shows "\<exists>r. primMST g = Some r"
proof (cases "isDirected g")
  case True
  then show ?thesis by (simp add: primMST_def)
next
  case False
  let ?n = "g_n g"
  let ?k0 = "replicate (nat ?n) (999999::int)" and ?p0 = "replicate (nat ?n) (- 1::int)"
  let ?m0 = "replicate (nat ?n) False"
  let ?k1 = "?k0[nat 0 := 0]"
  have na: "new_array ?n (999999::int) = Some ?k0" "new_array ?n (- 1::int) = Some ?p0"
    "new_array ?n False = Some ?m0"
    using n1 by (simp_all add: new_array_def)
  have as: "aset ?k0 0 0 = Some ?k1" using n1 by (simp add: aset_def)
  have nn: "?n * ?n \<le> 32767 * 32767" using n1 nb by (intro mult_mono) auto
  have cap0: "0 \<le> ?n * ?n" "?n * ?n < 1073741824" using nn by auto
  have "INT_MIN \<le> ?n * ?n \<and> ?n * ?n \<le> INT_MAX"
    using cap0 unfolding INT_MIN_def INT_MAX_def by linarith
  then have ml: "mul32 ?n ?n = Some (?n * ?n)" by (simp add: mul32_def)
  from MinHeap_new_correct[OF cap0] obtain pq0 where
    pq0: "MinHeap_new (?n * ?n) = Some pq0" "heap_inv pq0" "pq_entries pq0 = {#}"
    by blast
  from MinHeap_push_safe[OF pq0(2), of 0 0] obtain pq where
    pq: "MinHeap_push pq0 0 0 = Some pq" "heap_inv pq"
      "\<And>e. e \<in># pq_entries pq \<Longrightarrow> e \<in># pq_entries pq0 \<or> pq_vertex e = 0"
    by blast
  have "ival ?p0 v = - 1" if "0 \<le> v" "v < ?n" for v
    using that by (simp add: ival_def)
  moreover have "0 \<le> pq_vertex e \<and> pq_vertex e < ?n" if "e \<in># pq_entries pq" for e
    using pq(3)[OF that] pq0(3) n1 by auto
  ultimately have inv: "prim_safe g ?k1 ?p0 ?m0 pq"
    unfolding prim_safe_def using n1 pq(2) by simp
  from prim_loop_safe[OF sq w inv, of "''[''" True] obtain r where
    r: "prim_loop g ?k1 ?p0 ?m0 pq ''['' True = Some r" by blast
  show ?thesis using False na as ml pq0(1) pq(1) r by (simp add: primMST_def)
qed

lemma primMST_empty:
  assumes "\<not> isDirected g" "g_n g < 1"
  shows "primMST g = None"
proof (cases "g_n g < 0")
  case True
  then show ?thesis using assms by (simp add: primMST_def new_array_def)
next
  case False
  then have "g_n g = 0" using assms by simp
  then show ?thesis using assms by (simp add: primMST_def new_array_def aset_def)
qed

text \<open>
  Claim C9.  On an undirected graph with \<open>vertexCount = 0\<close> the three arrays of \<^verbatim>\<open>primMST\<close>
  are allocated with no cell and the initialising write \<^verbatim>\<open>key[0] = 0\<close> is out of bounds, so the
  call faults; an undirected call that does not fault has \<open>vertexCount \<ge> 1\<close>.  With
  \<open>1 \<le> vertexCount \<le> 32767\<close>, a square matrix and no cell equal to \<open>INT_MIN\<close>, every access
  is in bounds and the call returns.  With \<open>vertexCount = 0\<close>, \<^verbatim>\<open>bfs\<close>, \<^verbatim>\<open>dfs\<close> and
  \<^verbatim>\<open>dijkstra\<close> reject every start index and return the empty text.
\<close>

theorem primMST_bounds:
  "(\<not> isDirected g \<and> g_n g = 0 \<longrightarrow>
      new_array (g_n g) (999999::int) = Some [] \<and> new_array (g_n g) (- 1::int) = Some [] \<and>
      new_array (g_n g) False = Some [] \<and> aset ([]::int list) 0 0 = None \<and> primMST g = None) \<and>
   (\<not> isDirected g \<and> primMST g \<noteq> None \<longrightarrow> 1 \<le> g_n g) \<and>
   (square (g_n g) (adjMatrix g) \<and> 1 \<le> g_n g \<and> g_n g \<le> 32767 \<and>
      weights_in g (INT_MIN + 1) INT_MAX \<longrightarrow> (\<exists>r. primMST g = Some r)) \<and>
   (g_n g = 0 \<longrightarrow> bfs g s = Some ''[]'' \<and> dfs g s = Some ''[]'' \<and> dijkstra g s = Some ''[]'')"
proof (intro conjI impI)
  assume a: "\<not> isDirected g \<and> g_n g = 0"
  then show "new_array (g_n g) (999999::int) = Some []" "new_array (g_n g) (- 1::int) = Some []"
    "new_array (g_n g) False = Some []"
    by (simp_all add: new_array_def)
  show "aset ([]::int list) 0 0 = None" by (simp add: aset_def)
  show "primMST g = None" using a primMST_empty[of g] by simp
next
  assume "\<not> isDirected g \<and> primMST g \<noteq> None"
  then show "1 \<le> g_n g" using primMST_empty[of g] by force
next
  assume "square (g_n g) (adjMatrix g) \<and> 1 \<le> g_n g \<and> g_n g \<le> 32767 \<and>
      weights_in g (INT_MIN + 1) INT_MAX"
  then show "\<exists>r. primMST g = Some r" using primMST_safe[of g INT_MAX] by blast
next
  assume "g_n g = 0"
  then have "s < 0 \<or> s \<ge> g_n g" by linarith
  then show "bfs g s = Some ''[]''" "dfs g s = Some ''[]''" "dijkstra g s = Some ''[]''"
    by (simp_all only: bfs_def dfs_def dijkstra_def if_True)
qed

theorem primMST_bounds_witness:
  "\<not> isDirected empty_graph \<and> g_n empty_graph = 0 \<and> primMST empty_graph = None \<and>
   bfs empty_graph 0 = Some ''[]'' \<and> dfs empty_graph 0 = Some ''[]'' \<and>
   dijkstra empty_graph 0 = Some ''[]'' \<and>
   square (g_n spec_graph) (adjMatrix spec_graph) \<and> 1 \<le> g_n spec_graph \<and>
   g_n spec_graph \<le> 32767 \<and> weights_in spec_graph (INT_MIN + 1) INT_MAX \<and>
   \<not> isDirected spec_graph \<and> primMST spec_graph \<noteq> None"
proof -
  have e: "\<not> isDirected empty_graph \<and> g_n empty_graph = 0" by (simp add: empty_graph_def)
  have s: "square (g_n spec_graph) (adjMatrix spec_graph) \<and> 1 \<le> g_n spec_graph \<and>
     g_n spec_graph \<le> 32767 \<and> weights_in spec_graph (INT_MIN + 1) INT_MAX \<and> \<not> isDirected spec_graph"
    by (simp add: spec_graph_def square_def weights_in_def INT_MIN_def INT_MAX_def)
  show ?thesis using primMST_bounds[of empty_graph 0] primMST_bounds[of spec_graph 0] e s by auto
qed

section \<open>Spanning trees and the order in which Prim's algorithm grows one\<close>

text \<open>
  An undirected edge is kept as the pair \<open>(u, v)\<close> with \<open>u < v\<close>; \<open>links T\<close> is the relation
  of being joined by an edge of \<open>T\<close>.  \<open>spanning g T\<close>: \<open>T\<close> is a set of edges of \<open>g\<close> that
  joins every vertex to vertex 0.  A spanning tree is a spanning set of \<open>vertexCount - 1\<close>
  edges, and \<open>tree_weight g T\<close> adds up the weights of the edges of \<open>T\<close>.
\<close>

definition nedge :: "int \<Rightarrow> int \<Rightarrow> int \<times> int" where
  "nedge u v = (min u v, max u v)"

definition links :: "(int \<times> int) set \<Rightarrow> int \<Rightarrow> int \<Rightarrow> bool" where
  "links T u v = ((u, v) \<in> T \<or> (v, u) \<in> T)"

definition spanning :: "Graph \<Rightarrow> (int \<times> int) set \<Rightarrow> bool" where
  "spanning g T =
     ((\<forall>e \<in> T. fst e < snd e \<and> edge g (fst e) (snd e)) \<and>
      (\<forall>v. 0 \<le> v \<and> v < g_n g \<longrightarrow> (links T)\<^sup>*\<^sup>* 0 v))"

definition spanning_tree :: "Graph \<Rightarrow> (int \<times> int) set \<Rightarrow> bool" where
  "spanning_tree g T = (spanning g T \<and> int (card T) = g_n g - 1)"

definition tree_weight :: "Graph \<Rightarrow> (int \<times> int) set \<Rightarrow> int" where
  "tree_weight g T = (\<Sum>e \<in> T. mcell (adjMatrix g) (fst e) (snd e))"

lemma links_sym: "links T u v \<Longrightarrow> links T v u"
  by (auto simp: links_def)

lemma links_rtrancl_sym: "(links T)\<^sup>*\<^sup>* u v \<Longrightarrow> (links T)\<^sup>*\<^sup>* v u"
  by (induction rule: rtranclp_induct) (auto intro: converse_rtranclp_into_rtranclp links_sym)

lemma links_mono: "T \<subseteq> T' \<Longrightarrow> links T u v \<Longrightarrow> links T' u v"
  by (auto simp: links_def)

lemma links_rtrancl_mono: "T \<subseteq> T' \<Longrightarrow> (links T)\<^sup>*\<^sup>* u v \<Longrightarrow> (links T')\<^sup>*\<^sup>* u v"
  using rtranclp_mono[of "links T" "links T'"] links_mono[of T T'] by blast

lemma rtrancl_path_avoid:
  assumes "rtrancl_path r y ys z" "x \<notin> set (y # ys)"
  shows "(\<lambda>a b. r a b \<and> a \<noteq> x \<and> b \<noteq> x)\<^sup>*\<^sup>* y z"
  using assms
proof (induction rule: rtrancl_path.induct)
  case (base y)
  show ?case by simp
next
  case (step a b bs z)
  have "(\<lambda>a b. r a b \<and> a \<noteq> x \<and> b \<noteq> x) a b" using step by auto
  moreover have "(\<lambda>a b. r a b \<and> a \<noteq> x \<and> b \<noteq> x)\<^sup>*\<^sup>* b z" using step by auto
  ultimately show ?case by (rule converse_rtranclp_into_rtranclp)
qed

lemma cut_crossing:
  assumes "rtrancl_path r p xs c" "distinct (p # xs)" "p \<in> S" "c \<notin> S"
  shows "\<exists>x y. r x y \<and> x \<in> S \<and> y \<notin> S \<and>
           (\<lambda>a b. r a b \<and> (a, b) \<noteq> (x, y) \<and> (a, b) \<noteq> (y, x))\<^sup>*\<^sup>* p x \<and>
           (\<lambda>a b. r a b \<and> (a, b) \<noteq> (x, y) \<and> (a, b) \<noteq> (y, x))\<^sup>*\<^sup>* y c"
  using assms
proof (induction rule: rtrancl_path.induct)
  case (base p)
  then show ?case by simp
next
  case (step x y ys z)
  show ?case
  proof (cases "y \<in> S")
    case False
    have "x \<notin> set (y # ys)" using step.prems(1) by auto
    from rtrancl_path_avoid[OF step.hyps(2) this]
    have "(\<lambda>a b. r a b \<and> a \<noteq> x \<and> b \<noteq> x)\<^sup>*\<^sup>* y z" .
    moreover have "(\<lambda>a b. r a b \<and> a \<noteq> x \<and> b \<noteq> x) \<le>
                   (\<lambda>a b. r a b \<and> (a, b) \<noteq> (x, y) \<and> (a, b) \<noteq> (y, x))" by auto
    ultimately have "(\<lambda>a b. r a b \<and> (a, b) \<noteq> (x, y) \<and> (a, b) \<noteq> (y, x))\<^sup>*\<^sup>* y z"
      using rtranclp_mono by blast
    then show ?thesis using step.hyps(1) step.prems(2) False by blast
  next
    case True
    have "distinct (y # ys)" using step.prems(1) by simp
    from step.IH[OF this True step.prems(3)] obtain x' y' where
      h: "r x' y'" "x' \<in> S" "y' \<notin> S"
        "(\<lambda>a b. r a b \<and> (a, b) \<noteq> (x', y') \<and> (a, b) \<noteq> (y', x'))\<^sup>*\<^sup>* y x'"
        "(\<lambda>a b. r a b \<and> (a, b) \<noteq> (x', y') \<and> (a, b) \<noteq> (y', x'))\<^sup>*\<^sup>* y' z"
      by blast
    have "(\<lambda>a b. r a b \<and> (a, b) \<noteq> (x', y') \<and> (a, b) \<noteq> (y', x')) x y"
      using step.hyps(1) step.prems(2) True h(3) by auto
    then have "(\<lambda>a b. r a b \<and> (a, b) \<noteq> (x', y') \<and> (a, b) \<noteq> (y', x'))\<^sup>*\<^sup>* x x'"
      using h(4) by (rule converse_rtranclp_into_rtranclp)
    then show ?thesis using h by blast
  qed
qed

lemma edge_sym:
  assumes "square (g_n g) (adjMatrix g)" "symmetric (adjMatrix g)" "edge g u v"
  shows "edge g v u \<and> mcell (adjMatrix g) v u = mcell (adjMatrix g) u v"
proof -
  have r: "0 \<le> u" "u < g_n g" "0 \<le> v" "v < g_n g" using assms(3) by (auto simp: edge_def)
  have l: "int (length (adjMatrix g)) = g_n g" using assms(1) by (simp add: square_def)
  have "mcell (adjMatrix g) v u = mcell (adjMatrix g) u v"
    using symmetric_mcell[OF assms(2), of v u] r l by simp
  then show ?thesis using assms(3) by (simp add: edge_def)
qed

lemma spanning_finite:
  assumes "spanning g T"
  shows "finite T"
proof -
  have "T \<subseteq> {0..<g_n g} \<times> {0..<g_n g}"
    using assms by (auto simp: spanning_def edge_def)
  then show ?thesis by (rule finite_subset) simp
qed

lemma nedge_weight:
  assumes sq: "square (g_n g) (adjMatrix g)" and sym: "symmetric (adjMatrix g)" and e: "edge g p c"
    and pc: "p \<noteq> c"
  shows "fst (nedge p c) < snd (nedge p c) \<and> edge g (fst (nedge p c)) (snd (nedge p c)) \<and>
         mcell (adjMatrix g) (fst (nedge p c)) (snd (nedge p c)) = mcell (adjMatrix g) p c"
proof (cases "p < c")
  case True
  then show ?thesis using e by (simp add: nedge_def min_def max_def)
next
  case False
  then have "c < p" using pc by simp
  then show ?thesis using edge_sym[OF sq sym e] by (simp add: nedge_def min_def max_def)
qed

lemma exchange:
  assumes sq: "square (g_n g) (adjMatrix g)" and sym: "symmetric (adjMatrix g)"
    and sp: "spanning g T"
    and F: "F \<subseteq> T" "\<And>e. e \<in> F \<Longrightarrow> fst e \<in> S \<and> snd e \<in> S"
    and e: "p \<in> S" "c \<notin> S" "edge g p c"
    and mn: "\<And>x y. x \<in> S \<Longrightarrow> y \<notin> S \<Longrightarrow> edge g x y \<Longrightarrow>
               mcell (adjMatrix g) p c \<le> mcell (adjMatrix g) x y"
  shows "\<exists>T'. spanning g T' \<and> insert (nedge p c) F \<subseteq> T' \<and> tree_weight g T' \<le> tree_weight g T"
proof (cases "nedge p c \<in> T")
  case True
  then show ?thesis using sp F(1) by blast
next
  case False
  let ?a = "adjMatrix g" and ?e = "nedge p c"
  have fin: "finite T" using spanning_finite[OF sp] .
  have Te: "\<And>d. d \<in> T \<Longrightarrow> fst d < snd d \<and> edge g (fst d) (snd d)"
    and con: "\<And>v. 0 \<le> v \<Longrightarrow> v < g_n g \<Longrightarrow> (links T)\<^sup>*\<^sup>* 0 v"
    using sp unfolding spanning_def by blast+
  have pc: "p \<noteq> c" using e by auto
  note ne = nedge_weight[OF sq sym e(3) pc]
  have r: "0 \<le> p" "p < g_n g" "0 \<le> c" "c < g_n g" using e(3) by (auto simp: edge_def)
  have "(links T)\<^sup>*\<^sup>* p c"
    using links_rtrancl_sym[OF con[OF r(1,2)]] con[OF r(3,4)] by (rule rtranclp_trans)
  then obtain xs where "rtrancl_path (links T) p xs c"
    unfolding rtranclp_eq_rtrancl_path by blast
  then obtain xs' where xs': "rtrancl_path (links T) p xs' c" "distinct (p # xs')"
    by (rule rtrancl_path_distinct)
  from cut_crossing[OF xs' e(1,2)] obtain x y where
    xy: "links T x y" "x \<in> S" "y \<notin> S"
      "(\<lambda>a b. links T a b \<and> (a, b) \<noteq> (x, y) \<and> (a, b) \<noteq> (y, x))\<^sup>*\<^sup>* p x"
      "(\<lambda>a b. links T a b \<and> (a, b) \<noteq> (x, y) \<and> (a, b) \<noteq> (y, x))\<^sup>*\<^sup>* y c"
    by blast
  define f where "f = (if (x, y) \<in> T then (x, y) else (y, x))"
  have fT: "f \<in> T" using xy(1) by (auto simp: f_def links_def)
  have fxy: "f = (x, y) \<or> f = (y, x)" by (simp add: f_def)
  have exy: "edge g x y \<and> mcell ?a (fst f) (snd f) = mcell ?a x y"
  proof (cases "(x, y) \<in> T")
    case True
    then show ?thesis using Te[of "(x, y)"] by (simp add: f_def)
  next
    case False
    then have "edge g y x" using Te[OF fT] by (simp add: f_def)
    from edge_sym[OF sq sym this] show ?thesis using False by (simp add: f_def)
  qed
  have only: "d = f" if "d \<in> T" "d = (x, y) \<or> d = (y, x)" for d
  proof (rule ccontr)
    assume "d \<noteq> f"
    then have "(x, y) \<in> T \<and> (y, x) \<in> T" using that fT fxy by auto
    then show False using Te[of "(x, y)"] Te[of "(y, x)"] by auto
  qed
  have fF: "f \<notin> F" using F(2)[of f] fxy xy(3) by auto
  have fe: "f \<noteq> ?e" using fT False by auto
  let ?T' = "insert ?e (T - {f})"
  have w1: "tree_weight g ?T' = mcell ?a p c + tree_weight g (T - {f})"
    using fin False ne by (simp add: tree_weight_def)
  have w2: "tree_weight g T = mcell ?a x y + tree_weight g (T - {f})"
    using fin fT exy by (simp add: tree_weight_def sum.remove)
  have le: "tree_weight g ?T' \<le> tree_weight g T"
    using w1 w2 mn[OF xy(2,3)] exy by simp
  have sub: "(\<lambda>a b. links T a b \<and> (a, b) \<noteq> (x, y) \<and> (a, b) \<noteq> (y, x)) \<le> links ?T'"
  proof (intro predicate2I)
    fix a b assume h: "links T a b \<and> (a, b) \<noteq> (x, y) \<and> (a, b) \<noteq> (y, x)"
    then have "((a, b) \<in> T \<and> (a, b) \<noteq> f) \<or> ((b, a) \<in> T \<and> (b, a) \<noteq> f)"
      using fxy by (auto simp: links_def)
    then show "links ?T' a b" by (auto simp: links_def)
  qed
  have px: "(links ?T')\<^sup>*\<^sup>* p x" using xy(4) rtranclp_mono[OF sub] by blast
  have yc: "(links ?T')\<^sup>*\<^sup>* y c" using xy(5) rtranclp_mono[OF sub] by blast
  have lpc: "links ?T' p c" by (auto simp: links_def nedge_def min_def max_def)
  have "(links ?T')\<^sup>*\<^sup>* x c"
    using links_rtrancl_sym[OF px] lpc by (rule rtranclp.rtrancl_into_rtrancl)
  then have xy': "(links ?T')\<^sup>*\<^sup>* x y" using links_rtrancl_sym[OF yc] by (rule rtranclp_trans)
  have one: "(links ?T')\<^sup>*\<^sup>* a b" if "links T a b" for a b
  proof (cases "(a, b) = (x, y) \<or> (a, b) = (y, x)")
    case True
    then show ?thesis using xy' links_rtrancl_sym[OF xy'] by auto
  next
    case False
    then have "links ?T' a b" using sub that by blast
    then show ?thesis by blast
  qed
  have all: "(links ?T')\<^sup>*\<^sup>* a b" if "(links T)\<^sup>*\<^sup>* a b" for a b
    using that
  proof (induction rule: rtranclp_induct)
    case base
    show ?case by simp
  next
    case (step y z)
    show ?case using step.IH one[OF step.hyps(2)] by (rule rtranclp_trans)
  qed
  have "spanning g ?T'"
    unfolding spanning_def
  proof (intro conjI ballI allI impI)
    fix d assume "d \<in> ?T'"
    then show "fst d < snd d" "edge g (fst d) (snd d)" using ne Te by auto
  next
    fix v assume "0 \<le> v \<and> v < g_n g"
    then show "(links ?T')\<^sup>*\<^sup>* 0 v" using all con by blast
  qed
  moreover have "insert ?e F \<subseteq> ?T'" using F(1) fF by auto
  ultimately show ?thesis using le by blast
qed

text \<open>
  An edge record is a triple (parent, child, weight).  \<open>grown recs\<close> are vertex 0 and the
  children of the records; \<open>prim_order g recs\<close> says that the records come in the order in
  which a tree is grown from vertex 0: the parent of each record is in the tree grown by the
  records before it, its child is not, its weight is that of the edge between them, and no
  edge leaving that tree is lighter.
\<close>

definition rec_edge :: "int \<times> int \<times> int \<Rightarrow> int \<times> int" where
  "rec_edge r = nedge (fst r) (fst (snd r))"

definition rec_edges :: "(int \<times> int \<times> int) list \<Rightarrow> (int \<times> int) set" where
  "rec_edges recs = set (map rec_edge recs)"

definition grown :: "(int \<times> int \<times> int) list \<Rightarrow> int set" where
  "grown recs = insert 0 (set (map (\<lambda>r. fst (snd r)) recs))"

definition prim_step :: "Graph \<Rightarrow> int set \<Rightarrow> int \<times> int \<times> int \<Rightarrow> bool" where
  "prim_step g S r =
     (fst r \<in> S \<and> fst (snd r) \<notin> S \<and> edge g (fst r) (fst (snd r)) \<and>
      snd (snd r) = mcell (adjMatrix g) (fst r) (fst (snd r)) \<and>
      (\<forall>x y. x \<in> S \<and> y \<notin> S \<and> edge g x y \<longrightarrow> snd (snd r) \<le> mcell (adjMatrix g) x y))"

definition prim_order :: "Graph \<Rightarrow> (int \<times> int \<times> int) list \<Rightarrow> bool" where
  "prim_order g recs = (\<forall>i < length recs. prim_step g (grown (take i recs)) (recs ! i))"

lemma grown_snoc: "grown (recs @ [r]) = insert (fst (snd r)) (grown recs)"
  by (auto simp: grown_def)

lemma rec_edges_snoc: "rec_edges (recs @ [r]) = insert (rec_edge r) (rec_edges recs)"
  by (auto simp: rec_edges_def)

lemma prim_order_snoc:
  "prim_order g (recs @ [r]) = (prim_order g recs \<and> prim_step g (grown recs) r)"
proof
  assume a: "prim_order g (recs @ [r])"
  have "prim_step g (grown (take i recs)) (recs ! i)" if "i < length recs" for i
    using a[unfolded prim_order_def, rule_format, of i] that by (simp add: nth_append)
  moreover have "prim_step g (grown recs) r"
    using a[unfolded prim_order_def, rule_format, of "length recs"] by simp
  ultimately show "prim_order g recs \<and> prim_step g (grown recs) r" by (simp add: prim_order_def)
next
  assume a: "prim_order g recs \<and> prim_step g (grown recs) r"
  show "prim_order g (recs @ [r])"
    unfolding prim_order_def
  proof (intro allI impI)
    fix i assume "i < length (recs @ [r])"
    then consider "i < length recs" | "i = length recs" by fastforce
    then show "prim_step g (grown (take i (recs @ [r]))) ((recs @ [r]) ! i)"
    proof cases
      case 1
      then show ?thesis using a by (simp add: prim_order_def nth_append)
    next
      case 2
      then show ?thesis using a by simp
    qed
  qed
qed

lemma prim_order_Nil: "prim_order g []"
  by (simp add: prim_order_def)

lemma tree_weight_insert:
  "finite F \<Longrightarrow> e \<notin> F \<Longrightarrow>
   tree_weight g (insert e F) = mcell (adjMatrix g) (fst e) (snd e) + tree_weight g F"
  by (simp add: tree_weight_def)

lemma prim_order_tree:
  assumes sq: "square (g_n g) (adjMatrix g)" and sym: "symmetric (adjMatrix g)"
    and n1: "1 \<le> g_n g"
  shows "prim_order g recs \<Longrightarrow>
     distinct (0 # map (\<lambda>r. fst (snd r)) recs) \<and>
     (\<forall>v \<in> grown recs. 0 \<le> v \<and> v < g_n g) \<and>
     (\<forall>e \<in> rec_edges recs. fst e < snd e \<and> edge g (fst e) (snd e) \<and>
         fst e \<in> grown recs \<and> snd e \<in> grown recs) \<and>
     (\<forall>v \<in> grown recs. (links (rec_edges recs))\<^sup>*\<^sup>* 0 v) \<and>
     distinct (map rec_edge recs) \<and>
     sum_list (map (\<lambda>r. snd (snd r)) recs) = tree_weight g (rec_edges recs)"
proof (induction recs rule: rev_induct)
  case Nil
  show ?case using n1 by (simp add: grown_def rec_edges_def tree_weight_def)
next
  case (snoc r recs)
  let ?p = "fst r" and ?c = "fst (snd r)" and ?w = "snd (snd r)"
  let ?S = "grown recs" and ?F = "rec_edges recs"
  from snoc.prems have po: "prim_order g recs" and ps: "prim_step g ?S r"
    by (simp_all add: prim_order_snoc)
  from snoc.IH[OF po] have
    d: "distinct (0 # map (\<lambda>r. fst (snd r)) recs)"
    and rg: "\<And>v. v \<in> ?S \<Longrightarrow> 0 \<le> v \<and> v < g_n g"
    and ed: "\<And>e. e \<in> ?F \<Longrightarrow> fst e < snd e \<and> edge g (fst e) (snd e) \<and> fst e \<in> ?S \<and> snd e \<in> ?S"
    and cn: "\<And>v. v \<in> ?S \<Longrightarrow> (links ?F)\<^sup>*\<^sup>* 0 v"
    and de: "distinct (map rec_edge recs)"
    and sm: "sum_list (map (\<lambda>r. snd (snd r)) recs) = tree_weight g ?F"
    by blast+
  have p: "?p \<in> ?S" and c: "?c \<notin> ?S" and e: "edge g ?p ?c"
    and w: "?w = mcell (adjMatrix g) ?p ?c"
    using ps by (auto simp: prim_step_def)
  have pc: "?p \<noteq> ?c" using p c by auto
  note ne = nedge_weight[OF sq sym e pc]
  have re: "rec_edge r = nedge ?p ?c" by (simp add: rec_edge_def)
  have ends: "(fst (rec_edge r) = ?p \<and> snd (rec_edge r) = ?c) \<or>
              (fst (rec_edge r) = ?c \<and> snd (rec_edge r) = ?p)"
    by (auto simp: re nedge_def min_def max_def)
  have new: "rec_edge r \<notin> ?F" using ed[of "rec_edge r"] ends c by auto
  have fin: "finite ?F" by (simp add: rec_edges_def)
  have cr: "0 \<le> ?c \<and> ?c < g_n g" using e by (simp add: edge_def)
  have c0: "?c \<noteq> 0" using c by (auto simp: grown_def)
  let ?S' = "grown (recs @ [r])" and ?F' = "rec_edges (recs @ [r])"
  have S': "?S' = insert ?c ?S" by (rule grown_snoc)
  have F': "?F' = insert (rec_edge r) ?F" by (rule rec_edges_snoc)
  have 1: "distinct (0 # map (\<lambda>r. fst (snd r)) (recs @ [r]))"
    using d c c0 by (auto simp: grown_def)
  have 2: "\<forall>v \<in> ?S'. 0 \<le> v \<and> v < g_n g" using rg cr unfolding S' by auto
  have 3: "\<forall>e \<in> ?F'. fst e < snd e \<and> edge g (fst e) (snd e) \<and> fst e \<in> ?S' \<and> snd e \<in> ?S'"
  proof
    fix d assume "d \<in> ?F'"
    then consider "d = rec_edge r" | "d \<in> ?F" unfolding F' by auto
    then show "fst d < snd d \<and> edge g (fst d) (snd d) \<and> fst d \<in> ?S' \<and> snd d \<in> ?S'"
    proof cases
      case 1
      then show ?thesis using ne ends p unfolding S' re by auto
    next
      case 2
      then show ?thesis using ed[of d] unfolding S' by auto
    qed
  qed
  have 4: "\<forall>v \<in> ?S'. (links ?F')\<^sup>*\<^sup>* 0 v"
  proof
    fix v assume "v \<in> ?S'"
    then consider "v = ?c" | "v \<in> ?S" unfolding S' by auto
    then show "(links ?F')\<^sup>*\<^sup>* 0 v"
    proof cases
      case 1
      have "(links ?F')\<^sup>*\<^sup>* 0 ?p"
        by (rule links_rtrancl_mono[OF _ cn[OF p]]) (auto simp: F')
      moreover have "links ?F' ?p ?c" using ends unfolding F' links_def
        by (metis insertI1 prod.collapse)
      ultimately show ?thesis using 1 by auto
    next
      case 2
      show ?thesis by (rule links_rtrancl_mono[OF _ cn[OF 2]]) (auto simp: F')
    qed
  qed
  have 5: "distinct (map rec_edge (recs @ [r]))" using de new by (simp add: rec_edges_def)
  have "tree_weight g ?F' = ?w + tree_weight g ?F"
    unfolding F' tree_weight_insert[OF fin new] using ne w by (simp add: re)
  then have 6: "sum_list (map (\<lambda>r. snd (snd r)) (recs @ [r])) = tree_weight g ?F'"
    using sm by simp
  show ?case using 1 2 3 4 5 6 by blast
qed

lemma prim_order_extend:
  assumes sq: "square (g_n g) (adjMatrix g)" and sym: "symmetric (adjMatrix g)"
    and n1: "1 \<le> g_n g" and sp: "spanning g T"
  shows "prim_order g recs \<Longrightarrow>
     \<exists>T'. spanning g T' \<and> rec_edges recs \<subseteq> T' \<and> tree_weight g T' \<le> tree_weight g T"
proof (induction recs rule: rev_induct)
  case Nil
  show ?case using sp by (auto simp: rec_edges_def)
next
  case (snoc r recs)
  from snoc.prems have po: "prim_order g recs" and ps: "prim_step g (grown recs) r"
    by (simp_all add: prim_order_snoc)
  from snoc.IH[OF po] obtain T1 where
    T1: "spanning g T1" "rec_edges recs \<subseteq> T1" "tree_weight g T1 \<le> tree_weight g T" by blast
  have ed: "\<And>e. e \<in> rec_edges recs \<Longrightarrow> fst e \<in> grown recs \<and> snd e \<in> grown recs"
    using prim_order_tree[OF sq sym n1 po] by blast
  have p: "fst r \<in> grown recs" "fst (snd r) \<notin> grown recs" "edge g (fst r) (fst (snd r))"
    and mn: "\<And>x y. x \<in> grown recs \<Longrightarrow> y \<notin> grown recs \<Longrightarrow> edge g x y \<Longrightarrow>
          mcell (adjMatrix g) (fst r) (fst (snd r)) \<le> mcell (adjMatrix g) x y"
    using ps unfolding prim_step_def by auto
  from exchange[OF sq sym T1(1,2) ed p mn] obtain T2 where
    "spanning g T2" "insert (nedge (fst r) (fst (snd r))) (rec_edges recs) \<subseteq> T2"
    "tree_weight g T2 \<le> tree_weight g T1"
    by blast
  then show ?case using T1(3) by (auto simp: rec_edges_snoc rec_edge_def intro: order.trans)
qed

lemma prim_order_mst:
  assumes sq: "square (g_n g) (adjMatrix g)" and sym: "symmetric (adjMatrix g)"
    and w: "weights_in g 0 hi"
    and n1: "1 \<le> g_n g" and po: "prim_order g recs"
    and all: "grown recs = {v. 0 \<le> v \<and> v < g_n g}"
  shows "int (length recs) = g_n g - 1 \<and> spanning_tree g (rec_edges recs) \<and>
         sum_list (map (\<lambda>r. snd (snd r)) recs) = tree_weight g (rec_edges recs) \<and>
         (\<forall>T. spanning g T \<longrightarrow> tree_weight g (rec_edges recs) \<le> tree_weight g T)"
proof -
  let ?F = "rec_edges recs"
  from prim_order_tree[OF sq sym n1 po] have
    d: "distinct (0 # map (\<lambda>r. fst (snd r)) recs)"
    and ed: "\<And>e. e \<in> ?F \<Longrightarrow> fst e < snd e \<and> edge g (fst e) (snd e)"
    and cn: "\<And>v. v \<in> grown recs \<Longrightarrow> (links ?F)\<^sup>*\<^sup>* 0 v"
    and de: "distinct (map rec_edge recs)"
    and sm: "sum_list (map (\<lambda>r. snd (snd r)) recs) = tree_weight g ?F"
    by blast+
  have "set (0 # map (\<lambda>r. fst (snd r)) recs) = {0..<g_n g}"
    using all by (auto simp: grown_def)
  then have "card {0..<g_n g} = length (0 # map (\<lambda>r. fst (snd r)) recs)"
    using distinct_card[OF d] by simp
  then have len: "int (length recs) = g_n g - 1" using n1 by simp
  have "card ?F = length recs" using distinct_card[OF de] by (simp add: rec_edges_def)
  moreover have span: "spanning g ?F" unfolding spanning_def using ed cn all by auto
  ultimately have st: "spanning_tree g ?F" using len by (simp add: spanning_tree_def)
  have mn: "tree_weight g ?F \<le> tree_weight g T" if T: "spanning g T" for T
  proof -
    from prim_order_extend[OF sq sym n1 T po] obtain T' where
      T': "spanning g T'" "?F \<subseteq> T'" "tree_weight g T' \<le> tree_weight g T" by blast
    have "tree_weight g ?F \<le> tree_weight g T'"
      unfolding tree_weight_def
    proof (rule sum_mono2[OF spanning_finite[OF T'(1)] T'(2)])
      fix b assume "b \<in> T' - ?F"
      then have "edge g (fst b) (snd b)" using T'(1) by (auto simp: spanning_def)
      then show "0 \<le> mcell (adjMatrix g) (fst b) (snd b)"
        using weights_in_cell[OF w sq, of "fst b" "snd b"] by (simp add: edge_def)
    qed
    then show ?thesis using T'(3) by simp
  qed
  show ?thesis using len st sm mn by blast
qed

section \<open>primMST returns a minimum spanning tree\<close>

text \<open>
  \<open>recs_text\<close> is the text of a list of edge records, \<^verbatim>\<open>[p-c:w,...]\<close>.  The invariant of
  the loop of \<^verbatim>\<open>primMST\<close>, with \<open>S\<close> the vertices finalised so far: the key of a vertex
  outside \<open>S\<close> is at most the weight of every edge joining it to \<open>S\<close> (the edges of the vertex
  \<open>u\<close> under scan that \<open>todo\<close> excuses apart); a key below the sentinel is the weight of the
  edge from the recorded parent, which is in \<open>S\<close>, and is present in the heap; no heap entry
  is below the key of its vertex.
\<close>

definition rec_text :: "int \<times> int \<times> int \<Rightarrow> string" where
  "rec_text r = decimal (fst r) @ ''-'' @ decimal (fst (snd r)) @ '':'' @ decimal (snd (snd r))"

definition rec_open :: "(int \<times> int \<times> int) list \<Rightarrow> string" where
  "rec_open recs = ''['' @ join_commas (map rec_text recs)"

definition recs_text :: "(int \<times> int \<times> int) list \<Rightarrow> string" where
  "recs_text recs = ''['' @ join_commas (map rec_text recs) @ '']''"

definition pm_inv ::
    "Graph \<Rightarrow> int list \<Rightarrow> int list \<Rightarrow> int set \<Rightarrow> PQNode multiset \<Rightarrow> int \<Rightarrow> (int \<Rightarrow> bool) \<Rightarrow> bool" where
  "pm_inv g key parent S E u todo =
     (int (length key) = g_n g \<and> int (length parent) = g_n g \<and>
      (\<forall>v \<in> S. 0 \<le> v \<and> v < g_n g) \<and>
      (\<forall>x y. x \<in> S \<longrightarrow> y \<notin> S \<longrightarrow> edge g x y \<longrightarrow>
         (x = u \<and> todo y) \<or> ival key y \<le> mcell (adjMatrix g) x y) \<and>
      (\<forall>v. 0 \<le> v \<and> v < g_n g \<and> v \<notin> S \<longrightarrow>
         ival key v = 999999 \<or>
         (ival key v < 999999 \<and> ival parent v \<in> S \<and> edge g (ival parent v) v \<and>
          mcell (adjMatrix g) (ival parent v) v = ival key v)) \<and>
      (\<forall>e. e \<in># E \<longrightarrow> 0 \<le> pq_vertex e \<and> pq_vertex e < g_n g \<and>
         ival key (pq_vertex e) \<le> pq_key e \<and> pq_key e < 999999) \<and>
      (\<forall>v. 0 \<le> v \<and> v < g_n g \<and> v \<notin> S \<and> ival key v < 999999 \<longrightarrow>
         \<lparr>pq_vertex = v, pq_key = ival key v\<rparr> \<in># E))"

lemma prim_relax_step:
  assumes sq: "square (g_n g) (adjMatrix g)"
    and u: "0 \<le> u" "u < g_n g" "u \<in> S" and j: "0 \<le> j" "j < g_n g"
    and inv: "pm_inv g key parent S (pq_entries pq) u (\<lambda>y. j \<le> y)"
    and mk: "marks inMST (g_n g) S"
    and hp: "heap_inv pq"
    and acc: "h_size pq \<le> B + pushes_bound u j" "B + (g_n g - 2) < capacity pq"
  shows "\<exists>key' parent' pq'. prim_relax g inMST u j (key, parent, pq) = Some (key', parent', pq') \<and>
           pm_inv g key' parent' S (pq_entries pq') u (\<lambda>y. j + 1 \<le> y) \<and>
           heap_inv pq' \<and> capacity pq' = capacity pq \<and>
           h_size pq' \<le> B + pushes_bound u (j + 1)"
proof -
  let ?E = "pq_entries pq" and ?w = "mcell (adjMatrix g) u j"
  have len: "int (length key) = g_n g" "int (length parent) = g_n g"
    and Sr: "\<forall>v \<in> S. 0 \<le> v \<and> v < g_n g"
    and i1: "\<And>x y. x \<in> S \<Longrightarrow> y \<notin> S \<Longrightarrow> edge g x y \<Longrightarrow>
         (x = u \<and> j \<le> y) \<or> ival key y \<le> mcell (adjMatrix g) x y"
    and i2: "\<And>v. 0 \<le> v \<Longrightarrow> v < g_n g \<Longrightarrow> v \<notin> S \<Longrightarrow>
         ival key v = 999999 \<or>
         (ival key v < 999999 \<and> ival parent v \<in> S \<and> edge g (ival parent v) v \<and>
          mcell (adjMatrix g) (ival parent v) v = ival key v)"
    and i3: "\<And>e. e \<in># ?E \<Longrightarrow> 0 \<le> pq_vertex e \<and> pq_vertex e < g_n g \<and>
         ival key (pq_vertex e) \<le> pq_key e \<and> pq_key e < 999999"
    and i4: "\<And>v. 0 \<le> v \<Longrightarrow> v < g_n g \<Longrightarrow> v \<notin> S \<Longrightarrow> ival key v < 999999 \<Longrightarrow>
         \<lparr>pq_vertex = v, pq_key = ival key v\<rparr> \<in># ?E"
    using inv unfolding pm_inv_def by blast+
  have gw: "mat_get (adjMatrix g) u j = Some ?w" using mat_get_Some[OF sq u(1,2) j] .
  have vis: "aget inMST j = Some (j \<in> S)" using marks_aget[OF mk j] .
  have gk: "aget key j = Some (ival key j)" using aget_ival j len by simp
  have e: "edge g u j = (?w \<noteq> 0)" using u j by (simp add: edge_def)
  have pbm: "pushes_bound u j \<le> pushes_bound u (j + 1)" by (simp add: pushes_bound_def)
  have keep: "pm_inv g key parent S ?E u (\<lambda>y. j + 1 \<le> y)"
    if k: "edge g u j \<Longrightarrow> j \<notin> S \<Longrightarrow> ival key j \<le> ?w"
    unfolding pm_inv_def
  proof (intro conjI allI impI ballI)
    fix x y assume a: "x \<in> S" "y \<notin> S" "edge g x y"
    show "(x = u \<and> j + 1 \<le> y) \<or> ival key y \<le> mcell (adjMatrix g) x y"
    proof (cases "x = u \<and> y = j")
      case True
      then show ?thesis using k a by simp
    next
      case False
      then show ?thesis using i1[OF a] by auto
    qed
  qed (use len Sr i2 i3 i4 in auto)
  show ?thesis
  proof (cases "edge g u j \<and> j \<notin> S \<and> ?w < ival key j")
    case False
    have res: "prim_relax g inMST u j (key, parent, pq) = Some (key, parent, pq)"
      using False gw vis gk e by (auto simp: prim_relax_def)
    have "pm_inv g key parent S ?E u (\<lambda>y. j + 1 \<le> y)" using keep False by auto
    then show ?thesis using res hp acc(1) pbm by auto
  next
    case True
    have ju: "j \<noteq> u" using True u(3) by auto
    have w0: "?w \<noteq> 0" using True e by simp
    have lt: "?w < ival key j" using True by simp
    let ?key' = "key[nat j := ?w]" and ?parent' = "parent[nat j := u]"
    let ?x = "\<lparr>pq_vertex = j, pq_key = ?w\<rparr>"
    have upd: "\<And>k. 0 \<le> k \<Longrightarrow> ival ?key' k = (if k = j then ?w else ival key k)"
      using ival_update[of j key] j len by simp
    have kj': "ival ?key' j = ?w" using upd[of j] j by simp
    have kk: "\<And>k. 0 \<le> k \<Longrightarrow> k \<noteq> j \<Longrightarrow> ival ?key' k = ival key k" using upd by simp
    have le: "\<And>k. 0 \<le> k \<Longrightarrow> ival ?key' k \<le> ival key k" using upd lt by simp
    have updp: "\<And>k. 0 \<le> k \<Longrightarrow> ival ?parent' k = (if k = j then u else ival parent k)"
      using ival_update[of j parent] j len by simp
    have pj': "ival ?parent' j = u" using updp[of j] j by simp
    have pk: "\<And>k. 0 \<le> k \<Longrightarrow> k \<noteq> j \<Longrightarrow> ival ?parent' k = ival parent k" using updp by simp
    have sk: "aset key j ?w = Some ?key'" using j len by (simp add: aset_def)
    have sp: "aset parent j u = Some ?parent'" using j len by (simp add: aset_def)
    have gk': "aget ?key' j = Some ?w" using aget_ival[of j ?key'] j len kj' by simp
    have sz: "h_size pq < capacity pq"
    proof -
      have "pushes_bound u j \<le> g_n g - 2" using ju u j by (auto simp: pushes_bound_def)
      then show ?thesis using acc by linarith
    qed
    from MinHeap_push_correct[OF hp sz, of j ?w] obtain pq' where
      pq': "MinHeap_push pq j ?w = Some pq'" "heap_inv pq'"
        "pq_entries pq' = add_mset ?x ?E" "capacity pq' = capacity pq" "h_size pq' = h_size pq + 1"
      by blast
    have res: "prim_relax g inMST u j (key, parent, pq) = Some (?key', ?parent', pq')"
      using True w0 gw vis gk sk sp gk' pq'(1) by (auto simp: prim_relax_def)
    have kj999: "ival key j \<le> 999999" using i2[OF j] True by auto
    have inv': "pm_inv g ?key' ?parent' S (pq_entries pq') u (\<lambda>y. j + 1 \<le> y)"
      unfolding pm_inv_def pq'(3)
    proof (intro conjI allI impI ballI)
      show "int (length ?key') = g_n g" "int (length ?parent') = g_n g" using len by simp_all
    next
      fix x y assume a: "x \<in> S" "y \<notin> S" "edge g x y"
      have y0: "0 \<le> y" using a(3) by (simp add: edge_def)
      show "(x = u \<and> j + 1 \<le> y) \<or> ival ?key' y \<le> mcell (adjMatrix g) x y"
      proof (cases "y = j")
        case yj: True
        show ?thesis
        proof (cases "x = u")
          case True
          then show ?thesis using yj kj' by simp
        next
          case False
          then have "ival key j \<le> mcell (adjMatrix g) x j" using i1[OF a] yj by simp
          then show ?thesis using yj kj' lt by simp
        qed
      next
        case False
        then show ?thesis using i1[OF a] kk[OF y0 False] by auto
      qed
    next
      fix v assume v: "0 \<le> v \<and> v < g_n g \<and> v \<notin> S"
      show "ival ?key' v = 999999 \<or>
         (ival ?key' v < 999999 \<and> ival ?parent' v \<in> S \<and> edge g (ival ?parent' v) v \<and>
          mcell (adjMatrix g) (ival ?parent' v) v = ival ?key' v)"
      proof (cases "v = j")
        case True
        then show ?thesis using kj' pj' lt kj999 u(3) \<open>edge g u j \<and> j \<notin> S \<and> ?w < ival key j\<close>
          by simp
      next
        case False
        then show ?thesis using kk[of v] pk[of v] v i2[of v] by simp
      qed
    next
      fix e assume e: "e \<in># add_mset ?x ?E"
      have "0 \<le> pq_vertex e \<and> pq_vertex e < g_n g \<and> ival ?key' (pq_vertex e) \<le> pq_key e \<and>
            pq_key e < 999999"
      proof (cases "e = ?x")
        case True
        then show ?thesis using j kj' lt kj999 by simp
      next
        case False
        then have "e \<in># ?E" using e by simp
        then show ?thesis using i3[of e] le[of "pq_vertex e"] by auto
      qed
      then show "0 \<le> pq_vertex e" "pq_vertex e < g_n g" "ival ?key' (pq_vertex e) \<le> pq_key e"
        "pq_key e < 999999" by auto
    next
      fix v assume v: "0 \<le> v \<and> v < g_n g \<and> v \<notin> S \<and> ival ?key' v < 999999"
      show "\<lparr>pq_vertex = v, pq_key = ival ?key' v\<rparr> \<in># add_mset ?x ?E"
      proof (cases "v = j")
        case True
        then show ?thesis using kj' by simp
      next
        case False
        then show ?thesis using kk[of v] v i4[of v] by simp
      qed
    qed (use Sr in auto)
    have "h_size pq' \<le> B + pushes_bound u (j + 1)"
      using pq'(5) acc(1) ju by (auto simp: pushes_bound_def)
    then show ?thesis using res inv' pq'(2,4) by blast
  qed
qed

lemma pm_inv_cong:
  assumes "pm_inv g key parent S E u todo"
    and "\<And>v. 0 \<le> v \<Longrightarrow> v < g_n g \<Longrightarrow> todo v \<Longrightarrow> todo' v"
  shows "pm_inv g key parent S E u todo'"
proof -
  have "(x = u \<and> todo' y) \<or> ival key y \<le> mcell (adjMatrix g) x y"
    if "x \<in> S" "y \<notin> S" "edge g x y" for x y
  proof -
    have "(x = u \<and> todo y) \<or> ival key y \<le> mcell (adjMatrix g) x y"
      using assms(1) that unfolding pm_inv_def by blast
    moreover have "0 \<le> y" "y < g_n g" using that(3) by (auto simp: edge_def)
    ultimately show ?thesis using assms(2)[of y] by blast
  qed
  then show ?thesis using assms(1) unfolding pm_inv_def by blast
qed

lemma prim_scan:
  assumes sq: "square (g_n g) (adjMatrix g)"
    and u: "0 \<le> u" "u < g_n g" "u \<in> S"
    and inv: "pm_inv g key parent S (pq_entries pq) u (\<lambda>y. True)"
    and mk: "marks inMST (g_n g) S"
    and hp: "heap_inv pq"
    and acc: "h_size pq \<le> B" "B + (g_n g - 2) < capacity pq"
  shows "\<exists>key' parent' pq'.
           for_up 0 (g_n g) (prim_relax g inMST u) (key, parent, pq) = Some (key', parent', pq') \<and>
           pm_inv g key' parent' S (pq_entries pq') u (\<lambda>y. False) \<and>
           heap_inv pq' \<and> capacity pq' = capacity pq \<and> h_size pq' \<le> B + (g_n g - 1)"
proof -
  let ?I = "\<lambda>j t. pm_inv g (fst t) (fst (snd t)) S (pq_entries (snd (snd t))) u (\<lambda>y. j \<le> y) \<and>
                  heap_inv (snd (snd t)) \<and> capacity (snd (snd t)) = capacity pq \<and>
                  h_size (snd (snd t)) \<le> B + pushes_bound u j"
  have "\<exists>t. for_up 0 (g_n g) (prim_relax g inMST u) (key, parent, pq) = Some t \<and> ?I (g_n g) t"
  proof (rule for_up_rule[where I = ?I])
    show "?I 0 (key, parent, pq)"
      using pm_inv_cong[OF inv] hp acc(1) u(1) by (simp add: pushes_bound_def)
    show "0 \<le> g_n g" using u by simp
    fix j t assume j: "0 \<le> j" "j < g_n g" and I: "?I j t"
    obtain k p q where t: "t = (k, p, q)" by (cases t)
    have a2: "B + (g_n g - 2) < capacity q" using I t acc(2) by simp
    from prim_relax_step[OF sq u j _ mk _ _ a2, of k p] I t
    show "\<exists>t'. prim_relax g inMST u j t = Some t' \<and> ?I (j + 1) t'" by auto
  qed
  then obtain key' parent' pq' where
    r: "for_up 0 (g_n g) (prim_relax g inMST u) (key, parent, pq) = Some (key', parent', pq')"
      "pm_inv g key' parent' S (pq_entries pq') u (\<lambda>y. g_n g \<le> y)"
      "heap_inv pq'" "capacity pq' = capacity pq" "h_size pq' \<le> B + pushes_bound u (g_n g)"
    by auto
  have "pm_inv g key' parent' S (pq_entries pq') u (\<lambda>y. False)"
    by (rule pm_inv_cong[OF r(2)]) simp
  moreover have "pushes_bound u (g_n g) = g_n g - 1" using u by (simp add: pushes_bound_def)
  ultimately show ?thesis using r by auto
qed

lemma rec_open_snoc:
  "rec_open (recs @ [r]) = (if recs = [] then rec_open recs else rec_open recs @ '','') @ rec_text r"
  by (simp add: rec_open_def join_commas_snoc)

lemma recs_text_open: "recs_text recs = rec_open recs @ '']''"
  by (simp add: recs_text_def rec_open_def)

lemma pm_pop_stale:
  assumes inv: "pm_inv g key parent S (add_mset tp E1) u0 (\<lambda>y. False)" and "pq_vertex tp \<in> S"
  shows "pm_inv g key parent S E1 u0 (\<lambda>y. False)"
proof -
  have "\<lparr>pq_vertex = v, pq_key = ival key v\<rparr> \<in># E1"
    if "0 \<le> v \<and> v < g_n g \<and> v \<notin> S \<and> ival key v < 999999" for v
  proof -
    have "\<lparr>pq_vertex = v, pq_key = ival key v\<rparr> \<in># add_mset tp E1"
      using inv that unfolding pm_inv_def by blast
    moreover have "\<lparr>pq_vertex = v, pq_key = ival key v\<rparr> \<noteq> tp" using assms(2) that by auto
    ultimately show ?thesis by simp
  qed
  moreover have "\<And>e. e \<in># E1 \<Longrightarrow> e \<in># add_mset tp E1" by simp
  ultimately show ?thesis using inv unfolding pm_inv_def by blast
qed

lemma pm_pop_fresh:
  assumes inv: "pm_inv g key parent S (add_mset tp E1) u0 (\<lambda>y. False)"
    and w: "weights_in g lo 999998" "square (g_n g) (adjMatrix g)"
    and fresh: "pq_vertex tp \<notin> S"
    and mn: "\<And>e. e \<in># add_mset tp E1 \<Longrightarrow> pq_key tp \<le> pq_key e"
  shows "0 \<le> ival parent (pq_vertex tp) \<and> ival parent (pq_vertex tp) < g_n g \<and>
         prim_step g S (ival parent (pq_vertex tp), pq_vertex tp,
            mcell (adjMatrix g) (ival parent (pq_vertex tp)) (pq_vertex tp)) \<and>
         pm_inv g key parent (insert (pq_vertex tp) S) E1 (pq_vertex tp) (\<lambda>y. True)"
proof -
  let ?u = "pq_vertex tp" and ?E = "add_mset tp E1"
  have len: "int (length key) = g_n g" "int (length parent) = g_n g"
    and Sr: "\<forall>v \<in> S. 0 \<le> v \<and> v < g_n g"
    and i1: "\<And>x y. x \<in> S \<Longrightarrow> y \<notin> S \<Longrightarrow> edge g x y \<Longrightarrow> ival key y \<le> mcell (adjMatrix g) x y"
    and i2: "\<And>v. 0 \<le> v \<Longrightarrow> v < g_n g \<Longrightarrow> v \<notin> S \<Longrightarrow>
         ival key v = 999999 \<or>
         (ival key v < 999999 \<and> ival parent v \<in> S \<and> edge g (ival parent v) v \<and>
          mcell (adjMatrix g) (ival parent v) v = ival key v)"
    and i3: "\<And>e. e \<in># ?E \<Longrightarrow> 0 \<le> pq_vertex e \<and> pq_vertex e < g_n g \<and>
         ival key (pq_vertex e) \<le> pq_key e \<and> pq_key e < 999999"
    and i4: "\<And>v. 0 \<le> v \<Longrightarrow> v < g_n g \<Longrightarrow> v \<notin> S \<Longrightarrow> ival key v < 999999 \<Longrightarrow>
         \<lparr>pq_vertex = v, pq_key = ival key v\<rparr> \<in># ?E"
    using inv unfolding pm_inv_def by blast+
  have ur: "0 \<le> ?u" "?u < g_n g" "ival key ?u \<le> pq_key tp" "pq_key tp < 999999"
    using i3[of tp] by auto
  have ku: "ival key ?u < 999999" using ur by simp
  from i2[OF ur(1,2) fresh] ku have
    pu: "ival parent ?u \<in> S" "edge g (ival parent ?u) ?u"
      "mcell (adjMatrix g) (ival parent ?u) ?u = ival key ?u"
    by auto
  have kt: "pq_key tp \<le> ival key ?u" using mn[OF i4[OF ur(1,2) fresh ku]] by simp
  have light: "ival key ?u \<le> mcell (adjMatrix g) x y" if a: "x \<in> S" "y \<notin> S" "edge g x y" for x y
  proof -
    have r: "0 \<le> x" "x < g_n g" "0 \<le> y" "y < g_n g" using a(3) by (auto simp: edge_def)
    have "mcell (adjMatrix g) x y \<le> 999998" using weights_in_cell[OF w r] by simp
    then have ky: "ival key y \<le> mcell (adjMatrix g) x y" "ival key y < 999999"
      using i1[OF a] by auto
    from mn[OF i4[OF r(3,4) a(2) ky(2)]] have "pq_key tp \<le> ival key y" by simp
    then show ?thesis using ur(3) ky(1) kt by simp
  qed
  have ps: "prim_step g S (ival parent ?u, ?u, mcell (adjMatrix g) (ival parent ?u) ?u)"
    unfolding prim_step_def using pu fresh light by auto
  have inv': "pm_inv g key parent (insert ?u S) E1 ?u (\<lambda>y. True)"
    unfolding pm_inv_def
  proof (intro conjI allI impI ballI)
    fix v assume "v \<in> insert ?u S"
    then show "0 \<le> v" "v < g_n g" using Sr ur by auto
  next
    fix x y assume a: "x \<in> insert ?u S" "y \<notin> insert ?u S" "edge g x y"
    show "(x = ?u \<and> True) \<or> ival key y \<le> mcell (adjMatrix g) x y"
    proof (cases "x = ?u")
      case False
      then show ?thesis using i1[of x y] a by auto
    qed simp
  next
    fix v assume v: "0 \<le> v \<and> v < g_n g \<and> v \<notin> insert ?u S"
    then show "ival key v = 999999 \<or>
         (ival key v < 999999 \<and> ival parent v \<in> insert ?u S \<and> edge g (ival parent v) v \<and>
          mcell (adjMatrix g) (ival parent v) v = ival key v)"
      using i2[of v] by auto
  next
    fix e assume "e \<in># E1"
    then have "e \<in># ?E" by simp
    from i3[OF this] show "0 \<le> pq_vertex e" "pq_vertex e < g_n g"
      "ival key (pq_vertex e) \<le> pq_key e" "pq_key e < 999999" by auto
  next
    fix v assume v: "0 \<le> v \<and> v < g_n g \<and> v \<notin> insert ?u S \<and> ival key v < 999999"
    then have "\<lparr>pq_vertex = v, pq_key = ival key v\<rparr> \<in># ?E" using i4[of v] by simp
    moreover have "\<lparr>pq_vertex = v, pq_key = ival key v\<rparr> \<noteq> tp" using v by auto
    ultimately show "\<lparr>pq_vertex = v, pq_key = ival key v\<rparr> \<in># E1" by simp
  qed (use len in auto)
  have "0 \<le> ival parent ?u \<and> ival parent ?u < g_n g" using pu(2) by (simp add: edge_def)
  then show ?thesis using ps inv' by blast
qed

lemma prim_emit_step:
  assumes sq: "square (g_n g) (adjMatrix g)" and w: "weights_in g 0 hi"
    and u: "0 \<le> u" "u < g_n g" and len: "int (length parent) = g_n g"
    and p: "0 \<le> ival parent u" "ival parent u < g_n g"
  shows "prim_emit g parent u (rec_open recs, recs = []) =
           Some (rec_open (recs @ [(ival parent u, u, mcell (adjMatrix g) (ival parent u) u)]), False)"
proof -
  let ?p = "ival parent u"
  let ?w = "mcell (adjMatrix g) ?p u"
  have gp: "aget parent u = Some ?p" using aget_ival u len by simp
  have gw: "mat_get (adjMatrix g) ?p u = Some ?w" using mat_get_Some[OF sq p u] .
  have "0 \<le> ?w" using weights_in_cell[OF w sq p u] by simp
  then have sw: "intToString ?w = Some (decimal ?w)" by (rule intToString_vertex)
  have ne: "?p \<noteq> - 1" using p by simp
  show ?thesis
    using ne gp gw sw intToString_vertex[OF p(1)] intToString_vertex[OF u(1)]
    by (auto simp: prim_emit_def Let_def rec_open_snoc rec_text_def)
qed

lemma prim_emit_root:
  assumes "0 \<le> u" "u < int (length parent)" "ival parent u = - 1"
  shows "prim_emit g parent u (result, first) = Some (result, first)"
  using assms aget_ival[of u parent] by (simp add: prim_emit_def)

definition all_vertices :: "Graph \<Rightarrow> int set" where
  "all_vertices g = {v. 0 \<le> v \<and> v < g_n g}"

lemma pm_inv_final:
  assumes inv: "pm_inv g key parent S {#} u0 (\<lambda>y. False)"
    and w: "weights_in g lo 999998" "square (g_n g) (adjMatrix g)"
    and z: "0 \<in> S" and conn: "\<And>v. 0 \<le> v \<Longrightarrow> v < g_n g \<Longrightarrow> v \<in> reachable g 0"
  shows "S = all_vertices g"
proof -
  have closed: "y \<in> S" if a: "x \<in> S" "edge g x y" for x y
  proof (rule ccontr)
    assume n: "y \<notin> S"
    have r: "0 \<le> x" "x < g_n g" "0 \<le> y" "y < g_n g" using a(2) by (auto simp: edge_def)
    have "mcell (adjMatrix g) x y \<le> 999998" using weights_in_cell[OF w r] by simp
    moreover have "ival key y \<le> mcell (adjMatrix g) x y"
      using inv a n unfolding pm_inv_def by blast
    ultimately have "ival key y < 999999" by simp
    then have "\<lparr>pq_vertex = y, pq_key = ival key y\<rparr> \<in># {#}"
      using inv r n unfolding pm_inv_def by blast
    then show False by simp
  qed
  have "reachable g 0 \<subseteq> S" by (rule reachable_closed[OF z]) (rule closed)
  moreover have "\<forall>v \<in> S. 0 \<le> v \<and> v < g_n g" using inv unfolding pm_inv_def by blast
  ultimately show ?thesis using conn unfolding all_vertices_def by blast
qed

lemma prim_loop_correct:
  assumes sq: "square (g_n g) (adjMatrix g)"
    and w: "weights_in g 0 999998"
    and conn: "\<And>v. 0 \<le> v \<Longrightarrow> v < g_n g \<Longrightarrow> v \<in> reachable g 0"
    and inv: "pm_inv g key parent S (pq_entries pq) u0 (\<lambda>y. False)"
    and mk: "marks inMST (g_n g) S"
    and hp: "heap_inv pq" and cap: "capacity pq = g_n g * g_n g"
    and acc: "h_size pq + (g_n g - 1) * int (unvisited inMST) \<le> 1 + (g_n g - 1) * g_n g"
    and po: "prim_order g recs" and gr: "grown recs = S"
    and res: "result = rec_open recs" and fst: "first = (recs = [])"
  shows "\<exists>recs'. prim_loop g key parent inMST pq result first = Some (rec_open recs') \<and>
           prim_order g recs' \<and> grown recs' = all_vertices g"
  using assms
proof (induction g key parent inMST pq result first arbitrary: S u0 recs rule: prim_loop.induct)
  case (1 g key parent inMST pq result first)
  note sq = "1.prems"(1) and w = "1.prems"(2) and conn = "1.prems"(3) and inv = "1.prems"(4)
    and mk = "1.prems"(5) and hp = "1.prems"(6) and cap = "1.prems"(7) and acc = "1.prems"(8)
    and po = "1.prems"(9) and gr = "1.prems"(10) and res = "1.prems"(11) and fst = "1.prems"(12)
  let ?n = "g_n g"
  have z: "0 \<in> S" using gr by (auto simp: grown_def)
  show ?case
  proof (cases "h_size pq = 0")
    case True
    have "prim_loop g key parent inMST pq result first = Some result"
      using True by (simp add: prim_loop.simps[of g key parent inMST pq] MinHeap_empty_def)
    moreover have "S = all_vertices g"
      using pm_inv_final[OF _ w sq z conn] inv pq_entries_empty[OF True] by simp
    ultimately show ?thesis using po gr res by blast
  next
    case False
    then have pos: "0 < h_size pq" using hp by (simp add: heap_inv_def)
    have ne: "\<not> MinHeap_empty pq" using False by (simp add: MinHeap_empty_def)
    from MinHeap_pop_correct[OF hp pos] obtain tp pq1 where
      pop: "MinHeap_pop pq = Some (tp, pq1)" "heap_inv pq1"
        "pq_entries pq = add_mset tp (pq_entries pq1)"
        "\<And>e. e \<in># pq_entries pq \<Longrightarrow> pq_key tp \<le> pq_key e"
        "capacity pq1 = capacity pq" "h_size pq1 = h_size pq - 1"
      by blast
    let ?u = "pq_vertex tp"
    have inv1: "pm_inv g key parent S (add_mset tp (pq_entries pq1)) u0 (\<lambda>y. False)"
      using inv pop(3) by simp
    have ur: "0 \<le> ?u" "?u < ?n" using inv1 unfolding pm_inv_def by auto
    have len: "int (length parent) = ?n" using inv unfolding pm_inv_def by blast
    have vis: "aget inMST ?u = Some (?u \<in> S)" using marks_aget[OF mk ur] .
    have n1: "1 \<le> ?n" using ur by simp
    show ?thesis
    proof (cases "?u \<in> S")
      case True
      have inv2: "pm_inv g key parent S (pq_entries pq1) u0 (\<lambda>y. False)"
        using pm_pop_stale[OF inv1 True] .
      have acc2: "h_size pq1 + (?n - 1) * int (unvisited inMST) \<le> 1 + (?n - 1) * ?n"
        using acc pop(6) by simp
      have cap2: "capacity pq1 = ?n * ?n" using pop(5) cap by simp
      have step: "prim_loop g key parent inMST pq result first
                = prim_loop g key parent inMST pq1 result first"
        using ne pop(1) vis True by (simp add: prim_loop.simps[of g key parent inMST pq])
      have "\<exists>recs'. prim_loop g key parent inMST pq1 result first = Some (rec_open recs') \<and>
              prim_order g recs' \<and> grown recs' = all_vertices g"
        by (rule "1.IH"(1)[OF ne pop(1) refl refl vis True sq w conn inv2 mk pop(2) cap2 acc2
              po gr res fst])
      then show ?thesis using step by simp
    next
      case False
      let ?S = "insert ?u S" and ?inMST1 = "inMST[nat ?u := True]"
      let ?p = "ival parent ?u"
      let ?r = "(?p, ?u, mcell (adjMatrix g) ?p ?u)"
      from marks_aset[OF mk ur] have
        st: "aset inMST ?u True = Some ?inMST1" and mk1: "marks ?inMST1 ?n ?S" by auto
      have mn: "\<And>e. e \<in># add_mset tp (pq_entries pq1) \<Longrightarrow> pq_key tp \<le> pq_key e"
        using pop(3,4) by simp
      from pm_pop_fresh[OF inv1 w sq False mn] have
        pr: "0 \<le> ?p" "?p < ?n" and ps: "prim_step g S ?r"
        and inv2: "pm_inv g key parent ?S (pq_entries pq1) ?u (\<lambda>y. True)"
        by auto
      have em: "prim_emit g parent ?u (result, first) = Some (rec_open (recs @ [?r]), False)"
        unfolding res fst by (rule prim_emit_step[OF sq w ur len pr])
      have po': "prim_order g (recs @ [?r])" using po ps gr by (simp add: prim_order_snoc)
      have gr': "grown (recs @ [?r]) = ?S" using gr by (simp add: grown_snoc)
      from unvisited_pos[OF mk ur False] have
        c1: "1 \<le> int (unvisited inMST)"
        and c2: "int (unvisited ?inMST1) = int (unvisited inMST) - 1" by auto
      define K where "K = ?n - 1"
      define c where "c = int (unvisited inMST)"
      have K0: "0 \<le> K" using n1 by (simp add: K_def)
      have Kc: "K \<le> K * c" using K0 c1 unfolding c_def by (simp add: mult_le_cancel_left1)
      have acc': "h_size pq + K * c \<le> 1 + K * ?n" using acc by (simp add: K_def c_def)
      have capK: "capacity pq1 = K * ?n + ?n" using pop(5) cap by (simp add: K_def algebra_simps)
      have a2: "h_size pq1 + (?n - 2) < capacity pq1"
        using acc' Kc capK pop(6) K0 by linarith
      from prim_scan[OF sq ur _ inv2 mk1 pop(2) order.refl a2]
      obtain key' parent' pq' where
        sc: "for_up 0 ?n (prim_relax g ?inMST1 ?u) (key, parent, pq1) = Some (key', parent', pq')"
          "pm_inv g key' parent' ?S (pq_entries pq') ?u (\<lambda>y. False)"
          "heap_inv pq'" "capacity pq' = capacity pq1" "h_size pq' \<le> h_size pq1 + (?n - 1)"
        by auto
      have "K * (c - 1) = K * c - K" by (simp add: algebra_simps)
      then have acc3: "h_size pq' + (?n - 1) * int (unvisited ?inMST1) \<le> 1 + (?n - 1) * ?n"
        using sc(5) pop(6) acc' c2 by (simp add: K_def[symmetric] c_def[symmetric])
      have cap3: "capacity pq' = ?n * ?n" using sc(4) pop(5) cap by simp
      have step: "prim_loop g key parent inMST pq result first
                = prim_loop g key' parent' ?inMST1 pq' (rec_open (recs @ [?r])) False"
        using ne pop(1) vis False st em sc(1)
        by (simp add: prim_loop.simps[of g key parent inMST pq] Let_def)
      have f': "False = (recs @ [?r] = [])" by simp
      have "\<exists>recs'. prim_loop g key' parent' ?inMST1 pq' (rec_open (recs @ [?r])) False
                = Some (rec_open recs') \<and> prim_order g recs' \<and> grown recs' = all_vertices g"
        by (rule "1.IH"(2)[OF ne pop(1) refl refl vis False st em refl sc(1) refl refl
              sq w conn sc(2) mk1 sc(3) cap3 acc3 po' gr' refl f'])
      then show ?thesis using step by simp
    qed
  qed
qed

definition connected :: "Graph \<Rightarrow> bool" where
  "connected g =
     (\<forall>u v. 0 \<le> u \<and> u < g_n g \<and> 0 \<le> v \<and> v < g_n g \<longrightarrow> v \<in> reachable g u)"

lemma reachable_sym:
  assumes sq: "square (g_n g) (adjMatrix g)" and sym: "symmetric (adjMatrix g)"
    and r: "v \<in> reachable g u"
  shows "u \<in> reachable g v"
proof -
  have "(edge g)\<^sup>*\<^sup>* u v" using r by (simp add: reachable_def)
  then have "(edge g)\<^sup>*\<^sup>* v u"
    by (induction rule: rtranclp_induct)
       (auto intro: converse_rtranclp_into_rtranclp dest: edge_sym[OF sq sym])
  then show ?thesis by (simp add: reachable_def)
qed

lemma connected_root:
  assumes sq: "square (g_n g) (adjMatrix g)" and sym: "symmetric (adjMatrix g)"
    and r: "\<And>v. 0 \<le> v \<Longrightarrow> v < g_n g \<Longrightarrow> v \<in> reachable g 0"
  shows "connected g"
  unfolding connected_def
proof (intro allI impI)
  fix u v assume a: "0 \<le> u \<and> u < g_n g \<and> 0 \<le> v \<and> v < g_n g"
  have "0 \<in> reachable g u" using reachable_sym[OF sq sym r[of u]] a by simp
  then have "(edge g)\<^sup>*\<^sup>* u 0" by (simp add: reachable_def)
  moreover have "(edge g)\<^sup>*\<^sup>* 0 v" using r[of v] a by (simp add: reachable_def)
  ultimately have "(edge g)\<^sup>*\<^sup>* u v" by (rule rtranclp_trans)
  then show "v \<in> reachable g u" by (simp add: reachable_def)
qed

lemma primMST_correct:
  assumes sq: "square (g_n g) (adjMatrix g)" and und: "\<not> isDirected g"
    and n1: "1 \<le> g_n g" and nb: "g_n g \<le> 32767"
    and w: "weights_in g 0 999998"
    and conn: "\<And>v. 0 \<le> v \<Longrightarrow> v < g_n g \<Longrightarrow> v \<in> reachable g 0"
  shows "\<exists>recs. primMST g = Some (recs_text recs) \<and> prim_order g recs \<and>
           grown recs = all_vertices g"
proof -
  let ?n = "g_n g"
  let ?k0 = "replicate (nat ?n) (999999::int)" and ?p0 = "replicate (nat ?n) (- 1::int)"
  let ?m0 = "replicate (nat ?n) False"
  let ?k1 = "?k0[0 := 0]" and ?m1 = "?m0[0 := True]"
  have z: "(0::int) \<le> 0" "0 < ?n" using n1 by simp_all
  have na: "new_array ?n (999999::int) = Some ?k0" "new_array ?n (- 1::int) = Some ?p0"
    "new_array ?n False = Some ?m0"
    using n1 by (simp_all add: new_array_def)
  have as: "aset ?k0 0 0 = Some ?k1" using n1 by (simp add: aset_def)
  have nn: "?n * ?n \<le> 32767 * 32767" using n1 nb by (intro mult_mono) auto
  have cap0: "0 \<le> ?n * ?n" "?n * ?n < 1073741824" using nn by auto
  have "INT_MIN \<le> ?n * ?n \<and> ?n * ?n \<le> INT_MAX"
    using cap0 unfolding INT_MIN_def INT_MAX_def by linarith
  then have ml: "mul32 ?n ?n = Some (?n * ?n)" by (simp add: mul32_def)
  from MinHeap_new_correct[OF cap0] obtain pq0 where
    pq0: "MinHeap_new (?n * ?n) = Some pq0" "heap_inv pq0" "pq_entries pq0 = {#}"
      "capacity pq0 = ?n * ?n" "h_size pq0 = 0"
    by blast
  have nn0: "0 < ?n * ?n" using n1 by (simp add: zero_less_mult_iff)
  then have "h_size pq0 < capacity pq0" using pq0 by simp
  from MinHeap_push_correct[OF pq0(2) this, of 0 0] obtain pq where
    pq: "MinHeap_push pq0 0 0 = Some pq" "heap_inv pq"
      "pq_entries pq = {#\<lparr>pq_vertex = 0, pq_key = 0\<rparr>#}" "capacity pq = ?n * ?n" "h_size pq = 1"
    using pq0 by auto
  have top: "primMST g = do { result \<leftarrow> prim_loop g ?k1 ?p0 ?m0 pq ''['' True;
                              Some (result @ '']'') }"
    using und na as ml pq0(1) pq(1) by (simp add: primMST_def)
  have ne: "\<not> MinHeap_empty pq" using pq(5) by (simp add: MinHeap_empty_def)
  have pos: "0 < h_size pq" using pq(5) by simp
  from MinHeap_pop_correct[OF pq(2) pos] obtain tp pq1 where
    pop: "MinHeap_pop pq = Some (tp, pq1)" "heap_inv pq1"
      "pq_entries pq = add_mset tp (pq_entries pq1)"
      "capacity pq1 = capacity pq" "h_size pq1 = h_size pq - 1"
    by blast
  have tp: "tp = \<lparr>pq_vertex = 0, pq_key = 0\<rparr>" and e1: "pq_entries pq1 = {#}"
    using pop(3) unfolding pq(3) by (auto simp: single_is_union add_mset_eq_single)
  have u0: "pq_vertex tp = 0" using tp by simp
  have mk0: "marks ?m0 ?n {}" using n1 by (simp add: marks_def)
  have vis: "aget ?m0 0 = Some False" using marks_aget[OF mk0 z] by simp
  from marks_aset[OF mk0 z] have
    st: "aset ?m0 0 True = Some ?m1" and mk1: "marks ?m1 ?n {0}" by auto
  have p00: "ival ?p0 0 = - 1" using n1 by (simp add: ival_def)
  have em: "prim_emit g ?p0 0 (''['', True) = Some (''['', True)"
    by (rule prim_emit_root) (use n1 p00 in simp_all)
  have k1: "\<And>v. 0 \<le> v \<Longrightarrow> v < ?n \<Longrightarrow> ival ?k1 v = (if v = 0 then 0 else 999999)"
    using n1 by (auto simp: ival_def nat_eq_iff)
  have inv0: "pm_inv g ?k1 ?p0 {0} (pq_entries pq1) 0 (\<lambda>y. True)"
    unfolding pm_inv_def e1
  proof (intro conjI allI impI ballI)
    fix v assume "0 \<le> v \<and> v < ?n \<and> v \<notin> {0}"
    then show "ival ?k1 v = 999999 \<or>
         (ival ?k1 v < 999999 \<and> ival ?p0 v \<in> {0} \<and> edge g (ival ?p0 v) v \<and>
          mcell (adjMatrix g) (ival ?p0 v) v = ival ?k1 v)"
      using k1[of v] by simp
  next
    fix v assume "0 \<le> v \<and> v < ?n \<and> v \<notin> {0} \<and> ival ?k1 v < 999999"
    then show "\<lparr>pq_vertex = v, pq_key = ival ?k1 v\<rparr> \<in># {#}" using k1[of v] by simp
  qed (use n1 in auto)
  have h1: "h_size pq1 \<le> 0" using pop(5) pq(5) by simp
  have "?n - 2 < ?n * ?n"
  proof -
    have "?n * 1 \<le> ?n * ?n" using n1 by (intro mult_left_mono) auto
    then show ?thesis by simp
  qed
  then have a2: "0 + (?n - 2) < capacity pq1" using pop(4) pq(4) by simp
  from prim_scan[OF sq z _ inv0 mk1 pop(2) h1 a2]
  obtain key' parent' pq' where
    sc: "for_up 0 ?n (prim_relax g ?m1 0) (?k1, ?p0, pq1) = Some (key', parent', pq')"
      "pm_inv g key' parent' {0} (pq_entries pq') 0 (\<lambda>y. False)"
      "heap_inv pq'" "capacity pq' = capacity pq1" "h_size pq' \<le> 0 + (?n - 1)"
    by auto
  have step: "prim_loop g ?k1 ?p0 ?m0 pq ''['' True = prim_loop g key' parent' ?m1 pq' ''['' True"
    using ne pop(1) u0 vis st em sc(1)
    by (simp add: prim_loop.simps[of g ?k1 ?p0 ?m0 pq] Let_def)
  have "0 \<notin> ({}::int set)" by simp
  from unvisited_pos[OF mk0 z this] have
    c2: "int (unvisited ?m1) = ?n - 1" using n1 by (simp add: unvisited_replicate)
  have "(?n - 1) + (?n - 1) * (?n - 1) = (?n - 1) * ?n" by (simp add: algebra_simps)
  then have acc: "h_size pq' + (?n - 1) * int (unvisited ?m1) \<le> 1 + (?n - 1) * ?n"
    using sc(5) unfolding c2 by linarith
  have cap: "capacity pq' = ?n * ?n" using sc(4) pop(4) pq(4) by simp
  have r0: "''['' = rec_open []" by (simp add: rec_open_def)
  have f0: "True = (([]::(int \<times> int \<times> int) list) = [])" by simp
  have g0: "grown [] = {0}" by (simp add: grown_def)
  from prim_loop_correct[OF sq w conn sc(2) mk1 sc(3) cap acc prim_order_Nil g0 r0 f0]
  obtain recs where
    recs: "prim_loop g key' parent' ?m1 pq' ''['' True = Some (rec_open recs)"
      "prim_order g recs" "grown recs = all_vertices g"
    by blast
  have "primMST g = Some (recs_text recs)"
    unfolding top step recs(1) by (simp add: recs_text_open)
  then show ?thesis using recs(2,3) by blast
qed

lemma far_graph_prim: "primMST far_graph = Some ''[]''"
  by code_simp

lemma spec_graph_prim: "primMST spec_graph = Some ''[0-1:1,1-2:2,2-3:1]''"
  by code_simp

lemma far_graph_connected: "connected far_graph"
proof (rule connected_root)
  show "square (g_n far_graph) (adjMatrix far_graph)" by (simp add: far_graph_def square_def)
  show "symmetric (adjMatrix far_graph)" by (simp add: far_graph_def symmetric_def upt_rec)
  fix v :: int assume "0 \<le> v" "v < g_n far_graph"
  then have "v = 0 \<or> v = 1" by (auto simp: far_graph_def)
  then consider "v = 0" | "v = 1" by blast
  then show "v \<in> reachable far_graph 0"
  proof cases
    case 1
    then show ?thesis by (simp add: reachable_refl)
  next
    case 2
    have "edge far_graph 0 1" by (simp add: edge_def far_graph_def mcell_def)
    from reachable_step[OF reachable_refl this] show ?thesis using 2 by simp
  qed
qed

lemma recs_text_single: "recs_text [r] \<noteq> ''[]''"
proof -
  have "length (recs_text [r]) \<ge> 4" by (simp add: recs_text_def rec_text_def)
  then show ?thesis by auto
qed

text \<open>
  Claim C3, as stated, fails: \<open>far_graph\<close> is connected and undirected, its only edge has
  the positive weight 1000000, and \<^verbatim>\<open>primMST\<close> returns the empty list instead of one record,
  because the weight is not below the initial key 999999 of vertex 1.
\<close>

theorem primMST_sentinel_counterexample:
  "wf_graph far_graph \<and> \<not> isDirected far_graph \<and> connected far_graph \<and> g_n far_graph = 2 \<and>
   weights_in far_graph 0 1000000 \<and> mcell (adjMatrix far_graph) 0 1 = 1000000 \<and>
   mcell (adjMatrix far_graph) 1 0 = 1000000 \<and>
   primMST far_graph = Some (recs_text []) \<and>
   \<not> (\<exists>r. primMST far_graph = Some (recs_text [r]))"
proof -
  have "wf_graph far_graph"
    by (simp add: wf_graph_def far_graph_def square_def symmetric_def upt_rec)
  moreover have "weights_in far_graph 0 1000000" by (simp add: weights_in_def far_graph_def)
  moreover have "primMST far_graph = Some (recs_text [])"
    using far_graph_prim by (simp add: recs_text_def)
  moreover have "\<not> (\<exists>r. primMST far_graph = Some (recs_text [r]))"
    using far_graph_prim recs_text_single by (metis option.inject)
  moreover have "g_n far_graph = 2 \<and> \<not> isDirected far_graph \<and>
      mcell (adjMatrix far_graph) 0 1 = 1000000 \<and> mcell (adjMatrix far_graph) 1 0 = 1000000"
    by (simp add: far_graph_def mcell_def)
  ultimately show ?thesis using far_graph_connected by blast
qed

text \<open>
  Claim C3, amended.  For every connected undirected graph of at least 1 and at most 32767
  vertices whose edge weights are positive and at most 999998, \<^verbatim>\<open>primMST\<close> returns the text
  of \<open>vertexCount - 1\<close> edge records; the records come in the order in which their children
  are finalised, starting from vertex 0 (\<open>prim_order\<close>); their edges are a spanning tree;
  and the sum of their weights is the weight of that tree and at most the weight of every
  spanning set of edges, in particular of every spanning tree.
\<close>

theorem primMST_minimum:
  assumes "wf_graph g" "\<not> isDirected g" "connected g" "1 \<le> g_n g" "g_n g \<le> 32767"
    and "weights_in g 0 999998"
  shows "\<exists>recs. primMST g = Some (recs_text recs) \<and> int (length recs) = g_n g - 1 \<and>
           prim_order g recs \<and> spanning_tree g (rec_edges recs) \<and>
           sum_list (map (\<lambda>r. snd (snd r)) recs) = tree_weight g (rec_edges recs) \<and>
           (\<forall>T. spanning g T \<longrightarrow> sum_list (map (\<lambda>r. snd (snd r)) recs) \<le> tree_weight g T)"
proof -
  have sq: "square (g_n g) (adjMatrix g)" and sym: "symmetric (adjMatrix g)"
    using assms(1,2) by (auto simp: wf_graph_def)
  have conn: "\<And>v. 0 \<le> v \<Longrightarrow> v < g_n g \<Longrightarrow> v \<in> reachable g 0"
    using assms(3,4) unfolding connected_def by auto
  from primMST_correct[OF sq assms(2,4,5,6) conn] obtain recs where
    recs: "primMST g = Some (recs_text recs)" "prim_order g recs" "grown recs = all_vertices g"
    by blast
  have all: "grown recs = {v. 0 \<le> v \<and> v < g_n g}" using recs(3) by (simp add: all_vertices_def)
  from prim_order_mst[OF sq sym assms(6,4) recs(2) all] show ?thesis using recs(1,2) by auto
qed

theorem primMST_minimum_witness:
  "wf_graph spec_graph \<and> \<not> isDirected spec_graph \<and> connected spec_graph \<and>
   1 \<le> g_n spec_graph \<and> g_n spec_graph \<le> 32767 \<and> weights_in spec_graph 0 999998 \<and>
   primMST spec_graph = Some ''[0-1:1,1-2:2,2-3:1]'' \<and>
   (\<exists>recs. primMST spec_graph = Some (recs_text recs) \<and> length recs = 3 \<and>
      prim_order spec_graph recs \<and> spanning_tree spec_graph (rec_edges recs) \<and>
      sum_list (map (\<lambda>r. snd (snd r)) recs) = tree_weight spec_graph (rec_edges recs))"
proof -
  have sq: "square (g_n spec_graph) (adjMatrix spec_graph)"
    by (simp add: spec_graph_def square_def)
  have sym: "symmetric (adjMatrix spec_graph)"
    by (simp add: spec_graph_def symmetric_def upt_rec)
  have wf: "wf_graph spec_graph" using sq sym by (simp add: wf_graph_def)
  have und: "\<not> isDirected spec_graph" by (simp add: spec_graph_def)
  have n: "1 \<le> g_n spec_graph" "g_n spec_graph \<le> 32767" by (simp_all add: spec_graph_def)
  have w: "weights_in spec_graph 0 999998" by (simp add: weights_in_def spec_graph_def)
  have e: "edge spec_graph 0 1" "edge spec_graph 1 2" "edge spec_graph 2 3"
    by (simp_all add: edge_def spec_graph_def mcell_def)
  have r1: "1 \<in> reachable spec_graph 0" using reachable_step[OF reachable_refl e(1)] .
  have r2: "2 \<in> reachable spec_graph 0" using reachable_step[OF r1 e(2)] .
  have r3: "3 \<in> reachable spec_graph 0" using reachable_step[OF r2 e(3)] .
  have c: "connected spec_graph"
  proof (rule connected_root[OF sq sym])
    fix v :: int assume "0 \<le> v" "v < g_n spec_graph"
    then have "v = 0 \<or> v = 1 \<or> v = 2 \<or> v = 3" by (auto simp: spec_graph_def)
    then consider "v = 0" | "v = 1" | "v = 2" | "v = 3" by blast
    then show "v \<in> reachable spec_graph 0"
      using r1 r2 r3 reachable_refl[of 0 spec_graph] by cases simp_all
  qed
  have "g_n spec_graph - 1 = 3" by (simp add: spec_graph_def)
  then show ?thesis using primMST_minimum[OF wf und c n w] wf und c n w spec_graph_prim by auto
qed

end

